(* ===== verification/Prelude.thy ===== *)
theory Prelude
  imports Main "HOL-Library.Word" "HOL-Library.Signed_Division"
begin

text \<open>
  What every component of the development shares: the names of the types that stand for the
  C++ ones, the collections of facts the component proofs draw on, and labelled runs of a step
  relation with the one induction that carries an invariant along a run.
\<close>

unbundle bit_operations_syntax

section \<open>Names of the common types\<close>

text \<open>A thread is known by a number, as \<^verbatim>\<open>std::thread::id\<close> identifies it.\<close>

type_synonym tid = nat

text \<open>\<^verbatim>\<open>std::chrono\<close> durations are counts of their unit, and may be negative.\<close>

type_synonym millis = int

section \<open>Collections\<close>

text \<open>
  \<^verbatim>\<open>op_defs\<close> unfolds the operations of a component, \<^verbatim>\<open>inv_defs\<close> its invariants;
  \<^verbatim>\<open>frame\<close> holds the facts saying which part of a state an operation leaves alone.
\<close>

named_theorems op_defs "definitions of the modelled operations"
named_theorems inv_defs "definitions of the invariants"
named_theorems frame "what an operation leaves unchanged"

section \<open>Runs of a step relation\<close>

text \<open>
  The concurrent components are step relations \<open>step s l t\<close>: from state \<open>s\<close> some thread
  performs the action named by the label \<open>l\<close> and leads to \<open>t\<close>. A run is the list of labels.
\<close>

inductive run :: "('s \<Rightarrow> 'l \<Rightarrow> 's \<Rightarrow> bool) \<Rightarrow> 's \<Rightarrow> 'l list \<Rightarrow> 's \<Rightarrow> bool"
  for step :: "'s \<Rightarrow> 'l \<Rightarrow> 's \<Rightarrow> bool" where
  run_nil [simp, intro!]: "run step s [] s"
| run_cons [intro]: "step s l t \<Longrightarrow> run step t ls u \<Longrightarrow> run step s (l # ls) u"

inductive_cases run_nilE [elim!]: "run step s [] t"
inductive_cases run_consE [elim!]: "run step s (l # ls) t"

inductive_simps run_Nil_iff [simp]: "run step s [] t"
inductive_simps run_Cons_iff: "run step s (l # ls) t"

lemma run_single: "step s l t \<Longrightarrow> run step s [l] t"
  by blast

lemma run_append:
  "run step s ls t \<Longrightarrow> run step t ms u \<Longrightarrow> run step s (ls @ ms) u"
  by (induction rule: run.induct) auto

lemma run_append_iff:
  "run step s (ls @ ms) u \<longleftrightarrow> (\<exists>t. run step s ls t \<and> run step t ms u)"
  by (induction ls arbitrary: s) (auto simp: run_Cons_iff)

lemma run_snocI: "run step s ls t \<Longrightarrow> step t l u \<Longrightarrow> run step s (ls @ [l]) u"
  by (blast intro: run_append run_single)

text \<open>A state some run of any length reaches.\<close>

definition reaches :: "('s \<Rightarrow> 'l \<Rightarrow> 's \<Rightarrow> bool) \<Rightarrow> 's \<Rightarrow> 's \<Rightarrow> bool" where
  "reaches step s t \<longleftrightarrow> (\<exists>ls. run step s ls t)"

lemma reaches_refl [simp, intro!]: "reaches step s s"
  unfolding reaches_def by blast

lemma reachesI: "run step s ls t \<Longrightarrow> reaches step s t"
  unfolding reaches_def by blast

lemma reaches_step: "reaches step s t \<Longrightarrow> step t l u \<Longrightarrow> reaches step s u"
  unfolding reaches_def by (blast intro: run_snocI)

lemma reaches_trans: "reaches step s t \<Longrightarrow> reaches step t u \<Longrightarrow> reaches step s u"
  unfolding reaches_def by (blast intro: run_append)

subsection \<open>Invariants of a run\<close>

text \<open>
  The contract between a step relation and a predicate it keeps. \<open>allowed\<close> restricts the
  labels of the run: a client that promises not to perform some actions (no \<^verbatim>\<open>enqueue\<close>
  after \<^verbatim>\<open>stop\<close>, say) gets the invariant for such runs.
\<close>

locale step_invariant =
  fixes step :: "'s \<Rightarrow> 'l \<Rightarrow> 's \<Rightarrow> bool"
    and allowed :: "'l \<Rightarrow> bool"
    and inv :: "'s \<Rightarrow> bool"
  assumes inv_step: "step s l t \<Longrightarrow> allowed l \<Longrightarrow> inv s \<Longrightarrow> inv t"
begin

lemma inv_run: "run step s ls t \<Longrightarrow> \<forall>l\<in>set ls. allowed l \<Longrightarrow> inv s \<Longrightarrow> inv t"
  by (induction rule: run.induct) (auto intro: inv_step)

end

text \<open>An invariant that needs no restriction on the labels.\<close>

locale unconditional_invariant =
  step_invariant step "\<lambda>_. True" inv
  for step :: "'s \<Rightarrow> 'l \<Rightarrow> 's \<Rightarrow> bool" and inv :: "'s \<Rightarrow> bool"
begin

lemma inv_reaches: "reaches step s t \<Longrightarrow> inv s \<Longrightarrow> inv t"
  unfolding reaches_def using inv_run by blast

end

subsection \<open>Threads that come to an end\<close>

text \<open>
  The contract between the steps of one thread, \<open>own\<close>, and a bound on those it still takes: its own
  steps lower the bound and nobody else's raise it, as long as \<open>allowed\<close> steps are taken.
\<close>

locale ending_thread =
  fixes step :: "'s \<Rightarrow> 'l \<Rightarrow> 's \<Rightarrow> bool"
    and allowed :: "'l \<Rightarrow> bool"
    and own :: "'l \<Rightarrow> bool"
    and inv :: "'s \<Rightarrow> bool"
    and left :: "'s \<Rightarrow> nat"
  assumes left_step: "step s l t \<Longrightarrow> allowed l \<Longrightarrow> inv s \<Longrightarrow>
      inv t \<and> left t + (if own l then 1 else 0) \<le> left s"
begin

lemma left_run:
  "run step s ls t \<Longrightarrow> list_all allowed ls \<Longrightarrow> inv s \<Longrightarrow> inv t \<and> left t + length (filter own ls) \<le> left s"
proof (induction rule: run.induct)
  case (run_cons s l t ls u)
  with left_step [OF run_cons.hyps(1)] show ?case by force
qed simp

end

section \<open>Sequences of calls\<close>

text \<open>A list of calls on an object, each with its result and the object's new state.\<close>

primrec exec_all :: "('op \<Rightarrow> 's \<Rightarrow> 'r \<times> 's) \<Rightarrow> 'op list \<Rightarrow> 's \<Rightarrow> 'r list \<times> 's" where
  "exec_all exec [] s = ([], s)"
| "exec_all exec (x # xs) s =
     (case exec x s of (r, s') \<Rightarrow> (case exec_all exec xs s' of (rs, s'') \<Rightarrow> (r # rs, s'')))"

lemma exec_all_snoc:
  "exec_all exec (xs @ [x]) s =
     (case exec_all exec xs s of (rs, s') \<Rightarrow> (case exec x s' of (r, s'') \<Rightarrow> (rs @ [r], s'')))"
  by (induction xs arbitrary: s) (auto split: prod.splits)

lemma results_of_view: "map_prod id f x = (rs, y) \<Longrightarrow> fst x = rs"
  by (cases x) simp

text \<open>
  An implementation of an abstract object: every call gives the abstract result and leads to a
  state that stands for the abstract one; then so does every sequence of calls.
\<close>

locale functional_refinement =
  fixes exec :: "'op \<Rightarrow> 's \<Rightarrow> 'r \<times> 's"
    and spec :: "'op \<Rightarrow> 'a \<Rightarrow> 'r \<times> 'a"
    and abs :: "'s \<Rightarrow> 'a"
    and inv :: "'s \<Rightarrow> bool"
  assumes exec_spec: "inv s \<Longrightarrow> exec x s = (r, s') \<Longrightarrow> inv s' \<and> spec x (abs s) = (r, abs s')"
begin

lemma exec_all_spec:
  "inv s \<Longrightarrow> exec_all exec xs s = (rs, s') \<Longrightarrow> inv s' \<and> exec_all spec xs (abs s) = (rs, abs s')"
proof (induction xs arbitrary: s rs)
  case (Cons x xs)
  obtain r s1 where r: "exec x s = (r, s1)" by fastforce
  with Cons.prems(2) obtain rs' where rs: "exec_all exec xs s1 = (rs', s')" "rs = r # rs'"
    by (auto split: prod.splits)
  from exec_spec [OF Cons.prems(1) r] Cons.IH [OF _ rs(1)] rs(2) show ?case by simp
qed simp

lemma exec_all_view: "inv s \<Longrightarrow> map_prod id abs (exec_all exec xs s) = exec_all spec xs (abs s)"
  using exec_all_spec [of s xs] by (cases "exec_all exec xs s") simp

end

text \<open>
  Calls that need not return (\<open>None\<close>: they block, or what they do is undefined). An implementation
  may do less than its abstract object: the contract speaks of the calls the abstract object takes.
\<close>

primrec run_calls :: "('op \<Rightarrow> 's \<Rightarrow> ('r \<times> 's) option) \<Rightarrow> 'op list \<Rightarrow> 's \<Rightarrow> ('r list \<times> 's) option" where
  "run_calls call [] s = Some ([], s)"
| "run_calls call (x # xs) s =
     (case call x s of
        None \<Rightarrow> None
      | Some (r, s') \<Rightarrow> map_option (\<lambda>(rs, s''). (r # rs, s'')) (run_calls call xs s'))"

locale guarded_refinement =
  fixes call :: "'op \<Rightarrow> 's \<Rightarrow> ('r \<times> 's) option"
    and spec :: "'op \<Rightarrow> 'a \<Rightarrow> ('r \<times> 'a) option"
    and abs :: "'s \<Rightarrow> 'a"
    and inv :: "'s \<Rightarrow> bool"
  assumes call_spec: "inv s \<Longrightarrow> spec x (abs s) = Some (r, a) \<Longrightarrow> \<exists>s'. call x s = Some (r, s') \<and> inv s' \<and> abs s' = a"
begin

lemma run_calls_spec:
  "inv s \<Longrightarrow> run_calls spec xs (abs s) = Some (rs, a) \<Longrightarrow>
     \<exists>s'. run_calls call xs s = Some (rs, s') \<and> inv s' \<and> abs s' = a"
proof (induction xs arbitrary: s rs)
  case (Cons x xs)
  from Cons.prems(2) obtain r a1 rs1 where r: "spec x (abs s) = Some (r, a1)"
      and rs: "run_calls spec xs a1 = Some (rs1, a)" "rs = r # rs1"
    by (auto split: option.splits)
  from call_spec [OF Cons.prems(1) r] obtain s1 where s1: "call x s = Some (r, s1)" "inv s1" "abs s1 = a1" by blast
  from Cons.IH [OF s1(2), of rs1] rs s1(1,3) show ?case by auto
qed simp

end

end
