(* ===== verification/Errors.thy ===== *)
theory Errors
  imports Prelude
begin

text \<open>
  The exceptions of \<^verbatim>\<open>include/Exception\<close> and \<^verbatim>\<open>lib/Exception\<close>, and the values of
  \<^verbatim>\<open>std::any\<close> they and the event requests carry. A C++ expression that may throw is a
  value of \<open>exn + 'a\<close>: \<open>Inl\<close> the exception in flight, \<open>Inr\<close> the result.
\<close>

section \<open>std::any\<close>

text \<open>
  A \<^verbatim>\<open>std::any\<close> is empty or holds one object together with its type; \<open>'v\<close> is the universe
  of objects, a type is known by its name. \<^verbatim>\<open>any_cast\<close> succeeds on the very type stored.
\<close>

type_synonym type_name = string

type_synonym 'v any = "(type_name \<times> 'v) option"

definition has_value :: "'v any \<Rightarrow> bool" where
  "has_value a = (a \<noteq> None)"

fun any_cast_ptr :: "type_name \<Rightarrow> 'v any \<Rightarrow> 'v option" where
  "any_cast_ptr ty None = None"
| "any_cast_ptr ty (Some (ty', v)) = (if ty' = ty then Some v else None)"

section \<open>Error codes\<close>

datatype error_code =
    Unknown
  | Success
  | OutOfRange
  | InvalidArgument
  | TypeMismatch
  | InvalidOperation
  | SystemError

text \<open>The enumerators count up from \<open>-1\<close>, in an \<^verbatim>\<open>int8_t\<close>.\<close>

fun code_underlying :: "error_code \<Rightarrow> 8 word" where
  "code_underlying Unknown = -1"
| "code_underlying Success = 0"
| "code_underlying OutOfRange = 1"
| "code_underlying InvalidArgument = 2"
| "code_underlying TypeMismatch = 3"
| "code_underlying InvalidOperation = 4"
| "code_underlying SystemError = 5"

lemma code_underlying_inject [simp]: "code_underlying c = code_underlying d \<longleftrightarrow> c = d"
  by (cases c; cases d) simp_all

section \<open>std::to_string on int\<close>

function nat_to_string :: "nat \<Rightarrow> string" where
  "nat_to_string n =
     (if n < 10 then [char_of (48 + n)] else nat_to_string (n div 10) @ [char_of (48 + n mod 10)])"
  by pat_completeness auto
termination
  by (relation "measure id") auto

declare nat_to_string.simps [simp del]

definition int_to_string :: "int \<Rightarrow> string" where
  "int_to_string i = (if i < 0 then ''-'' @ nat_to_string (nat (- i)) else nat_to_string (nat i))"

section \<open>Exception\<close>

text \<open>
  \<^verbatim>\<open>Framework::Exception\<close>: the message kept by \<^verbatim>\<open>std::runtime_error\<close>, the code, and
  the optional context.
\<close>

record 'v exception =
  what :: string
  ex_code :: error_code
  ex_context :: "'v any option"

definition build_error_message :: "string \<Rightarrow> error_code \<Rightarrow> string" where
  "build_error_message message code =
     message @ '' (Error Code: '' @ int_to_string (sint (code_underlying code)) @ '')''"

definition make_exception :: "string \<Rightarrow> error_code \<Rightarrow> 'v exception" where
  "make_exception message code =
     \<lparr>what = build_error_message message code, ex_code = code, ex_context = None\<rparr>"

definition make_exception_with :: "string \<Rightarrow> error_code \<Rightarrow> 'v any \<Rightarrow> 'v exception" where
  "make_exception_with message code ctx =
     \<lparr>what = build_error_message message code, ex_code = code, ex_context = Some ctx\<rparr>"

definition get_code :: "('v, 'z) exception_scheme \<Rightarrow> error_code" where
  "get_code e = ex_code e"

definition has_context :: "'v exception \<Rightarrow> bool" where
  "has_context e = (ex_context e \<noteq> None)"

definition get_context :: "type_name \<Rightarrow> 'v exception \<Rightarrow> 'v option" where
  "get_context ty e =
     (case ex_context e of None \<Rightarrow> None
      | Some ctx \<Rightarrow> (case any_cast_ptr ty ctx of Some v \<Rightarrow> Some v | None \<Rightarrow> None))"

section \<open>SystemException\<close>

record 'v system_exception = "'v exception" +
  errno_value :: int

definition make_system_exception :: "string \<Rightarrow> int \<Rightarrow> error_code \<Rightarrow> 'v system_exception" where
  "make_system_exception message err code =
     exception.extend (make_exception message code) \<lparr>errno_value = err\<rparr>"

definition errno_code :: "'v system_exception \<Rightarrow> int" where
  "errno_code e = errno_value e"

text \<open>
  \<^verbatim>\<open>strerror_r\<close> is the C library's: given the error number, the buffer and its size it
  returns some value, which the code compares with 0, and leaves a text in the buffer.
  The text of the buffer is read up to its NUL.
\<close>

type_synonym strerror = "int \<Rightarrow> nat \<Rightarrow> int \<times> string"

definition errno_message :: "strerror \<Rightarrow> 'v system_exception \<Rightarrow> string" where
  "errno_message strerror_r e =
     (case strerror_r (errno_value e) 256 of
        (ret, buf) \<Rightarrow> if ret = 0 then takeWhile (\<lambda>ch. ch \<noteq> CHR 0x00) buf else ''Unknown error'')"

section \<open>Exceptions in flight\<close>

text \<open>
  What the code's \<^verbatim>\<open>catch\<close> clauses tell apart: the framework's own exceptions (a
  \<^verbatim>\<open>SystemException\<close> is one), \<^verbatim>\<open>std::out_of_range\<close>, \<^verbatim>\<open>std::bad_any_cast\<close>, and everything else.
\<close>

datatype 'v exn =
    Framework_Exception "'v exception"
  | System_Exception "'v system_exception"
  | Std_Out_Of_Range string
  | Bad_Any_Cast
  | Other_Exception string

type_synonym ('v, 'a) result = "'v exn + 'a"

definition throw :: "string \<Rightarrow> error_code \<Rightarrow> ('v, 'a) result" where
  "throw message code = Inl (Framework_Exception (make_exception message code))"

definition throw_system :: "string \<Rightarrow> int \<Rightarrow> ('v, 'a) result" where
  "throw_system message err = Inl (System_Exception (make_system_exception message err SystemError))"

definition any_cast :: "type_name \<Rightarrow> 'v any \<Rightarrow> ('v, 'v) result" where
  "any_cast ty a = (case any_cast_ptr ty a of Some v \<Rightarrow> Inr v | None \<Rightarrow> Inl Bad_Any_Cast)"

text \<open>\<^verbatim>\<open>catch (const std::out_of_range \&)\<close> of a single clause that throws in its place.\<close>

fun on_out_of_range :: "('v, 'a) result \<Rightarrow> ('v, 'a) result \<Rightarrow> ('v, 'a) result" where
  "on_out_of_range handler (Inl (Std_Out_Of_Range m)) = handler"
| "on_out_of_range handler r = r"

lemma throw_not_Inr [simp]: "throw m c \<noteq> Inr x" "Inr x \<noteq> throw m c"
  by (simp_all add: throw_def)

lemma on_out_of_range_Inr [simp]:
  fixes r :: "('v, 'a) result"
  shows "on_out_of_range (throw m c) r = Inr x \<longleftrightarrow> r = Inr x"
  by (cases "(throw m c :: ('v, 'a) result, r)" rule: on_out_of_range.cases)
    (auto simp: throw_def)

lemma on_out_of_range_Inl: "\<exists>e'. on_out_of_range (throw m c) (Inl e) = Inl e'"
  by (cases e) (simp_all add: throw_def)

section \<open>Properties\<close>

lemma code_to_string:
  "int_to_string (sint (code_underlying c)) =
     (case c of Unknown \<Rightarrow> ''-1'' | Success \<Rightarrow> ''0'' | OutOfRange \<Rightarrow> ''1'' | InvalidArgument \<Rightarrow> ''2''
      | TypeMismatch \<Rightarrow> ''3'' | InvalidOperation \<Rightarrow> ''4'' | SystemError \<Rightarrow> ''5'')"
  by (cases c) (simp_all add: int_to_string_def nat_to_string.simps char_of_def bit_Suc_0_iff)

text \<open>The text of \<^verbatim>\<open>what()\<close> determines both the message and the error code it was built from.\<close>

theorem what_determines_message_and_code:
  "build_error_message m c = build_error_message m' c' \<longleftrightarrow> m = m' \<and> c = c'"
proof
  assume "build_error_message m c = build_error_message m' c'"
  then have "rev (build_error_message m c) = rev (build_error_message m' c')" by simp
  then show "m = m' \<and> c = c'"
    unfolding build_error_message_def code_to_string by (cases c; cases c') simp_all
qed simp

text \<open>A context comes back exactly when it is asked for under the type it was stored with.\<close>

lemma get_context_with:
  "get_context ty (make_exception_with m c (Some (ty', v))) = (if ty' = ty then Some v else None)"
  by (simp add: get_context_def make_exception_with_def)

lemma get_context_without [simp]:
  "get_context ty (make_exception m c) = None"
  "\<not> has_context (make_exception m c)"
  by (simp_all add: get_context_def has_context_def make_exception_def)

text \<open>An empty \<^verbatim>\<open>std::any\<close> counts as a context that no type can read.\<close>

lemma empty_context:
  "has_context (make_exception_with m c None)"
  "get_context ty (make_exception_with m c None) = None"
  by (simp_all add: get_context_def has_context_def make_exception_with_def)

text \<open>
  With a \<^verbatim>\<open>strerror_r\<close> that returns the text's address, as the GNU C library's does
  (never a null pointer), \<^verbatim>\<open>errno_message\<close> is \<^verbatim>\<open>Unknown error\<close> for every
  error number; the text is only found with the POSIX version, which returns 0.
\<close>

theorem errno_message_by_strerror_version:
  assumes "strerror_r (errno_code e) 256 = (ret, buf)"
  shows "errno_message strerror_r e =
    (if ret \<noteq> 0 then ''Unknown error'' else takeWhile (\<lambda>ch. ch \<noteq> CHR 0x00) buf)"
  using assms by (simp add: errno_message_def errno_code_def)

theorem errno_message_by_strerror_version_witness:
  "errno_message (\<lambda>err size. (140737488355328, []))
     (make_system_exception ''open'' 2 SystemError :: unit system_exception) = ''Unknown error''"
  using errno_message_by_strerror_version
    [of "\<lambda>err size. (140737488355328, [])"
        "make_system_exception ''open'' 2 SystemError :: unit system_exception"
        140737488355328 "[]"]
  by simp

end
