(* ===== verification/Enum_Types.thy ===== *)
theory Enum_Types
  imports Prelude
begin

text \<open>
  \<^verbatim>\<open>include/Templates/EnumCast.hpp\<close> and \<^verbatim>\<open>EnumOperations.hpp\<close>: an enumeration is its
  underlying integer (in the model any type with bit operations, in use a word of its width) behind a type of its own, the casts
  go back and forth, and the bitwise operators work on the underlying values.
\<close>

section \<open>EnumCast\<close>

datatype 'u enum = Enum 'u

fun to_enum :: "'u \<Rightarrow> 'u enum" where
  "to_enum value = Enum value"

fun to_underlying :: "'u enum \<Rightarrow> 'u" where
  "to_underlying (Enum value) = value"

lemma to_enum_to_underlying [simp]: "to_enum (to_underlying e) = e"
  by (cases e) simp

lemma to_underlying_to_enum [simp]: "to_underlying (to_enum w) = w"
  by simp

lemma enum_eq_iff: "d = e \<longleftrightarrow> to_underlying d = to_underlying e"
  by (cases d; cases e) simp

section \<open>EnumOperations\<close>

text \<open>
  The compound forms store the result in their left operand and return it: here the new value.
\<close>

definition enum_and :: "'u::ring_bit_operations enum \<Rightarrow> 'u enum \<Rightarrow> 'u enum" where
  "enum_and lhs rhs = to_enum (to_underlying lhs AND to_underlying rhs)"

definition enum_and_assign :: "'u::ring_bit_operations enum \<Rightarrow> 'u enum \<Rightarrow> 'u enum" where
  "enum_and_assign lhs rhs = to_enum (to_underlying lhs AND to_underlying rhs)"

definition enum_or :: "'u::ring_bit_operations enum \<Rightarrow> 'u enum \<Rightarrow> 'u enum" where
  "enum_or lhs rhs = to_enum (to_underlying lhs OR to_underlying rhs)"

definition enum_or_assign :: "'u::ring_bit_operations enum \<Rightarrow> 'u enum \<Rightarrow> 'u enum" where
  "enum_or_assign lhs rhs = to_enum (to_underlying lhs OR to_underlying rhs)"

definition enum_not :: "'u::ring_bit_operations enum \<Rightarrow> 'u enum" where
  "enum_not value = to_enum (NOT (to_underlying value))"

definition enum_xor :: "'u::ring_bit_operations enum \<Rightarrow> 'u enum \<Rightarrow> 'u enum" where
  "enum_xor lhs rhs = to_enum (to_underlying lhs XOR to_underlying rhs)"

definition enum_xor_assign :: "'u::ring_bit_operations enum \<Rightarrow> 'u enum \<Rightarrow> 'u enum" where
  "enum_xor_assign lhs rhs = to_enum (to_underlying lhs XOR to_underlying rhs)"

lemmas enum_ops = enum_and_def enum_and_assign_def enum_or_def enum_or_assign_def enum_not_def
  enum_xor_def enum_xor_assign_def

text \<open>With these operators an enumeration is a Boolean algebra: the library's class, so that its
  laws (De Morgan, absorption, distributivity) are available for enumerations.\<close>

instantiation enum :: (ring_bit_operations) boolean_algebra
begin

definition inf_enum :: "'a enum \<Rightarrow> 'a enum \<Rightarrow> 'a enum" where
  "inf_enum = enum_and"

definition sup_enum :: "'a enum \<Rightarrow> 'a enum \<Rightarrow> 'a enum" where
  "sup_enum = enum_or"

definition uminus_enum :: "'a enum \<Rightarrow> 'a enum" where
  "uminus_enum = enum_not"

definition minus_enum :: "'a enum \<Rightarrow> 'a enum \<Rightarrow> 'a enum" where
  "minus_enum d e = enum_and d (enum_not e)"

definition bot_enum :: "'a enum" where
  "bot_enum = to_enum 0"

definition top_enum :: "'a enum" where
  "top_enum = to_enum (NOT 0)"

definition less_eq_enum :: "'a enum \<Rightarrow> 'a enum \<Rightarrow> bool" where
  "less_eq_enum d e = (enum_and d e = d)"

definition less_enum :: "'a enum \<Rightarrow> 'a enum \<Rightarrow> bool" where
  "less_enum d e = (enum_and d e = d \<and> enum_and e d \<noteq> e)"

lemmas enum_class_defs = inf_enum_def sup_enum_def uminus_enum_def minus_enum_def bot_enum_def
  top_enum_def less_eq_enum_def less_enum_def enum_ops enum_eq_iff

instance
  by standard (auto simp: enum_class_defs bit_eq_iff bit_and_iff bit_or_iff bit_not_iff)

end

end
