(* ===== verification/Enum_Bitset.thy ===== *)
theory Enum_Bitset
  imports Errors Enum_Types
begin

text \<open>
  \<^verbatim>\<open>include/Templates/EnumBitset.hpp\<close>: a \<^verbatim>\<open>std::bitset<MaxBits>\<close> indexed by the
  enumerators of a type. The bitset is a word of \<^verbatim>\<open>MaxBits\<close> bits (type \<open>'m word\<close>), the
  enumeration a word of its underlying type (\<open>'n word enum\<close>); the template's constraint
  \<^verbatim>\<open>MaxBits <= sizeof(T) * 8\<close> is \<open>LENGTH('m) \<le> LENGTH('n)\<close>. Operations that may throw
  \<^verbatim>\<open>std::out_of_range\<close> return a result; an operation that modifies the bitset returns the
  new one.
\<close>

section \<open>Counting trailing zeros\<close>

text \<open>\<^verbatim>\<open>__builtin_ctzll\<close>: the least bit set in a value that is not 0.\<close>

fun ctz_from :: "nat \<Rightarrow> nat \<Rightarrow> 'n::len word \<Rightarrow> nat" where
  "ctz_from 0 i w = i"
| "ctz_from (Suc k) i w = (if bit w i then i else ctz_from k (Suc i) w)"

definition ctz :: "'n::len word \<Rightarrow> nat" where
  "ctz w = ctz_from LENGTH('n) 0 w"

lemma ctz_from_finds:
  "bit w j \<Longrightarrow> i \<le> j \<Longrightarrow> j < i + k \<Longrightarrow>
    bit w (ctz_from k i w) \<and> ctz_from k i w \<le> j"
proof (induction k i w rule: ctz_from.induct)
  case (2 k i w)
  show ?case
  proof (cases "bit w i")
    case False
    then have "i \<noteq> j" using "2.prems" by auto
    with False 2 show ?thesis by auto
  qed (use 2 in simp)
qed simp

lemma ctz_bit:
  assumes "w \<noteq> (0 :: 'n::len word)"
  shows "bit w (ctz w) \<and> ctz w < LENGTH('n)"
proof -
  from assms obtain i where i: "bit w i" "i < LENGTH('n)"
    by (metis bit_0_eq bot_apply bot_bool_def bit_eqI bit_imp_le_length)
  with ctz_from_finds [OF i(1), of 0 "LENGTH('n)"] show ?thesis
    by (auto simp: ctz_def)
qed

lemmas bit_ctz = ctz_bit [THEN conjunct1]
lemmas ctz_less = ctz_bit [THEN conjunct2]

section \<open>The operations\<close>

definition or_all :: "'n::len word enum list \<Rightarrow> 'n word enum" where
  "or_all init = to_enum (fold (\<lambda>value result. result OR to_underlying value) init (to_underlying (Enum 0)))"

definition eb_default :: "'m::len word" where
  "eb_default = 0"

definition eb_init :: "'n::len word enum list \<Rightarrow> 'm::len word" where
  "eb_init init = ucast (to_underlying (or_all init))"

definition eb_single :: "'n::len word enum \<Rightarrow> 'm::len word" where
  "eb_single value = eb_init [value]"

definition eb_and_assign :: "'m::len word \<Rightarrow> 'm word \<Rightarrow> 'm word" where
  "eb_and_assign this other = this AND other"

definition eb_or_assign :: "'m::len word \<Rightarrow> 'm word \<Rightarrow> 'm word" where
  "eb_or_assign this other = this OR other"

definition eb_xor_assign :: "'m::len word \<Rightarrow> 'm word \<Rightarrow> 'm word" where
  "eb_xor_assign this other = this XOR other"

text \<open>The position of an enumerator, converted back to the underlying type.\<close>

definition to_bit_position :: "'n::len word enum \<Rightarrow> 'n word" where
  "to_bit_position value = of_nat (ctz (to_underlying value))"

text \<open>\<^verbatim>\<open>std::bitset\<close>'s checked access to one position.\<close>

definition at_position ::
  "'m::len itself \<Rightarrow> 'n::len word \<Rightarrow> (nat \<Rightarrow> 'a) \<Rightarrow> ('v, 'a) result"
where
  "at_position bits position f =
     (if unat position < LENGTH('m) then Inr (f (unat position)) else Inl (Std_Out_Of_Range ''bitset''))"

definition eb_set_all :: "'m::len word \<Rightarrow> 'm word" where
  "eb_set_all this = NOT 0"

definition eb_set :: "'n::len word enum \<Rightarrow> bool \<Rightarrow> 'm::len word \<Rightarrow> ('v, 'm word) result" where
  "eb_set e value this =
     (if to_underlying e = 0 then Inr this
      else at_position TYPE('m) (to_bit_position e)
        (\<lambda>i. if value then set_bit i this else unset_bit i this))"

definition eb_reset_all :: "'m::len word \<Rightarrow> 'm word" where
  "eb_reset_all this = 0"

definition eb_reset :: "'n::len word enum \<Rightarrow> 'm::len word \<Rightarrow> ('v, 'm word) result" where
  "eb_reset value this =
     (if to_underlying value = 0 then Inr this
      else at_position TYPE('m) (to_bit_position value) (\<lambda>i. unset_bit i this))"

text \<open>
  The value \<^verbatim>\<open>operator~\<close> computes. It is a \<^verbatim>\<open>std::bitset\<close>, and the operator returns an
  \<^verbatim>\<open>EnumBitset\<close> by value, which no constructor makes of one: the template compiles as long as
  nobody uses the operator.
\<close>

definition eb_not :: "'m::len word \<Rightarrow> 'm word" where
  "eb_not this = NOT this"

definition eb_flip_all :: "'m::len word \<Rightarrow> 'm word" where
  "eb_flip_all this = NOT this"

definition eb_flip :: "'n::len word enum \<Rightarrow> 'm::len word \<Rightarrow> ('v, 'm word) result" where
  "eb_flip value this =
     (if to_underlying value = 0 then Inr this
      else at_position TYPE('m) (to_bit_position value) (\<lambda>i. flip_bit i this))"

text \<open>\<^verbatim>\<open>operator[]\<close> does not check its position: outside the bitset its behaviour is undefined.\<close>

definition eb_index :: "'n::len word \<Rightarrow> 'm::len word \<Rightarrow> bool option" where
  "eb_index position this =
     (if unat position < LENGTH('m) then Some (bit this (unat position)) else None)"

definition eb_count :: "'m::len word \<Rightarrow> nat" where
  "eb_count this = length (filter (bit this) [0..<LENGTH('m)])"

definition eb_test_position :: "'n::len word \<Rightarrow> 'm::len word \<Rightarrow> ('v, bool) result" where
  "eb_test_position position this = at_position TYPE('m) position (bit this)"

definition eb_test :: "'n::len word enum \<Rightarrow> 'm::len word \<Rightarrow> ('v, bool) result" where
  "eb_test value this =
     (if to_underlying value = 0 then Inr False
      else eb_test_position (to_bit_position value) this)"

definition eb_all :: "'m::len word \<Rightarrow> bool" where
  "eb_all this = list_all (bit this) [0..<LENGTH('m)]"

definition eb_any :: "'m::len word \<Rightarrow> bool" where
  "eb_any this = list_ex (bit this) [0..<LENGTH('m)]"

definition eb_none :: "'m::len word \<Rightarrow> bool" where
  "eb_none this = (\<not> eb_any this)"

definition eb_eq :: "'m::len word \<Rightarrow> 'm word \<Rightarrow> bool" where
  "eb_eq this other = (this = other)"

definition eb_neq :: "'m::len word \<Rightarrow> 'm word \<Rightarrow> bool" where
  "eb_neq this other = (\<not> (this = other))"

definition eb_to_underlying :: "'m::len word \<Rightarrow> 'n::len word" where
  "eb_to_underlying this = ucast this"

definition eb_to_enum :: "'m::len word \<Rightarrow> 'n::len word enum" where
  "eb_to_enum this = to_enum (eb_to_underlying this)"

definition eb_to_string :: "'m::len word \<Rightarrow> string" where
  "eb_to_string this = map (\<lambda>i. if bit this i then CHR ''1'' else CHR ''0'') (rev [0..<LENGTH('m)])"

section \<open>Positions\<close>

text \<open>An enumerator names a position of the bitset when it is not 0 and its lowest bit fits.\<close>

definition in_bitset :: "'m::len itself \<Rightarrow> 'n::len word enum \<Rightarrow> bool" where
  "in_bitset bits e \<longleftrightarrow> to_underlying e \<noteq> 0 \<and> ctz (to_underlying e) < LENGTH('m)"

lemma unat_to_bit_position:
  fixes e :: "'n::len word enum"
  assumes "to_underlying e \<noteq> 0"
  shows "unat (to_bit_position e) = ctz (to_underlying e)"
proof -
  have "ctz (to_underlying e) < 2 ^ LENGTH('n)"
    using ctz_less [OF assms] less_exp [of "LENGTH('n)"] by linarith
  then show ?thesis by (simp add: to_bit_position_def unat_of_nat)
qed

lemma at_bit_position:
  assumes "to_underlying e \<noteq> 0"
  shows "at_position TYPE('m::len) (to_bit_position e) f =
    (if in_bitset TYPE('m) e then Inr (f (ctz (to_underlying e))) else Inl (Std_Out_Of_Range ''bitset''))"
  using assms by (simp add: at_position_def unat_to_bit_position in_bitset_def)

lemma eb_set_in: "in_bitset TYPE('m::len) e \<Longrightarrow>
    eb_set e v (b :: 'm word) = Inr (if v then set_bit (ctz (to_underlying e)) b else unset_bit (ctz (to_underlying e)) b)"
  by (simp add: eb_set_def at_bit_position in_bitset_def)

lemma eb_reset_in: "in_bitset TYPE('m::len) e \<Longrightarrow>
    eb_reset e (b :: 'm word) = Inr (unset_bit (ctz (to_underlying e)) b)"
  by (simp add: eb_reset_def at_bit_position in_bitset_def)

lemma eb_flip_in: "in_bitset TYPE('m::len) e \<Longrightarrow>
    eb_flip e (b :: 'm word) = Inr (flip_bit (ctz (to_underlying e)) b)"
  by (simp add: eb_flip_def at_bit_position in_bitset_def)

lemma eb_test_in: "in_bitset TYPE('m::len) e \<Longrightarrow>
    eb_test e (b :: 'm word) = Inr (bit b (ctz (to_underlying e)))"
  by (simp add: eb_test_def eb_test_position_def at_bit_position in_bitset_def)

lemmas eb_in = eb_set_in eb_reset_in eb_flip_in eb_test_in

lemma fold_or_bits:
  "bit (fold (\<lambda>value result. result OR to_underlying value) init w) i \<longleftrightarrow>
     bit w i \<or> (\<exists>e\<in>set init. bit (to_underlying e) i)"
  by (induction init arbitrary: w) (auto simp: bit_simps)

lemma bit_or_all: "bit (to_underlying (or_all init)) i \<longleftrightarrow> (\<exists>e\<in>set init. bit (to_underlying e) i)"
  by (simp add: or_all_def fold_or_bits)

lemma bit_word_eq_iff:
  "(a :: 'm::len word) = b \<longleftrightarrow> (\<forall>i < LENGTH('m). bit a i \<longleftrightarrow> bit b i)"
  by (auto intro: bit_word_eqI)

lemma bit_eb_init:
  "bit (eb_init init :: 'm::len word) i \<longleftrightarrow> i < LENGTH('m) \<and> (\<exists>e\<in>set init. bit (to_underlying e) i)"
  by (auto simp: eb_init_def bit_ucast_iff bit_or_all)

section \<open>Properties\<close>

text \<open>
  Setting an enumerator makes \<^verbatim>\<open>test\<close> of every enumerator that shares its lowest
  bit return the value given, and changes no other enumerator's test.
\<close>

theorem eb_test_after_set:
  assumes "in_bitset TYPE('m::len) e" and "in_bitset TYPE('m) d"
    and "eb_set e v (b :: 'm word) = Inr b'"
  shows "eb_test d b' =
    (if ctz (to_underlying d) = ctz (to_underlying e) then Inr v else eb_test d b)"
  using assms by (cases v) (auto simp: eb_in in_bitset_def bit_simps)

theorem eb_test_after_set_witness:
  "eb_test (Enum 4 :: 8 word enum) (4 :: 8 word) = (Inr True :: unit exn + bool)"
proof -
  have "ctz (4 :: 8 word) = 2" by code_simp
  then have in4: "in_bitset TYPE(8) (Enum 4 :: 8 word enum)" by (simp add: in_bitset_def)
  then have "eb_set (Enum 4 :: 8 word enum) True (0 :: 8 word) = (Inr 4 :: unit exn + 8 word)"
    by (simp add: eb_in \<open>ctz (4 :: 8 word) = 2\<close>)
  from eb_test_after_set [OF in4 in4 this] show ?thesis by simp
qed

text \<open>
  A bitset built from a list of enumerators tests true for exactly the enumerators whose
  lowest bit occurs in one of the listed values.
\<close>

theorem eb_test_init:
  assumes "in_bitset TYPE('m::len) e"
  shows "eb_test e (eb_init init :: 'm word) =
    Inr (\<exists>d\<in>set init. bit (to_underlying d) (ctz (to_underlying e)))"
  using assms by (simp add: eb_in bit_eb_init in_bitset_def)

theorem eb_test_init_witness:
  "eb_test (Enum 2 :: 8 word enum) (eb_init [Enum 1, Enum 6 :: 8 word enum] :: 8 word)
     = (Inr True :: unit exn + bool)"
proof -
  have "ctz (2 :: 8 word) = 1" by code_simp
  then have in2: "in_bitset TYPE(8) (Enum 2 :: 8 word enum)" by (simp add: in_bitset_def)
  show ?thesis
    by (simp add: eb_test_init [OF in2] \<open>ctz (2 :: 8 word) = 1\<close>)
qed

text \<open>
  C40: reading a bitset back as an enumerator and building a bitset from it gives the same
  bitset, for every \<^verbatim>\<open>MaxBits\<close> the template admits.
\<close>

theorem eb_to_enum_roundtrip:
  assumes "LENGTH('m::len) \<le> LENGTH('n::len)"
  shows "eb_single (eb_to_enum (b :: 'm word) :: 'n word enum) = b"
proof (rule bit_word_eqI)
  fix i assume "i < LENGTH('m)"
  then show "bit (eb_single (eb_to_enum b :: 'n word enum) :: 'm word) i = bit b i"
    using assms by (simp add: eb_single_def bit_eb_init eb_to_enum_def eb_to_underlying_def bit_ucast_iff)
qed

theorem eb_to_enum_roundtrip_witness:
  "eb_single (eb_to_enum (5 :: 4 word) :: 8 word enum) = (5 :: 4 word)"
  by (rule eb_to_enum_roundtrip) simp

text \<open>
  The constructor takes every bit of an enumerator, \<^verbatim>\<open>set\<close> only its lowest: from an
  empty bitset they agree exactly on the enumerators with one bit that fits the bitset.
\<close>

theorem eb_set_versus_constructor:
  assumes "in_bitset TYPE('m::len) (e :: 'n::len word enum)"
  shows "eb_set e True (eb_default :: 'm word) = (Inr (eb_single e) :: ('v, 'm word) result) \<longleftrightarrow>
    (\<forall>i. i < LENGTH('m) \<and> bit (to_underlying e) i \<longrightarrow> i = ctz (to_underlying e))"
proof -
  let ?k = "ctz (to_underlying e)"
  have k: "bit (to_underlying e) ?k" "?k < LENGTH('m)"
    using assms by (simp_all add: in_bitset_def bit_ctz)
  have "eb_set e True (eb_default :: 'm word) = (Inr (eb_single e) :: ('v, 'm word) result) \<longleftrightarrow>
      set_bit ?k (0 :: 'm word) = eb_init [e]"
    by (simp add: eb_set_in [OF assms] eb_default_def eb_single_def)
  also have "\<dots> \<longleftrightarrow> (\<forall>i < LENGTH('m). i = ?k \<longleftrightarrow> bit (to_underlying e) i)"
    unfolding bit_word_eq_iff by (auto simp: bit_eb_init bit_set_bit_iff bit_exp_iff)
  finally show ?thesis using k by auto
qed

theorem eb_set_versus_constructor_witness:
  "eb_set (Enum 6 :: 8 word enum) True (eb_default :: 8 word) \<noteq> (Inr (eb_single (Enum 6 :: 8 word enum)) :: unit exn + 8 word)"
proof -
  have "ctz (6 :: 8 word) = 1" by code_simp
  then have in6: "in_bitset TYPE(8) (Enum 6 :: 8 word enum)" by (simp add: in_bitset_def)
  have "bit (6 :: 8 word) 2" by simp
  then have "\<not> (\<forall>i. i < LENGTH(8) \<and> bit (6 :: 8 word) i \<longrightarrow> i = 1)"
    by (auto intro!: exI [of _ 2])
  then show ?thesis
    by (simp add: eb_set_versus_constructor [OF in6] \<open>ctz (6 :: 8 word) = 1\<close>)
qed

end
