(* ===== verification/Bitset_Set.thy ===== *)
theory Bitset_Set
  imports Enum_Bitset
begin

text \<open>
  What \<^verbatim>\<open>include/Templates/EnumBitset.hpp\<close> promises: a set of positions below \<^verbatim>\<open>MaxBits\<close>,
  where an enumerator names the position of its lowest bit. Every sequence of calls on a bitset has
  the results of the calls on that set.
\<close>

section \<open>Calls\<close>

datatype ('e, 'b) bitset_call =
    Set_At 'e bool | Reset_At 'e | Flip_At 'e
  | Set_Every | Reset_Every | Flip_Every
  | And_Assign 'b | Or_Assign 'b | Xor_Assign 'b
  | Test_At 'e | Count_Set | All_Set | Any_Set | None_Set
  | Equals 'b | Differs 'b

datatype answer = Done | Truth bool | Number nat

text \<open>A call that throws leaves the object as it was.\<close>

definition updated :: "('v, 'b) result \<Rightarrow> 'b \<Rightarrow> ('v, answer) result \<times> 'b" where
  "updated r this = (case r of Inr this' \<Rightarrow> (Inr Done, this') | Inl e \<Rightarrow> (Inl e, this))"

fun bitset_exec ::
  "('n::len word enum, 'm::len word) bitset_call \<Rightarrow> 'm word \<Rightarrow> ('v, answer) result \<times> 'm word"
where
  "bitset_exec (Set_At e v) b = updated (eb_set e v b) b"
| "bitset_exec (Reset_At e) b = updated (eb_reset e b) b"
| "bitset_exec (Flip_At e) b = updated (eb_flip e b) b"
| "bitset_exec Set_Every b = (Inr Done, eb_set_all b)"
| "bitset_exec Reset_Every b = (Inr Done, eb_reset_all b)"
| "bitset_exec Flip_Every b = (Inr Done, eb_flip_all b)"
| "bitset_exec (And_Assign c) b = (Inr Done, eb_and_assign b c)"
| "bitset_exec (Or_Assign c) b = (Inr Done, eb_or_assign b c)"
| "bitset_exec (Xor_Assign c) b = (Inr Done, eb_xor_assign b c)"
| "bitset_exec (Test_At e) b = (case eb_test e b of Inr t \<Rightarrow> Inr (Truth t) | Inl x \<Rightarrow> Inl x, b)"
| "bitset_exec Count_Set b = (Inr (Number (eb_count b)), b)"
| "bitset_exec All_Set b = (Inr (Truth (eb_all b)), b)"
| "bitset_exec Any_Set b = (Inr (Truth (eb_any b)), b)"
| "bitset_exec None_Set b = (Inr (Truth (eb_none b)), b)"
| "bitset_exec (Equals c) b = (Inr (Truth (eb_eq b c)), b)"
| "bitset_exec (Differs c) b = (Inr (Truth (eb_neq b c)), b)"

section \<open>The set\<close>

definition members :: "'m::len word \<Rightarrow> nat set" where
  "members b = {i. bit b i}"

definition positions :: "'m::len itself \<Rightarrow> nat set" where
  "positions bits = {i. i < LENGTH('m)}"

text \<open>The positions an enumerator's value has, and the one it names.\<close>

definition enum_bits :: "'n::len word enum \<Rightarrow> nat set" where
  "enum_bits e = {i. bit (to_underlying e) i}"

definition named :: "'n::len word enum \<Rightarrow> nat" where
  "named e = Min (enum_bits e)"

text \<open>
  A call on one position: an enumerator without bits names none, one outside the set's bounds throws.
\<close>

definition at_named ::
  "'m::len itself \<Rightarrow> 'n::len word enum \<Rightarrow> 'r \<Rightarrow> 'a \<Rightarrow> (nat \<Rightarrow> 'r \<times> 'a) \<Rightarrow> ('v, 'r) result \<times> 'a \<Rightarrow> ('v, 'r) result \<times> 'a"
where
  "at_named bits e absent S f outside =
     (if enum_bits e = {} then (Inr absent, S)
      else if named e \<in> positions bits then map_prod Inr id (f (named e)) else outside)"

fun bitset_spec ::
  "('n::len word enum, 'm::len word) bitset_call \<Rightarrow> nat set \<Rightarrow> ('v, answer) result \<times> nat set"
where
  "bitset_spec (Set_At e v) S =
     at_named TYPE('m) e Done S (\<lambda>i. (Done, if v then insert i S else S - {i})) (Inl (Std_Out_Of_Range ''bitset''), S)"
| "bitset_spec (Reset_At e) S =
     at_named TYPE('m) e Done S (\<lambda>i. (Done, S - {i})) (Inl (Std_Out_Of_Range ''bitset''), S)"
| "bitset_spec (Flip_At e) S =
     at_named TYPE('m) e Done S (\<lambda>i. (Done, if i \<in> S then S - {i} else insert i S)) (Inl (Std_Out_Of_Range ''bitset''), S)"
| "bitset_spec Set_Every S = (Inr Done, positions TYPE('m))"
| "bitset_spec Reset_Every S = (Inr Done, {})"
| "bitset_spec Flip_Every S = (Inr Done, positions TYPE('m) - S)"
| "bitset_spec (And_Assign c) S = (Inr Done, S \<inter> members c)"
| "bitset_spec (Or_Assign c) S = (Inr Done, S \<union> members c)"
| "bitset_spec (Xor_Assign c) S = (Inr Done, (S - members c) \<union> (members c - S))"
| "bitset_spec (Test_At e) S =
     at_named TYPE('m) e (Truth False) S (\<lambda>i. (Truth (i \<in> S), S)) (Inl (Std_Out_Of_Range ''bitset''), S)"
| "bitset_spec Count_Set S = (Inr (Number (card S)), S)"
| "bitset_spec All_Set S = (Inr (Truth (S = positions TYPE('m))), S)"
| "bitset_spec Any_Set S = (Inr (Truth (S \<noteq> {})), S)"
| "bitset_spec None_Set S = (Inr (Truth (S = {})), S)"
| "bitset_spec (Equals c) S = (Inr (Truth (S = members c)), S)"
| "bitset_spec (Differs c) S = (Inr (Truth (S \<noteq> members c)), S)"

section \<open>Single calls\<close>

lemma members_iff [simp]: "i \<in> members b \<longleftrightarrow> bit b i"
  by (simp add: members_def)

lemma positions_iff [simp]: "i \<in> positions TYPE('m::len) \<longleftrightarrow> i < LENGTH('m)"
  by (simp add: positions_def)

lemma members_below: "members (b :: 'm::len word) \<subseteq> positions TYPE('m)"
  by (auto simp: bit_imp_le_length)

lemma members_eq_iff [simp]: "members a = members b \<longleftrightarrow> a = (b :: 'm::len word)"
  by (auto simp: set_eq_iff intro: bit_word_eqI)

lemma no_enum_bits: "enum_bits e = {} \<longleftrightarrow> to_underlying e = 0"
  by (auto simp: enum_bits_def intro: bit_word_eqI)

lemma named_ctz:
  assumes "to_underlying e \<noteq> 0"
  shows "named e = ctz (to_underlying e)"
  unfolding named_def
proof (rule Min_eqI)
  show "finite (enum_bits e)" by (simp add: enum_bits_def)
  show "ctz (to_underlying e) \<in> enum_bits e" by (simp add: enum_bits_def bit_ctz [OF assms])
  fix i assume "i \<in> enum_bits e"
  then have "bit (to_underlying e) i" by (simp add: enum_bits_def)
  from ctz_from_finds [OF this, of 0] bit_imp_le_length [OF this]
  show "ctz (to_underlying e) \<le> i" by (simp add: ctz_def)
qed

lemma at_named_ctz:
  "at_named TYPE('m::len) e absent S f outside =
     (if to_underlying e = 0 then (Inr absent, S)
      else if in_bitset TYPE('m) e then map_prod Inr id (f (ctz (to_underlying e))) else outside)"
  by (simp add: at_named_def no_enum_bits named_ctz in_bitset_def)

lemma members_ops:
  fixes b c :: "'m::len word"
  shows "members (set_bit i b) = (if i < LENGTH('m) then insert i (members b) else members b)"
    and "members (unset_bit i b) = members b - {i}"
    and "members (flip_bit i b) = (if i < LENGTH('m) then if i \<in> members b then members b - {i} else insert i (members b) else members b)"
    and "members (b AND c) = members b \<inter> members c"
    and "members (b OR c) = members b \<union> members c"
    and "members (b XOR c) = (members b - members c) \<union> (members c - members b)"
    and "members (NOT b) = positions TYPE('m) - members b"
    and "members (0 :: 'm word) = {}"
  by (auto simp: members_def positions_def bit_simps split: if_splits dest: bit_imp_le_length)

lemma members_init:
  "members (eb_init init :: 'm::len word) = (\<Union>e\<in>set init. enum_bits e) \<inter> positions TYPE('m)"
  by (auto simp: bit_eb_init enum_bits_def)

lemma eb_count_card: "eb_count b = card (members b)"
proof -
  have "set (filter (bit b) [0..<LENGTH('a)]) = members b"
    by (auto simp: bit_imp_le_length)
  then show ?thesis
    unfolding eb_count_def by (metis distinct_card distinct_filter distinct_upt)
qed

lemma eb_any_members: "eb_any b \<longleftrightarrow> members b \<noteq> {}"
  unfolding eb_any_def list_ex_iff members_def using bit_imp_le_length [of b] by (auto simp: Bex_def)

lemma eb_all_members: "eb_all (b :: 'm::len word) \<longleftrightarrow> members b = positions TYPE('m)"
proof -
  have "eb_all b \<longleftrightarrow> positions TYPE('m) \<subseteq> members b"
    unfolding eb_all_def list_all_iff members_def positions_def by auto
  with members_below [of b] show ?thesis by blast
qed

lemmas member_calls = eb_set_def eb_reset_def eb_flip_def eb_test_def eb_test_position_def at_bit_position updated_def
  eb_set_all_def eb_reset_all_def eb_flip_all_def eb_and_assign_def eb_or_assign_def eb_xor_assign_def
  eb_count_card eb_any_members eb_all_members eb_none_def eb_eq_def eb_neq_def members_ops at_named_ctz

interpretation bitset: functional_refinement
  "bitset_exec :: ('n::len word enum, 'm::len word) bitset_call \<Rightarrow> 'm word \<Rightarrow> ('v, answer) result \<times> 'm word"
  bitset_spec members "\<lambda>_. True"
proof
  fix b b' :: "'m word" and x :: "('n word enum, 'm word) bitset_call" and r :: "('v, answer) result"
  assume "bitset_exec x b = (r, b')"
  then have "bitset_spec x (members b) = (r, members b')"
    by (cases x) (auto simp: member_calls in_bitset_def split: if_splits)
  then show "True \<and> bitset_spec x (members b) = (r, members b')" by simp
qed

section \<open>Properties\<close>

text \<open>
  C9: a bitset built from a list of enumerators is the set of the positions their values have, and
  every sequence of calls on it (the assignments, queries and comparisons, throwing ones included)
  gives the answers and exceptions of the set and leaves what the set leaves.
\<close>

theorem bitset_refines_set:
  fixes calls :: "('n::len word enum, 'm::len word) bitset_call list"
  shows "map_prod id members (exec_all bitset_exec calls (eb_init (init :: 'n word enum list))) =
    (exec_all bitset_spec calls ((\<Union>e\<in>set init. enum_bits e) \<inter> positions TYPE('m))
      :: ('v, answer) result list \<times> nat set)"
  by (simp only: bitset.exec_all_view [OF TrueI] members_init)

end
