(* ===== verification/Monitor.thy ===== *)
theory Monitor
  imports Prelude
begin

text \<open>
  The synchronisation the C++ standard library gives the program: objects that keep their
  state behind one \<^verbatim>\<open>std::mutex\<close> and one \<^verbatim>\<open>std::condition_variable\<close>. A class of
  such objects is described by its operations (when they wait, what they do to the state, how
  they notify); the step relation interleaves any number of threads that call them, at the
  granularity of the library calls. The contract \<^verbatim>\<open>disciplined_monitor\<close> is the rule that
  a predicate another thread waits for is only made true under the mutex and with a
  notification; under it no wakeup is lost and every history is linearizable.
  \<^verbatim>\<open>SynchronizedDeque\<close> and \<^verbatim>\<open>EventFlag\<close> keep the rule and interpret the contract in
  their own theories; \<^verbatim>\<open>TaskPool\<close> breaks it.
\<close>

section \<open>Classes of monitors\<close>

text \<open>
  \<^item> \<open>waits_for\<close>: the predicate given to \<^verbatim>\<open>condition_.wait\<close> or \<^verbatim>\<open>wait_for\<close>
    (\<open>True\<close> for an operation that does not wait);
  \<^item> \<open>is_timed\<close>: the operation uses \<^verbatim>\<open>wait_for\<close>;
  \<^item> \<open>uses_lock\<close>: its body runs under the mutex;
  \<^item> \<open>effect\<close>, \<open>outcome\<close>: the new state and the value returned, both read off the state in
    which the body runs;
  \<^item> \<open>timeout_outcome\<close>: the value returned when \<^verbatim>\<open>wait_for\<close> gives up;
  \<^item> \<open>signal_of\<close>: where \<^verbatim>\<open>notify_all\<close> is called: never, before or after the lock is
    given back.
\<close>

datatype signal = No_Signal | Signal_Locked | Signal_Unlocked

record ('o, 's, 'r) monitor_class =
  waits_for :: "'o \<Rightarrow> 's \<Rightarrow> bool"
  is_timed :: "'o \<Rightarrow> bool"
  uses_lock :: "'o \<Rightarrow> bool"
  effect :: "'o \<Rightarrow> 's \<Rightarrow> 's"
  outcome :: "'o \<Rightarrow> 's \<Rightarrow> 'r"
  timeout_outcome :: "'o \<Rightarrow> 's \<Rightarrow> 'r"
  signal_of :: "'o \<Rightarrow> signal"

text \<open>
  Where a thread stands inside an operation. \<open>Entering\<close> waits for the mutex (its flag says
  that a timed wait has run out), \<open>Testing\<close> evaluates the predicate, \<open>Parking\<close> has seen it
  false and is about to block, \<open>Parked\<close> is blocked on the condition variable, \<open>Acting\<close> runs
  the body, \<open>Expired\<close> returns from a wait that timed out.
\<close>

datatype 'o pc =
    Idle
  | Entering 'o bool
  | Testing 'o bool
  | Parking 'o
  | Parked 'o
  | Acting 'o
  | Notifying 'o
  | Leaving 'o
  | Notifying_Out 'o
  | Expired 'o
  | Raw 'o

datatype 'o action =
    Call 'o | Acquire | Test | Park | Spurious | Timeout | Act | Notify | Leave | Expire

text \<open>One entry of the history: who, which operation, what it returned, and whether its body ran.\<close>

datatype ('o, 'r) event = Done tid 'o 'r | Timed_Out tid 'o 'r

record ('o, 's, 'r) monitor =
  shared :: 's
  owner :: "tid option"
  pcs :: "tid \<Rightarrow> 'o pc"
  history :: "('o, 'r) event list"

definition monitor_init :: "'s \<Rightarrow> ('o, 's, 'r) monitor" where
  "monitor_init s = \<lparr>shared = s, owner = None, pcs = (\<lambda>_. Idle), history = []\<rparr>"

section \<open>Steps\<close>

text \<open>\<^verbatim>\<open>notify_all\<close> sends every blocked thread back to compete for the mutex.\<close>

fun wake :: "'o pc \<Rightarrow> 'o pc" where
  "wake (Parked op) = Entering op False"
| "wake p = p"

definition wake_all :: "(tid \<Rightarrow> 'o pc) \<Rightarrow> tid \<Rightarrow> 'o pc" where
  "wake_all ps = (\<lambda>t. wake (ps t))"

lemma wake_not_parked [simp]: "wake p \<noteq> Parked op"
  by (cases p) auto

definition go :: "tid \<Rightarrow> 'o pc \<Rightarrow> ('o, 's, 'r) monitor \<Rightarrow> ('o, 's, 'r) monitor" where
  "go t p m = m\<lparr>pcs := (pcs m)(t := p)\<rparr>"

definition commit ::
  "('o, 's, 'r) monitor_class \<Rightarrow> tid \<Rightarrow> 'o \<Rightarrow> ('o, 's, 'r) monitor \<Rightarrow> ('o, 's, 'r) monitor"
where
  "commit c t op m =
     m\<lparr>shared := effect c op (shared m),
       history := history m @ [Done t op (outcome c op (shared m))]\<rparr>"

text \<open>
  One rule per library call. \<^verbatim>\<open>wait(lock, pred)\<close> is \<^verbatim>\<open>while (!pred()) wait(lock)\<close>: the
  test happens under the mutex, blocking gives the mutex back in the same step, and a blocked
  thread may wake without a notification. \<^verbatim>\<open>wait_for(lock, d, pred)\<close> returns \<^verbatim>\<open>pred()\<close>
  once the time is up. An operation that does not use the lock goes through \<open>Raw\<close>.
\<close>

inductive monitor_step ::
  "('o, 's, 'r) monitor_class \<Rightarrow> ('o, 's, 'r) monitor \<Rightarrow> tid \<times> 'o action
   \<Rightarrow> ('o, 's, 'r) monitor \<Rightarrow> bool"
  for c :: "('o, 's, 'r) monitor_class" where
  call: "pcs m t = Idle \<Longrightarrow> uses_lock c op \<Longrightarrow>
    monitor_step c m (t, Call op) (go t (Entering op False) m)"
| call_raw: "pcs m t = Idle \<Longrightarrow> \<not> uses_lock c op \<Longrightarrow>
    monitor_step c m (t, Call op) (go t (Raw op) m)"
| acquire: "pcs m t = Entering op x \<Longrightarrow> owner m = None \<Longrightarrow>
    monitor_step c m (t, Acquire) (go t (Testing op x) (m\<lparr>owner := Some t\<rparr>))"
| test_true: "pcs m t = Testing op x \<Longrightarrow> waits_for c op (shared m) \<Longrightarrow>
    monitor_step c m (t, Test) (go t (Acting op) m)"
| test_false: "pcs m t = Testing op False \<Longrightarrow> \<not> waits_for c op (shared m) \<Longrightarrow>
    monitor_step c m (t, Test) (go t (Parking op) m)"
| test_expired: "pcs m t = Testing op True \<Longrightarrow> \<not> waits_for c op (shared m) \<Longrightarrow>
    monitor_step c m (t, Test) (go t (Expired op) m)"
| park: "pcs m t = Parking op \<Longrightarrow>
    monitor_step c m (t, Park) (go t (Parked op) (m\<lparr>owner := None\<rparr>))"
| spurious: "pcs m t = Parked op \<Longrightarrow>
    monitor_step c m (t, Spurious) (go t (Entering op False) m)"
| timeout: "pcs m t = Parked op \<Longrightarrow> is_timed c op \<Longrightarrow>
    monitor_step c m (t, Timeout) (go t (Entering op True) m)"
| act: "pcs m t = Acting op \<Longrightarrow>
    monitor_step c m (t, Act)
      (go t (if signal_of c op = Signal_Locked then Notifying op else Leaving op)
        (commit c t op m))"
| notify: "pcs m t = Notifying op \<Longrightarrow>
    monitor_step c m (t, Notify) (go t (Leaving op) (m\<lparr>pcs := wake_all (pcs m)\<rparr>))"
| leave: "pcs m t = Leaving op \<Longrightarrow>
    monitor_step c m (t, Leave)
      (go t (if signal_of c op = Signal_Unlocked then Notifying_Out op else Idle)
        (m\<lparr>owner := None\<rparr>))"
| notify_out: "pcs m t = Notifying_Out op \<Longrightarrow>
    monitor_step c m (t, Notify) (go t Idle (m\<lparr>pcs := wake_all (pcs m)\<rparr>))"
| expire: "pcs m t = Expired op \<Longrightarrow>
    monitor_step c m (t, Expire)
      (go t Idle (m\<lparr>owner := None,
        history := history m @ [Timed_Out t op (timeout_outcome c op (shared m))]\<rparr>))"
| act_raw: "pcs m t = Raw op \<Longrightarrow>
    monitor_step c m (t, Act)
      (go t (if signal_of c op = No_Signal then Idle else Notifying_Out op)
        (commit c t op m))"

inductive_cases monitor_stepE: "monitor_step c m l m'"

inductive_simps monitor_call_iff: "monitor_step c m (t, Call op) m'"
inductive_simps monitor_acquire_iff: "monitor_step c m (t, Acquire) m'"
inductive_simps monitor_test_iff: "monitor_step c m (t, Test) m'"
inductive_simps monitor_park_iff: "monitor_step c m (t, Park) m'"
inductive_simps monitor_act_iff: "monitor_step c m (t, Act) m'"
inductive_simps monitor_notify_iff: "monitor_step c m (t, Notify) m'"
inductive_simps monitor_leave_iff: "monitor_step c m (t, Leave) m'"

lemmas monitor_label_iffs = monitor_call_iff monitor_acquire_iff monitor_test_iff
  monitor_park_iff monitor_act_iff monitor_notify_iff monitor_leave_iff

lemma go_simps [simp]:
  "shared (go t p m) = shared m"
  "owner (go t p m) = owner m"
  "pcs (go t p m) = (pcs m)(t := p)"
  "history (go t p m) = history m"
  by (simp_all add: go_def)

lemma commit_simps [simp]:
  "shared (commit c t op m) = effect c op (shared m)"
  "owner (commit c t op m) = owner m"
  "pcs (commit c t op m) = pcs m"
  "history (commit c t op m) = history m @ [Done t op (outcome c op (shared m))]"
  by (simp_all add: commit_def)

lemma monitor_init_simps [simp]:
  "shared (monitor_init s) = s"
  "owner (monitor_init s) = None"
  "pcs (monitor_init s) t = Idle"
  "history (monitor_init s) = []"
  by (simp_all add: monitor_init_def)

section \<open>Running a schedule\<close>

text \<open>
  A label determines the step, so a schedule can be executed: \<open>monitor_exec\<close> is the step
  relation as a function, \<open>None\<close> where the thread cannot perform the action.
\<close>

definition monitor_exec ::
  "('o, 's, 'r) monitor_class \<Rightarrow> ('o, 's, 'r) monitor \<Rightarrow> tid \<times> 'o action
   \<Rightarrow> ('o, 's, 'r) monitor option"
where
  "monitor_exec c m l =
     (let t = fst l; p = pcs m t in
      case snd l of
        Call op \<Rightarrow> (case p of
            Idle \<Rightarrow> Some (go t (if uses_lock c op then Entering op False else Raw op) m)
          | _ \<Rightarrow> None)
      | Acquire \<Rightarrow> (case p of
            Entering op x \<Rightarrow>
              if owner m = None then Some (go t (Testing op x) (m\<lparr>owner := Some t\<rparr>)) else None
          | _ \<Rightarrow> None)
      | Test \<Rightarrow> (case p of
            Testing op x \<Rightarrow>
              Some (go t (if waits_for c op (shared m) then Acting op
                          else if x then Expired op else Parking op) m)
          | _ \<Rightarrow> None)
      | Park \<Rightarrow> (case p of
            Parking op \<Rightarrow> Some (go t (Parked op) (m\<lparr>owner := None\<rparr>))
          | _ \<Rightarrow> None)
      | Spurious \<Rightarrow> (case p of
            Parked op \<Rightarrow> Some (go t (Entering op False) m)
          | _ \<Rightarrow> None)
      | Timeout \<Rightarrow> (case p of
            Parked op \<Rightarrow> if is_timed c op then Some (go t (Entering op True) m) else None
          | _ \<Rightarrow> None)
      | Act \<Rightarrow> (case p of
            Acting op \<Rightarrow>
              Some (go t (if signal_of c op = Signal_Locked then Notifying op else Leaving op)
                (commit c t op m))
          | Raw op \<Rightarrow>
              Some (go t (if signal_of c op = No_Signal then Idle else Notifying_Out op)
                (commit c t op m))
          | _ \<Rightarrow> None)
      | Notify \<Rightarrow> (case p of
            Notifying op \<Rightarrow> Some (go t (Leaving op) (m\<lparr>pcs := wake_all (pcs m)\<rparr>))
          | Notifying_Out op \<Rightarrow> Some (go t Idle (m\<lparr>pcs := wake_all (pcs m)\<rparr>))
          | _ \<Rightarrow> None)
      | Leave \<Rightarrow> (case p of
            Leaving op \<Rightarrow>
              Some (go t (if signal_of c op = Signal_Unlocked then Notifying_Out op else Idle)
                (m\<lparr>owner := None\<rparr>))
          | _ \<Rightarrow> None)
      | Expire \<Rightarrow> (case p of
            Expired op \<Rightarrow>
              Some (go t Idle (m\<lparr>owner := None,
                history := history m @ [Timed_Out t op (timeout_outcome c op (shared m))]\<rparr>))
          | _ \<Rightarrow> None))"

lemma monitor_exec_sound: "monitor_exec c m l = Some m' \<Longrightarrow> monitor_step c m l m'"
  unfolding monitor_exec_def Let_def
  by (cases l; cases "snd l"; cases "pcs m (fst l)")
    (auto split: if_splits simp: monitor_act_iff monitor_leave_iff intro: monitor_step.intros)

lemma monitor_exec_complete: "monitor_step c m l m' \<Longrightarrow> monitor_exec c m l = Some m'"
  by (cases rule: monitor_step.cases) (auto simp: monitor_exec_def Let_def)

lemmas monitor_exec_iff = iffI [OF monitor_exec_sound monitor_exec_complete]

primrec monitor_schedule ::
  "('o, 's, 'r) monitor_class \<Rightarrow> ('o, 's, 'r) monitor \<Rightarrow> (tid \<times> 'o action) list
   \<Rightarrow> ('o, 's, 'r) monitor option"
where
  "monitor_schedule c m [] = Some m"
| "monitor_schedule c m (l # ls) =
     (case monitor_exec c m l of None \<Rightarrow> None | Some m' \<Rightarrow> monitor_schedule c m' ls)"

lemma monitor_schedule_run:
  "monitor_schedule c m ls = Some m' \<Longrightarrow> run (monitor_step c) m ls m'"
  by (induction ls arbitrary: m) (auto split: option.splits simp: monitor_exec_iff)

lemma monitor_schedule_reaches:
  "monitor_schedule c m ls = Some m' \<Longrightarrow> reaches (monitor_step c) m m'"
  by (blast intro: reachesI monitor_schedule_run)

section \<open>Mutual exclusion\<close>

text \<open>The places in which a thread holds the mutex.\<close>

fun in_lock :: "'o pc \<Rightarrow> bool" where
  "in_lock (Testing op x) = True"
| "in_lock (Parking op) = True"
| "in_lock (Acting op) = True"
| "in_lock (Notifying op) = True"
| "in_lock (Leaving op) = True"
| "in_lock (Expired op) = True"
| "in_lock p = False"

definition lock_consistent :: "('o, 's, 'r) monitor \<Rightarrow> bool" where
  "lock_consistent m \<longleftrightarrow> (\<forall>t. in_lock (pcs m t) \<longleftrightarrow> owner m = Some t)"

lemma in_lock_wake [simp]: "in_lock (wake p) = in_lock p"
  by (cases p) auto

lemma in_lock_wake_all [simp]: "in_lock (wake_all ps t) = in_lock (ps t)"
  by (simp add: wake_all_def)

lemma lock_consistent_init: "lock_consistent (monitor_init s)"
  by (simp add: lock_consistent_def)

lemma lock_consistentD: "lock_consistent m \<Longrightarrow> in_lock (pcs m t) \<longleftrightarrow> owner m = Some t"
  by (simp add: lock_consistent_def)

lemma lock_consistent_step:
  assumes "monitor_step c m l m'" and "lock_consistent m"
  shows "lock_consistent m'"
  unfolding lock_consistent_def
proof
  fix u
  from assms(2) have at: "in_lock (pcs m v) \<longleftrightarrow> owner m = Some v" for v
    by (rule lock_consistentD)
  from assms(1) show "in_lock (pcs m' u) \<longleftrightarrow> owner m' = Some u"
    by (cases rule: monitor_step.cases)
      (use at [of "fst l"] at [of u] in \<open>auto split: if_splits\<close>)
qed

interpretation lock_inv: unconditional_invariant "monitor_step c" lock_consistent
  for c :: "('o, 's, 'r) monitor_class"
  by unfold_locales (rule lock_consistent_step)

section \<open>Replaying a history\<close>

text \<open>
  The sequential meaning of a history: every completed operation found its predicate true and
  returned what its body returns in the state the earlier operations left; an operation that
  timed out found its predicate false and changed nothing.
\<close>

fun replay ::
  "('o, 's, 'r) monitor_class \<Rightarrow> 's \<Rightarrow> ('o, 'r) event list \<Rightarrow> 's option"
where
  "replay c s [] = Some s"
| "replay c s (Done t op r # es) =
     (if (uses_lock c op \<longrightarrow> waits_for c op s) \<and> r = outcome c op s
      then replay c (effect c op s) es else None)"
| "replay c s (Timed_Out t op r # es) =
     (if \<not> waits_for c op s \<and> r = timeout_outcome c op s then replay c s es else None)"

lemma replay_append:
  "replay c s (es @ fs) = (case replay c s es of None \<Rightarrow> None | Some s' \<Rightarrow> replay c s' fs)"
  by (induction c s es rule: replay.induct) auto

section \<open>Threads that can still move\<close>

text \<open>
  A state is settled when every thread is outside the object or blocked on the condition
  variable. Anywhere else some thread has a step of its own to take: the mutex is free, or its
  owner can go on.
\<close>

definition settled :: "('o, 's, 'r) monitor \<Rightarrow> bool" where
  "settled m \<longleftrightarrow> (\<forall>t. pcs m t = Idle \<or> (\<exists>op. pcs m t = Parked op))"

fun own_action :: "'o action \<Rightarrow> bool" where
  "own_action (Call op) = False"
| "own_action Spurious = False"
| "own_action Timeout = False"
| "own_action a = True"

definition can_move :: "('o, 's, 'r) monitor_class \<Rightarrow> ('o, 's, 'r) monitor \<Rightarrow> tid \<Rightarrow> bool" where
  "can_move c m t \<longleftrightarrow> (\<exists>a m'. own_action a \<and> monitor_step c m (t, a) m')"

lemma can_moveI: "monitor_step c m (t, a) m' \<Longrightarrow> own_action a \<Longrightarrow> can_move c m t"
  unfolding can_move_def by blast

lemmas can_move_intros =
  monitor_step.test_true [THEN can_moveI] monitor_step.test_false [THEN can_moveI]
  monitor_step.test_expired [THEN can_moveI] monitor_step.park [THEN can_moveI]
  monitor_step.act [THEN can_moveI] monitor_step.notify [THEN can_moveI]
  monitor_step.leave [THEN can_moveI] monitor_step.expire [THEN can_moveI]
  monitor_step.acquire [THEN can_moveI] monitor_step.notify_out [THEN can_moveI]
  monitor_step.act_raw [THEN can_moveI]

lemma owner_can_move:
  assumes "in_lock (pcs m t)"
  shows "can_move c m t"
proof (cases "pcs m t")
  case (Testing op x)
  then show ?thesis
    by (cases x; cases "waits_for c op (shared m)") (simp_all add: can_move_intros)
qed (use assms in \<open>simp_all add: can_move_intros\<close>)

lemma unsettled_can_move:
  assumes lock: "lock_consistent m" and "\<not> settled m"
  shows "\<exists>t. can_move c m t"
proof (cases "owner m")
  case (Some t)
  then have "in_lock (pcs m t)" using lock_consistentD [OF lock] by blast
  then show ?thesis by (blast dest: owner_can_move)
next
  case None
  from \<open>\<not> settled m\<close> obtain t where t: "pcs m t \<noteq> Idle" "\<And>op. pcs m t \<noteq> Parked op"
    unfolding settled_def by blast
  from None have "\<not> in_lock (pcs m t)" using lock_consistentD [OF lock] by simp
  with t None have "can_move c m t"
    by (cases "pcs m t") (auto simp: can_move_intros)
  then show ?thesis ..
qed

lemma settled_cannot_move:
  assumes "settled m"
  shows "\<not> can_move c m t"
  using assms [unfolded settled_def, rule_format, of t] unfolding can_move_def
  by (auto elim!: monitor_step.cases)

section \<open>The discipline\<close>

text \<open>A thread whose next steps include a \<^verbatim>\<open>notify_all\<close>.\<close>

fun about_to_notify :: "('o, 's, 'r) monitor_class \<Rightarrow> 'o pc \<Rightarrow> bool" where
  "about_to_notify c (Notifying op) = True"
| "about_to_notify c (Leaving op) = (signal_of c op = Signal_Unlocked)"
| "about_to_notify c (Notifying_Out op) = True"
| "about_to_notify c p = False"

text \<open>Which operations reach which places.\<close>

fun placed :: "('o, 's, 'r) monitor_class \<Rightarrow> 'o pc \<Rightarrow> bool" where
  "placed c Idle = True"
| "placed c (Notifying_Out op) = True"
| "placed c (Raw op) = (\<not> uses_lock c op)"
| "placed c (Entering op x) = uses_lock c op"
| "placed c (Testing op x) = uses_lock c op"
| "placed c (Parking op) = uses_lock c op"
| "placed c (Parked op) = uses_lock c op"
| "placed c (Acting op) = uses_lock c op"
| "placed c (Notifying op) = uses_lock c op"
| "placed c (Leaving op) = uses_lock c op"
| "placed c (Expired op) = uses_lock c op"

lemma placed_wake [simp]: "placed c (wake p) = placed c p"
  by (cases p) auto

lemma placed_step:
  assumes st: "monitor_step c m l m'" and placed: "\<And>t. placed c (pcs m t)"
  shows "placed c (pcs m' u)"
  using st
  by (cases rule: monitor_step.cases)
    (use placed [of "fst l"] placed [of u] in \<open>auto simp: wake_all_def\<close>)

text \<open>Only \<^verbatim>\<open>notify_all\<close> itself ends the promise to notify, and it leaves nobody blocked.\<close>

lemma notifier_persists:
  assumes "monitor_step c m (t, a) m'" and "a \<noteq> Notify" and "about_to_notify c (pcs m v)"
  shows "about_to_notify c (pcs m' v)"
  using assms by (cases rule: monitor_step.cases) auto

lemma notify_unparks:
  assumes "monitor_step c m (t, Notify) m'"
  shows "pcs m' u \<noteq> Parked q"
  using assms by (cases rule: monitor_step.cases) (auto simp: wake_all_def)

lemma parked_before:
  assumes "monitor_step c m (t, a) m'" and "pcs m' u = Parked q"
  shows "pcs m u = Parked q \<or> (u = t \<and> pcs m t = Parking q \<and> shared m' = shared m)"
  using assms by (cases rule: monitor_step.cases) (auto simp: wake_all_def split: if_splits)

lemma shared_change:
  assumes "monitor_step c m (t, a) m'"
  shows "shared m' = shared m
    \<or> (\<exists>op. (pcs m t = Acting op \<or> pcs m t = Raw op) \<and> shared m' = effect c op (shared m)
         \<and> (signal_of c op \<noteq> No_Signal \<longrightarrow> about_to_notify c (pcs m' t)))"
  using assms by (cases rule: monitor_step.cases) (auto simp: wake_all_def, metis signal.exhaust)

text \<open>What a thread remembers of the predicate it tested.\<close>

fun remembers :: "('o, 's, 'r) monitor_class \<Rightarrow> 's \<Rightarrow> 'o pc \<Rightarrow> bool" where
  "remembers c s (Acting op) = waits_for c op s"
| "remembers c s (Parking op) = (\<not> waits_for c op s)"
| "remembers c s (Expired op) = (\<not> waits_for c op s)"
| "remembers c s p = True"

definition no_lost_wakeup :: "('o, 's, 'r) monitor_class \<Rightarrow> ('o, 's, 'r) monitor \<Rightarrow> bool" where
  "no_lost_wakeup c m \<longleftrightarrow>
     (\<forall>t op. pcs m t = Parked op \<and> waits_for c op (shared m)
        \<longrightarrow> (\<exists>u. about_to_notify c (pcs m u)))"

definition monitor_ok ::
  "('o, 's, 'r) monitor_class \<Rightarrow> 's \<Rightarrow> ('o, 's, 'r) monitor \<Rightarrow> bool"
where
  "monitor_ok c s0 m \<longleftrightarrow>
     lock_consistent m \<and> (\<forall>t. placed c (pcs m t))
     \<and> (\<forall>t. remembers c (shared m) (pcs m t)) \<and> no_lost_wakeup c m
     \<and> replay c s0 (history m) = Some (shared m)"

lemma remembers_wake [simp]: "remembers c s (wake p) = remembers c s p"
  by (cases p) auto

lemma about_to_notify_wake [simp]: "about_to_notify c (wake p) = about_to_notify c p"
  by (cases p) auto

lemma remembers_outside: "\<not> in_lock p \<Longrightarrow> remembers c s p"
  by (cases p) auto

lemma monitor_ok_init: "monitor_ok c s (monitor_init s)"
  by (simp add: monitor_ok_def lock_consistent_init no_lost_wakeup_def)

text \<open>
  The rule a class has to keep: a body that makes some wait predicate true notifies, and an
  operation outside the lock changes no wait predicate.
\<close>

locale disciplined_monitor =
  fixes c :: "('o, 's, 'r) monitor_class"
  assumes enabling_notifies: "uses_lock c op \<Longrightarrow> waits_for c op s \<Longrightarrow> \<not> waits_for c p s
      \<Longrightarrow> waits_for c p (effect c op s) \<Longrightarrow> signal_of c op \<noteq> No_Signal"
    and raw_keeps_predicates: "\<not> uses_lock c op \<Longrightarrow> waits_for c p (effect c op s) = waits_for c p s"
begin

lemma remembers_raw:
  "\<not> uses_lock c op \<Longrightarrow> remembers c (effect c op s) p = remembers c s p"
  by (cases p) (auto simp: raw_keeps_predicates)

lemma remembers_step:
  assumes st: "monitor_step c m l m'" and lock: "lock_consistent m"
    and placed: "\<And>t. placed c (pcs m t)"
    and rem: "\<And>t. remembers c (shared m) (pcs m t)"
  shows "remembers c (shared m') (pcs m' u)"
  using st
proof (cases rule: monitor_step.cases)
  case (act t op)
  have "\<not> in_lock (pcs m u)" if "u \<noteq> t"
    using that lock_consistentD [OF lock, of t] lock_consistentD [OF lock, of u] act by simp
  then show ?thesis using act by (auto simp: remembers_outside)
next
  case (act_raw t op)
  then show ?thesis using rem [of u] placed [of t] by (simp add: remembers_raw)
qed (use rem [of u] in \<open>auto simp: wake_all_def\<close>)

text \<open>Blocked threads whose predicate holds are about to be notified.\<close>

lemma no_lost_wakeup_step:
  assumes st: "monitor_step c m l m'"
    and placed: "\<And>t. placed c (pcs m t)"
    and rem: "\<And>t. remembers c (shared m) (pcs m t)"
    and nlw: "no_lost_wakeup c m"
  shows "no_lost_wakeup c m'"
  unfolding no_lost_wakeup_def
proof (intro allI impI)
  fix u q
  assume u: "pcs m' u = Parked q \<and> waits_for c q (shared m')"
  obtain t a where l: "l = (t, a)" by fastforce
  note st' = st [unfolded l]
  have "a \<noteq> Notify" using notify_unparks u st' by metis
  note keep = notifier_persists [OF st' this]
  show "\<exists>v. about_to_notify c (pcs m' v)"
  proof (cases "waits_for c q (shared m)")
    case True
    with parked_before [OF st'] u rem [of t] have "pcs m u = Parked q" by fastforce
    with True nlw show ?thesis unfolding no_lost_wakeup_def by (blast intro: keep)
  next
    case False
    with u shared_change [OF st'] obtain op where
      op: "pcs m t = Acting op \<or> pcs m t = Raw op" "shared m' = effect c op (shared m)"
        "signal_of c op \<noteq> No_Signal \<longrightarrow> about_to_notify c (pcs m' t)"
      by metis
    then have "signal_of c op \<noteq> No_Signal"
      using False u placed [of t] rem [of t] raw_keeps_predicates enabling_notifies by auto
    with op show ?thesis by blast
  qed
qed

text \<open>The history replays to the present state.\<close>

lemma replay_step:
  assumes st: "monitor_step c m l m'"
    and placed: "\<And>t. placed c (pcs m t)"
    and rem: "\<And>t. remembers c (shared m) (pcs m t)"
    and "replay c s0 (history m) = Some (shared m)"
  shows "replay c s0 (history m') = Some (shared m')"
  using st
  by (cases rule: monitor_step.cases)
    (use assms(4) placed [of "fst l"] rem [of "fst l"] in \<open>auto simp: replay_append\<close>)

lemma monitor_ok_step: "monitor_step c m l m' \<Longrightarrow> monitor_ok c s0 m \<Longrightarrow> monitor_ok c s0 m'"
  unfolding monitor_ok_def
  using lock_consistent_step placed_step remembers_step no_lost_wakeup_step replay_step by metis

end

text \<open>So a disciplined class has \<open>monitor_ok\<close> as an invariant of its runs.\<close>

sublocale disciplined_monitor \<subseteq> ok: unconditional_invariant "monitor_step c" "monitor_ok c s0" for s0
  by unfold_locales (rule monitor_ok_step)

context disciplined_monitor begin

lemma monitor_ok_reachable:
  "reaches (monitor_step c) (monitor_init s0) m \<Longrightarrow> monitor_ok c s0 m"
  by (rule ok.inv_reaches [OF _ monitor_ok_init])

text \<open>
  What clients use: at most one thread is in the lock; the history is a sequential history
  ending in the present state; a settled state has no blocked thread that should run.
\<close>

lemma linearizable:
  "reaches (monitor_step c) (monitor_init s0) m \<Longrightarrow> replay c s0 (history m) = Some (shared m)"
  using monitor_ok_reachable unfolding monitor_ok_def by blast

lemma exclusive:
  "reaches (monitor_step c) (monitor_init s0) m \<Longrightarrow> in_lock (pcs m t) \<Longrightarrow> in_lock (pcs m u) \<Longrightarrow> t = u"
  using monitor_ok_reachable lock_consistentD unfolding monitor_ok_def by (metis option.inject)

lemma stuck_waits:
  assumes r: "reaches (monitor_step c) (monitor_init s0) m"
    and stuck: "\<And>t. \<not> can_move c m t"
  shows "pcs m t = Idle \<or> (\<exists>op. pcs m t = Parked op \<and> \<not> waits_for c op (shared m))"
proof -
  have ok: "monitor_ok c s0 m" by (rule monitor_ok_reachable [OF r])
  then have settled: "settled m"
    using stuck unsettled_can_move unfolding monitor_ok_def by blast
  have "\<not> about_to_notify c (pcs m v)" for v
    using settled [unfolded settled_def, rule_format, of v] by auto
  with ok settled show ?thesis
    unfolding monitor_ok_def no_lost_wakeup_def settled_def by blast
qed

end

section \<open>A weaker discipline\<close>

text \<open>
  A class whose operations outside the lock may make a wait predicate true, but none false, and
  which has no timeouts, can lose wakeups; its histories are sequential all the same.
\<close>

fun granted :: "('o, 's, 'r) monitor_class \<Rightarrow> 's \<Rightarrow> 'o pc \<Rightarrow> bool" where
  "granted c s (Acting op) = waits_for c op s"
| "granted c s (Entering op x) = (\<not> x)"
| "granted c s (Testing op x) = (\<not> x)"
| "granted c s (Expired op) = False"
| "granted c s p = True"

lemma granted_wake [simp]: "granted c s (wake p) = granted c s p"
  by (cases p) auto

definition stable_ok :: "('o, 's, 'r) monitor_class \<Rightarrow> 's \<Rightarrow> ('o, 's, 'r) monitor \<Rightarrow> bool" where
  "stable_ok c s0 m \<longleftrightarrow>
     lock_consistent m \<and> (\<forall>t. placed c (pcs m t)) \<and> (\<forall>t. granted c (shared m) (pcs m t)) \<and>
     replay c s0 (history m) = Some (shared m)"

lemma stable_ok_init: "stable_ok c s (monitor_init s)"
  by (simp add: stable_ok_def lock_consistent_init)

locale stable_monitor =
  fixes c :: "('o, 's, 'r) monitor_class"
  assumes untimed: "\<not> is_timed c op"
    and raw_keeps_true: "\<not> uses_lock c op \<Longrightarrow> waits_for c p s \<Longrightarrow> waits_for c p (effect c op s)"
begin

lemma granted_raw: "\<not> uses_lock c op \<Longrightarrow> granted c s p \<Longrightarrow> granted c (effect c op s) p"
  by (cases p) (auto simp: raw_keeps_true)

lemma granted_step:
  assumes st: "monitor_step c m l m'" and lock: "lock_consistent m"
    and placed: "\<And>t. placed c (pcs m t)" and gr: "\<And>t. granted c (shared m) (pcs m t)"
  shows "granted c (shared m') (pcs m' u)"
  using st
proof (cases rule: monitor_step.cases)
  case (act t op)
  have "\<not> in_lock (pcs m u)" if "u \<noteq> t"
    using that lock_consistentD [OF lock, of t] lock_consistentD [OF lock, of u] act by simp
  then show ?thesis using act gr [of u] by (cases "pcs m u") auto
next
  case (act_raw t op)
  then show ?thesis using gr [of u] placed [of t] by (auto simp: granted_raw)
qed (use gr [of u] gr [of "fst l"] untimed in \<open>auto simp: wake_all_def\<close>)

lemma stable_replay_step:
  assumes st: "monitor_step c m l m'" and placed: "\<And>t. placed c (pcs m t)"
    and gr: "\<And>t. granted c (shared m) (pcs m t)" and "replay c s0 (history m) = Some (shared m)"
  shows "replay c s0 (history m') = Some (shared m')"
  using st
  by (cases rule: monitor_step.cases)
    (use assms(4) placed [of "fst l"] gr [of "fst l"] in \<open>auto simp: replay_append\<close>)

lemma stable_ok_step: "monitor_step c m l m' \<Longrightarrow> stable_ok c s0 m \<Longrightarrow> stable_ok c s0 m'"
  unfolding stable_ok_def
  using lock_consistent_step placed_step granted_step stable_replay_step by metis

end

end
