(* ===== verification/Event_Flag.thy ===== *)
theory Event_Flag
  imports Monitor
begin

text \<open>
  \<^verbatim>\<open>include/Sync/EventFlag.hpp\<close> and \<^verbatim>\<open>lib/Sync/EventFlag.cpp\<close>: a 64-bit pattern that
  \<^verbatim>\<open>set\<close> only ever adds bits to, and threads that wait for a pattern. As a class of
  monitors: \<^verbatim>\<open>set\<close> notifies after it has given the mutex back, \<^verbatim>\<open>get\<close> reads the
  atomic pattern without the mutex.
\<close>

section \<open>The operations\<close>

type_synonym flag = "64 word"

datatype match_mode = AND_Mode | OR_Mode

definition flag_match :: "flag \<Rightarrow> match_mode \<Rightarrow> flag \<Rightarrow> bool" where
  "flag_match pattern mode current =
     (if mode = AND_Mode then pattern = current else (pattern AND current) \<noteq> 0)"

definition flag_set :: "flag \<Rightarrow> flag \<Rightarrow> flag" where
  "flag_set pattern current = current OR pattern"

definition flag_get :: "flag \<Rightarrow> flag" where
  "flag_get current = current"

lemmas flag_defs [op_defs] = flag_match_def flag_set_def flag_get_def

section \<open>Among threads\<close>

datatype flag_op =
    Wait flag match_mode
  | Timed_Wait flag match_mode millis
  | Set_Pattern flag
  | Get

datatype flag_result = Void | Matched bool | Pattern flag

fun flag_waits :: "flag_op \<Rightarrow> flag \<Rightarrow> bool" where
  "flag_waits (Wait pattern mode) current = flag_match pattern mode current"
| "flag_waits (Timed_Wait pattern mode millisec) current = flag_match pattern mode current"
| "flag_waits op current = True"

fun flag_timed :: "flag_op \<Rightarrow> bool" where
  "flag_timed (Timed_Wait pattern mode millisec) = True"
| "flag_timed op = False"

fun flag_effect :: "flag_op \<Rightarrow> flag \<Rightarrow> flag" where
  "flag_effect (Set_Pattern pattern) current = flag_set pattern current"
| "flag_effect op current = current"

fun flag_outcome :: "flag_op \<Rightarrow> flag \<Rightarrow> flag_result" where
  "flag_outcome (Wait pattern mode) current = Void"
| "flag_outcome (Timed_Wait pattern mode millisec) current = Matched True"
| "flag_outcome (Set_Pattern pattern) current = Void"
| "flag_outcome Get current = Pattern (flag_get current)"

fun flag_signal :: "flag_op \<Rightarrow> signal" where
  "flag_signal (Set_Pattern pattern) = Signal_Unlocked"
| "flag_signal op = No_Signal"

definition flag_class :: "(flag_op, flag, flag_result) monitor_class" where
  "flag_class =
     \<lparr>waits_for = flag_waits, is_timed = flag_timed, uses_lock = (\<lambda>op. op \<noteq> Get),
      effect = flag_effect, outcome = flag_outcome,
      timeout_outcome = (\<lambda>op current. Matched False), signal_of = flag_signal\<rparr>"

type_synonym flag_monitor = "(flag_op, flag, flag_result) monitor"

lemma flag_class_simps [simp]:
  "waits_for flag_class = flag_waits"
  "is_timed flag_class = flag_timed"
  "uses_lock flag_class = (\<lambda>op. op \<noteq> Get)"
  "effect flag_class = flag_effect"
  "outcome flag_class = flag_outcome"
  "timeout_outcome flag_class = (\<lambda>op current. Matched False)"
  "signal_of flag_class = flag_signal"
  by (simp_all add: flag_class_def)

interpretation ef: disciplined_monitor flag_class
proof
  fix op p :: flag_op and s
  assume "\<not> waits_for flag_class p s" "waits_for flag_class p (effect flag_class op s)"
  then show "signal_of flag_class op \<noteq> No_Signal" by (cases op) auto
qed simp

text \<open>One thread calling \<^verbatim>\<open>set\<close>, for the concrete runs below.\<close>

definition set_schedule :: "flag \<Rightarrow> (tid \<times> flag_op action) list" where
  "set_schedule p =
     [(0, Call (Set_Pattern p)), (0, Acquire), (0, Test), (0, Act), (0, Leave), (0, Notify)]"

section \<open>The pattern only grows\<close>

text \<open>The bits some history has set.\<close>

fun set_by :: "(flag_op, flag_result) event \<Rightarrow> flag" where
  "set_by (Done t (Set_Pattern pattern) r) = pattern"
| "set_by e = 0"

definition all_set :: "(flag_op, flag_result) event list \<Rightarrow> flag" where
  "all_set es = fold (\<lambda>e w. w OR set_by e) es 0"

lemma bit_fold_or: "bit (fold (\<lambda>e w. w OR f e) es w0) i \<longleftrightarrow> bit (w0 :: 'n::len word) i \<or> (\<exists>e\<in>set es. bit (f e) i)"
  by (induction es arbitrary: w0) (auto simp: bit_simps)

lemma replay_flag: "replay flag_class w es = Some w' \<Longrightarrow> w' = fold (\<lambda>e v. v OR set_by e) es w"
proof (induction flag_class w es rule: replay.induct)
  case (2 w t op r es)
  then show ?case by (cases op) (auto simp: op_defs split: if_splits)
qed (auto split: if_splits)

text \<open>
  The pattern is the union of the patterns set so far: no \<^verbatim>\<open>set\<close> is lost, and no bit is
  ever taken back.
\<close>

theorem flag_pattern_is_union_of_sets:
  assumes "reaches (monitor_step flag_class) (monitor_init 0) m"
  shows "bit (shared m) i \<longleftrightarrow> (\<exists>t p r. Done t (Set_Pattern p) r \<in> set (history m) \<and> bit p i)"
proof -
  have "bit (shared m) i \<longleftrightarrow> (\<exists>e\<in>set (history m). bit (set_by e) i)"
    using replay_flag [OF ef.linearizable [OF assms]] by (simp add: bit_fold_or)
  also have "\<dots> \<longleftrightarrow> (\<exists>t p r. Done t (Set_Pattern p) r \<in> set (history m) \<and> bit p i)"
    by (metis (no_types, lifting) bit_0_eq bot_apply bot_bool_def set_by.elims set_by.simps(1))
  finally show ?thesis .
qed

theorem flag_pattern_is_union_of_sets_witness:
  "\<exists>m :: flag_monitor. shared m = 5 \<and>
     (bit (shared m) 2 \<longleftrightarrow> (\<exists>t p r. Done t (Set_Pattern p) r \<in> set (history m) \<and> bit p 2))"
proof -
  obtain m where m: "monitor_schedule flag_class (monitor_init 0) (set_schedule 1 @ set_schedule 4) = Some m"
      and h: "shared m = 5"
    by (simp add: monitor_exec_def wake_all_def set_schedule_def op_defs)
  from flag_pattern_is_union_of_sets [OF monitor_schedule_reaches [OF m], of 2] h
  show ?thesis by blast
qed

text \<open>
  C12: when no thread can go on by itself, every thread inside the flag waits for a pattern that
  the present one does not match: no waiter is left asleep once its condition holds.
\<close>

theorem flag_no_waiter_left_behind:
  assumes "reaches (monitor_step flag_class) (monitor_init 0) m"
    and "\<And>t. \<not> can_move flag_class m t"
    and "pcs m t \<noteq> Idle"
  shows "\<exists>pattern mode. \<not> flag_match pattern mode (shared m) \<and>
    (pcs m t = Parked (Wait pattern mode) \<or> (\<exists>ms. pcs m t = Parked (Timed_Wait pattern mode ms)))"
proof -
  from ef.stuck_waits [OF assms(1,2), of t] assms(3) obtain op where
    "pcs m t = Parked op" "\<not> flag_waits op (shared m)" by auto
  then show ?thesis by (cases op) auto
qed

theorem flag_no_waiter_left_behind_witness:
  "\<exists>m :: flag_monitor. pcs m 1 = Parked (Wait 1 AND_Mode) \<and> \<not> flag_match 1 AND_Mode (shared m)"
proof -
  let ?schedule = "[(1, Call (Wait 1 AND_Mode)), (1, Acquire), (1, Test), (1, Park)]"
  obtain m where m: "monitor_schedule flag_class (monitor_init 0) ?schedule = Some m"
      and p: "pcs m = (\<lambda>_. Idle)(1 := Parked (Wait 1 AND_Mode))"
    by (simp add: monitor_exec_def op_defs monitor_init_def go_def fun_eq_iff)
  have "\<not> can_move flag_class m t" for t
    by (rule settled_cannot_move) (simp add: settled_def p)
  from flag_no_waiter_left_behind [OF monitor_schedule_reaches [OF m] this, of 1] p
  show ?thesis by (auto intro!: exI [of _ m])
qed

lemma flag_shared_step:
  assumes "monitor_step flag_class m l m'" and "bit (shared m) i"
  shows "bit (shared m') i"
  using assms(1)
proof (cases rule: monitor_step.cases)
  case (act t op)
  then show ?thesis using assms(2) by (cases op) (auto simp: op_defs bit_simps)
next
  case (act_raw t op)
  then show ?thesis using assms(2) by (cases op) (auto simp: op_defs bit_simps)
qed (use assms(2) in auto)

interpretation flag_bit: unconditional_invariant "monitor_step flag_class" "\<lambda>m. bit (shared m) i" for i
  by unfold_locales (rule flag_shared_step)

text \<open>
  A wait in the AND mode compares for equality, so once the pattern holds a bit the waiter
  did not ask for, no further run of any threads makes its condition true.
\<close>

theorem flag_and_wait_never_matches_again:
  assumes "bit (shared m) i" and "\<not> bit pattern i"
    and "reaches (monitor_step flag_class) m m'"
  shows "\<not> flag_match pattern AND_Mode (shared m')"
  using flag_bit.inv_reaches [OF assms(3,1)] assms(2) by (auto simp: op_defs)

theorem flag_and_wait_never_matches_again_witness:
  "\<exists>m :: flag_monitor. shared m = 3 \<and> \<not> flag_match 1 AND_Mode (shared m)"
proof -
  let ?m0 = "monitor_init 2 :: flag_monitor"
  obtain m where m: "monitor_schedule flag_class ?m0 (set_schedule 1) = Some m"
      and h: "shared m = 3"
    by (simp add: monitor_exec_def wake_all_def set_schedule_def op_defs)
  have "bit (shared ?m0) 1" "\<not> bit (1 :: flag) 1" by simp_all
  from flag_and_wait_never_matches_again [OF this monitor_schedule_reaches [OF m]] h
  show ?thesis by blast
qed

text \<open>
  A wait in the OR mode is stable: once its condition holds it holds in every later state,
  whatever any thread does, so a waiter that was slow to wake still returns.
\<close>

theorem flag_or_wait_stays_matched:
  assumes "flag_match pattern OR_Mode (shared m)"
    and "reaches (monitor_step flag_class) m m'"
  shows "flag_match pattern OR_Mode (shared m')"
proof -
  from assms(1) have "pattern AND shared m \<noteq> 0" by (simp add: op_defs)
  then obtain i where "bit (pattern AND shared m) i"
    by (metis bit_0_eq bot_apply bot_bool_def bit_eqI)
  then have i: "bit pattern i" "bit (shared m) i" by (simp_all add: bit_and_iff)
  then have "bit (pattern AND shared m') i"
    using flag_bit.inv_reaches [OF assms(2)] by (simp add: bit_and_iff)
  then show ?thesis by (auto simp: op_defs)
qed

theorem flag_or_wait_stays_matched_witness:
  "\<exists>m :: flag_monitor. shared m = 3 \<and> flag_match 2 OR_Mode (shared m)"
proof -
  let ?m0 = "monitor_init 2 :: flag_monitor"
  obtain m where m: "monitor_schedule flag_class ?m0 (set_schedule 1) = Some m"
      and h: "shared m = 3"
    by (simp add: monitor_exec_def wake_all_def set_schedule_def op_defs)
  have "flag_match 2 OR_Mode (shared ?m0)" by (simp add: op_defs)
  from flag_or_wait_stays_matched [OF this monitor_schedule_reaches [OF m]] h
  show ?thesis by blast
qed

end
