(* ===== verification/Task_Base.thy ===== *)
theory Task_Base
  imports Prelude
begin

text \<open>
  \<^verbatim>\<open>include/Task/TaskBase.hpp\<close>: the name, the kind and the thread every task has. The event
  tasks, the background worker and the pool extend its record, as their classes derive from it.
\<close>

datatype task_type =
    Unknown_Task | Message_Task | Statement_Task | Real_Time_Task | Background_Task | Pool_Task

text \<open>\<^verbatim>\<open>thread_\<close> is \<open>None\<close> when it is not joinable.\<close>

record task_base =
  task_name :: string
  task_kind :: task_type
  thread :: "tid option"

record task_information =
  info_name :: string
  info_type :: task_type
  info_thread :: "tid option"

definition make_task_base :: "task_type \<Rightarrow> string \<Rightarrow> task_base" where
  "make_task_base ty name = \<lparr>task_name = name, task_kind = ty, thread = None\<rparr>"

definition get_task_information :: "'z task_base_scheme \<Rightarrow> task_information" where
  "get_task_information t =
     \<lparr>info_name = task_name t, info_type = task_kind t, info_thread = thread t\<rparr>"

text \<open>What a freshly made task says of itself.\<close>

lemma make_task_base_simps [simp]:
  "task_name (make_task_base ty name) = name"
  "task_kind (make_task_base ty name) = ty"
  "thread (make_task_base ty name) = None"
  by (simp_all add: make_task_base_def)

end
