(* ===== verification/Event_Request.thy ===== *)
theory Event_Request
  imports Errors
begin

text \<open>
  \<^verbatim>\<open>include/Task/EventRequest.hpp\<close>: the message a task receives, with the name of its
  sender, a command and a payload of any type. Assignment distinguishes an object from itself, so
  assignments work on a store of request objects; the constructors and accessors on values.
\<close>

section \<open>Values\<close>

record ('c, 'v) request =
  from_name :: string
  command :: 'c
  payload :: "'v any"

definition request_default :: "('c::zero, 'v) request" where
  "request_default = \<lparr>from_name = [], command = 0, payload = None\<rparr>"

definition request_with_payload :: "string \<Rightarrow> 'c \<Rightarrow> 'v any \<Rightarrow> ('c, 'v) request" where
  "request_with_payload from cmd p = \<lparr>from_name = from, command = cmd, payload = p\<rparr>"

definition request_plain :: "string \<Rightarrow> 'c \<Rightarrow> ('c, 'v) request" where
  "request_plain from cmd = \<lparr>from_name = from, command = cmd, payload = None\<rparr>"

definition get_from :: "('c, 'v) request \<Rightarrow> string" where
  "get_from req = from_name req"

definition get_command :: "('c, 'v) request \<Rightarrow> 'c" where
  "get_command req = command req"

definition has_payload :: "('c, 'v) request \<Rightarrow> bool" where
  "has_payload req = has_value (payload req)"

definition get_payload :: "('c, 'v) request \<Rightarrow> 'v any" where
  "get_payload req = payload req"

definition get_payload_as :: "type_name \<Rightarrow> ('c, 'v) request \<Rightarrow> ('v, 'v) result" where
  "get_payload_as ty req = any_cast ty (payload req)"

text \<open>The copy constructor starts from an empty payload.\<close>

definition request_copy :: "('c, 'v) request \<Rightarrow> ('c, 'v) request" where
  "request_copy other =
     \<lparr>from_name = from_name other, command = command other,
      payload = (if has_payload other then payload other else None)\<rparr>"

lemma request_copy_id [simp]: "request_copy r = r"
  by (cases r) (simp add: request_copy_def has_payload_def has_value_def del: not_None_eq)

section \<open>Objects\<close>

text \<open>
  A store of request objects, known by their addresses. A moved-from string or \<^verbatim>\<open>std::any\<close>
  is left in an unspecified state: what is left behind is an argument of the move operations.
\<close>

type_synonym addr = nat

type_synonym ('c, 'v) request_store = "addr \<Rightarrow> ('c, 'v) request"

definition move_construct ::
  "string \<times> 'v any \<Rightarrow> addr \<Rightarrow> addr \<Rightarrow> ('c, 'v) request_store \<Rightarrow> ('c, 'v) request_store"
where
  "move_construct left this other s =
     (s(other := (s other)\<lparr>from_name := fst left, payload := snd left\<rparr>))
       (this := \<lparr>from_name = from_name (s other), command = command (s other),
                 payload = payload (s other)\<rparr>)"

definition move_assign ::
  "string \<times> 'v any \<Rightarrow> addr \<Rightarrow> addr \<Rightarrow> ('c, 'v) request_store \<Rightarrow> ('c, 'v) request_store"
where
  "move_assign left this other s =
     (if this \<noteq> other
      then (s(other := (s other)\<lparr>from_name := fst left, payload := snd left\<rparr>))
             (this := (s this)\<lparr>from_name := from_name (s other), command := command (s other),
                               payload := payload (s other)\<rparr>)
      else s)"

definition copy_assign :: "addr \<Rightarrow> addr \<Rightarrow> ('c, 'v) request_store \<Rightarrow> ('c, 'v) request_store" where
  "copy_assign this other s =
     (if this \<noteq> other
      then s(this :=
        (let r = (s this)\<lparr>from_name := from_name (s other), command := command (s other)\<rparr>
         in if has_payload (s other) then r\<lparr>payload := payload (s other)\<rparr> else r))
      else s)"

section \<open>Properties\<close>

text \<open>Moving hands the whole request over, into a new object or into an old one.\<close>

lemma move_assign_target: "this \<noteq> other \<Longrightarrow> move_assign left this other s this = s other"
  by (simp add: move_assign_def)

lemma move_construct_target: "move_construct left this other s this = s other"
  by (simp add: move_construct_def)

text \<open>
  Assigning a request by copy leaves the source alone and makes the target equal to it,
  except that a source without payload leaves the target's old payload in place: the two are then
  equal only when the target had none.
\<close>

theorem copy_assign_keeps_stale_payload:
  "copy_assign this other s other = s other \<and>
   (copy_assign this other s this = s other \<longleftrightarrow>
      (if has_payload (s this) then this = other \<or> has_payload (s other) else True)) \<and>
   payload (copy_assign this other s this) =
     (if has_payload (s other) then payload (s other) else payload (s this))"
  by (cases "s other"; cases "s this")
    (auto simp: copy_assign_def has_payload_def has_value_def Let_def simp del: not_None_eq)

text \<open>
  A payload is read back under the type it was stored with, unchanged by copying and moving
  the request, and every other type gets \<^verbatim>\<open>std::bad_any_cast\<close>.
\<close>

theorem payload_roundtrip:
  fixes s :: "('c, 'v) request_store"
  shows "get_payload_as ty (move_construct left this other
      (s(other := request_copy (request_with_payload from cmd (Some (ty', v))))) this)
    = (if ty' = ty then Inr v else Inl Bad_Any_Cast)"
  by (simp add: move_construct_target request_with_payload_def get_payload_as_def any_cast_def)

end
