(* ===== verification/Event_Aggregator.thy ===== *)
theory Event_Aggregator
  imports Event_Request
begin

text \<open>
  \<^verbatim>\<open>include/Task/MessageEventAggregator.hpp\<close>: a table from commands to handlers. Handlers are
  client code: they are known by an identifier \<open>'h\<close>, and what running one does to the world
  \<open>'w\<close> and what it returns or throws is the argument \<open>invoke\<close> of the operations that run them.
\<close>

section \<open>Registries\<close>

text \<open>
  The two ways the program fills its tables. \<^verbatim>\<open>std::map::emplace\<close> keeps the entry that is
  there, \<^verbatim>\<open>insert_or_assign\<close> replaces it.
\<close>

locale emplace_registry =
  fixes put :: "'k \<Rightarrow> 'v \<Rightarrow> 't \<Rightarrow> 't"
    and find :: "'t \<Rightarrow> 'k \<Rightarrow> 'v option"
  assumes find_put: "find (put k v t) k' = (if k' = k \<and> find t k = None then Some v else find t k')"
begin

text \<open>The first registration of a key wins.\<close>

lemma find_put_all:
  "find (fold (\<lambda>(k, v). put k v) kvs t) k = (case find t k of Some v \<Rightarrow> Some v | None \<Rightarrow> map_of kvs k)"
  by (induction kvs arbitrary: t) (auto simp: find_put split: option.splits)

end

locale assign_registry =
  fixes put :: "'k \<Rightarrow> 'v \<Rightarrow> 't \<Rightarrow> 't"
    and find :: "'t \<Rightarrow> 'k \<Rightarrow> 'v option"
  assumes find_put: "find (put k v t) k' = (if k' = k then Some v else find t k')"
begin

text \<open>The last registration of a key wins.\<close>

lemma find_put_all:
  "find (fold (\<lambda>(k, v). put k v) kvs t) k =
     (case map_of (rev kvs) k of Some v \<Rightarrow> Some v | None \<Rightarrow> find t k)"
  by (induction kvs arbitrary: t) (auto simp: find_put map_add_def split: option.splits)

end

section \<open>The aggregator\<close>

text \<open>
  Commands and states are integers or enumerations: the types \<open>'c\<close> and \<open>'s\<close>, in use words of
  their width. All that is asked of a state type is a value \<open>-1\<close>, as \<^verbatim>\<open>kKeepState\<close> is
  \<^verbatim>\<open>static_cast<State>(-1)\<close> (the word of all ones, whatever the width).
\<close>

definition kKeepState :: "'s::{one,uminus}" where
  "kKeepState = -1"

record ('h, 's) message_info =
  info_handler :: 'h
  info_next_state :: 's

type_synonym ('c, 's, 'h) event_map = "'c \<rightharpoonup> ('h, 's) message_info"

type_synonym ('c, 'v, 'h, 'w) invoke =
  "'h \<Rightarrow> ('c, 'v) request \<Rightarrow> 'w \<Rightarrow> ('v, bool) result \<times> 'w"

definition handle ::
  "('c, 'v, 'h, 'w) invoke \<Rightarrow> ('h, 's) message_info \<Rightarrow> ('c, 'v) request \<Rightarrow> 'w
   \<Rightarrow> ('v, bool) result \<times> 'w"
where
  "handle invoke info req w = invoke (info_handler info) req w"

definition get_next_state_of :: "('h, 's) message_info \<Rightarrow> 's" where
  "get_next_state_of info = info_next_state info"

definition agg_create :: "('c, 's, 'h) event_map \<Rightarrow> ('c, 's, 'h) event_map" where
  "agg_create events = events"

definition agg_add ::
  "'c \<Rightarrow> 'h \<Rightarrow> 's \<Rightarrow> ('c, 's, 'h) event_map \<Rightarrow> ('c, 's, 'h) event_map"
where
  "agg_add cmd handler next_state events =
     (if events cmd = None
      then events(cmd \<mapsto> \<lparr>info_handler = handler, info_next_state = next_state\<rparr>)
      else events)"

text \<open>
  \<^verbatim>\<open>publish\<close>: both the lookup and the handler run inside the \<^verbatim>\<open>try\<close>, so either's
  \<^verbatim>\<open>std::out_of_range\<close> becomes the framework's exception.
\<close>

definition agg_publish ::
  "('c, 'v, 'h, 'w) invoke \<Rightarrow> ('c, 's, 'h) event_map \<Rightarrow> 'c \<Rightarrow> ('c, 'v) request
   \<Rightarrow> 'w \<Rightarrow> ('v, bool) result \<times> 'w"
where
  "agg_publish invoke events cmd req w =
     (case (case events cmd of
              None \<Rightarrow> (Inl (Std_Out_Of_Range ''map::at''), w)
            | Some info \<Rightarrow> handle invoke info req w) of
        (r, w') \<Rightarrow> (on_out_of_range (throw ''Event not found'' OutOfRange) r, w'))"

definition agg_get_next_state ::
  "('c, 's, 'h) event_map \<Rightarrow> 'c \<Rightarrow> ('v, 's) result"
where
  "agg_get_next_state events cmd =
     on_out_of_range (throw ''Event not found'' OutOfRange)
       (case events cmd of
          None \<Rightarrow> Inl (Std_Out_Of_Range ''map::at'')
        | Some info \<Rightarrow> Inr (get_next_state_of info))"

lemma agg_publish_unknown:
  "events cmd = None \<Longrightarrow>
     agg_publish invoke events cmd req w = (throw ''Event not found'' OutOfRange, w)"
  by (simp add: agg_publish_def)

lemma agg_publish_known:
  "events cmd = Some info \<Longrightarrow> invoke (info_handler info) req w = (r, w') \<Longrightarrow>
     agg_publish invoke events cmd req w = (on_out_of_range (throw ''Event not found'' OutOfRange) r, w')"
  by (simp add: agg_publish_def handle_def)

lemma agg_get_next_state_simps [simp]:
  "events cmd = None \<Longrightarrow> agg_get_next_state events cmd = throw ''Event not found'' OutOfRange"
  "events cmd = Some info \<Longrightarrow> agg_get_next_state events cmd = Inr (info_next_state info)"
  by (simp_all add: agg_get_next_state_def get_next_state_of_def)

interpretation agg: emplace_registry
  "\<lambda>cmd (info :: ('h, 's) message_info). agg_add cmd (info_handler info) (info_next_state info)"
  "\<lambda>events (cmd :: 'c). events cmd"
  by unfold_locales (simp add: agg_add_def)

text \<open>
  After any sequence of registrations on an empty aggregator, publishing a command runs the
  handler registered for it first, with the state it was registered with; a command never
  registered throws \<^verbatim>\<open>Event not found\<close> (OutOfRange) and runs nothing.
\<close>

theorem agg_first_registration_wins:
  fixes regs :: "('c \<times> ('h, 's) message_info) list"
  shows "agg_publish invoke
      (fold (\<lambda>(cmd, info). agg_add cmd (info_handler info) (info_next_state info)) regs (agg_create Map.empty))
      cmd req w =
    (case map_of regs cmd of
       None \<Rightarrow> (throw ''Event not found'' OutOfRange, w)
     | Some info \<Rightarrow>
         (case invoke (info_handler info) req w of
            (r, w') \<Rightarrow> (on_out_of_range (throw ''Event not found'' OutOfRange) r, w')))"
  using agg.find_put_all [of regs Map.empty cmd]
  by (auto simp: agg_publish_unknown agg_publish_known agg_create_def split: option.splits prod.splits)

text \<open>
  A registered handler that throws \<^verbatim>\<open>std::out_of_range\<close> of its own is reported as an
  event that was not found, although it ran and its effects stay.
\<close>

theorem agg_masks_handler_out_of_range:
  assumes "events cmd = Some info"
    and "invoke (info_handler info) req w = (Inl (Std_Out_Of_Range msg), w')"
  shows "agg_publish invoke events cmd req w = (throw ''Event not found'' OutOfRange, w')"
  using assms by (simp add: agg_publish_known)

theorem agg_masks_handler_out_of_range_witness:
  "agg_publish (\<lambda>(h :: nat) (req :: (8 word, unit) request) (w :: nat). (Inl (Std_Out_Of_Range ''vector::at''), w + 1))
     [3 \<mapsto> \<lparr>info_handler = 0, info_next_state = (1 :: 8 word)\<rparr>] (3 :: 8 word) (request_plain [] 3) 41
   = (throw ''Event not found'' OutOfRange, 42)"
  by (rule agg_masks_handler_out_of_range) simp_all

end
