(* ===== verification/Message_Queue.thy ===== *)
theory Message_Queue
  imports Monitor
begin

text \<open>
  \<^verbatim>\<open>include/Message\<close>: the queue interface \<^verbatim>\<open>IMessageQueue\<close> as a contract, and
  \<^verbatim>\<open>SynchronizedDeque\<close>, the implementation \<^verbatim>\<open>MessageQueueFactory::create\<close> returns. The
  deque's methods are given twice over the same definitions: as functions on the queue, which
  is what they do once they hold the mutex, and as a class of monitors, whose threads interleave.
\<close>

section \<open>The interface\<close>

text \<open>Taking up to \<open>n\<close> messages, stopping where \<^verbatim>\<open>receive\<close> would block.\<close>

primrec receive_up_to :: "('q \<Rightarrow> ('a \<times> 'q) option) \<Rightarrow> nat \<Rightarrow> 'q \<Rightarrow> 'a list \<times> 'q" where
  "receive_up_to rcv 0 q = ([], q)"
| "receive_up_to rcv (Suc n) q =
     (case rcv q of None \<Rightarrow> ([], q)
      | Some (m, q') \<Rightarrow> (case receive_up_to rcv n q' of (ms, q'') \<Rightarrow> (m # ms, q'')))"

text \<open>
  What a user of a message queue relies on. \<open>contents\<close> is the sequence of messages waiting;
  \<^verbatim>\<open>receive\<close> returns \<open>None\<close> where the method would block.
\<close>

locale message_queue =
  fixes send :: "'a \<Rightarrow> 'q \<Rightarrow> 'q"
    and receive :: "'q \<Rightarrow> ('a \<times> 'q) option"
    and clear :: "'q \<Rightarrow> 'q"
    and is_empty :: "'q \<Rightarrow> bool"
    and num_message :: "'q \<Rightarrow> nat"
    and contents :: "'q \<Rightarrow> 'a list"
  assumes contents_send: "contents (send m q) = contents q @ [m]"
    and receive_blocks: "receive q = None \<longleftrightarrow> contents q = []"
    and receive_front: "receive q = Some (m, q') \<Longrightarrow> contents q = m # contents q'"
    and contents_clear: "contents (clear q) = []"
    and is_empty_iff: "is_empty q \<longleftrightarrow> contents q = []"
    and num_message_length: "num_message q = length (contents q)"
begin

lemma contents_send_all: "contents (fold send ms q) = contents q @ ms"
  by (induction ms arbitrary: q) (simp_all add: contents_send)

lemma receive_up_to_contents:
  "receive_up_to receive n q = (ms, q') \<Longrightarrow>
     ms = take n (contents q) \<and> contents q' = drop n (contents q)"
proof (induction n arbitrary: q ms q')
  case (Suc n)
  show ?case
  proof (cases "receive q")
    case None
    then have "contents q = []" using receive_blocks by blast
    with None Suc.prems show ?thesis by simp
  next
    case (Some p)
    obtain m r where p: "p = (m, r)" by fastforce
    with Some Suc.prems Suc.IH [of r] receive_front [of q m r] show ?thesis
      by (auto split: prod.splits)
  qed
qed simp

text \<open>First in, first out: what is sent to an empty queue comes out, once, in that order.\<close>

lemma fifo:
  "contents q = [] \<Longrightarrow> fst (receive_up_to receive (length ms) (fold send ms q)) = ms"
  using receive_up_to_contents [of "length ms" "fold send ms q"]
  by (cases "receive_up_to receive (length ms) (fold send ms q)") (simp add: contents_send_all)

end

section \<open>SynchronizedDeque: the methods on the queue\<close>

definition is_not_empty :: "'a list \<Rightarrow> bool" where
  "is_not_empty queue = (\<not> (queue = []))"

text \<open>\<^verbatim>\<open>get_front\<close> is only called on a queue that is not empty.\<close>

fun get_front :: "'a list \<Rightarrow> ('a \<times> 'a list) option" where
  "get_front [] = None"
| "get_front (buffer # queue) = Some (buffer, queue)"

definition dq_send :: "'a \<Rightarrow> 'a list \<Rightarrow> 'a list" where
  "dq_send message queue = queue @ [message]"

definition dq_receive :: "'a list \<Rightarrow> ('a \<times> 'a list) option" where
  "dq_receive queue = (if is_not_empty queue then get_front queue else None)"

definition dq_clear :: "'a list \<Rightarrow> 'a list" where
  "dq_clear queue = []"

definition dq_is_empty :: "'a list \<Rightarrow> bool" where
  "dq_is_empty queue = (queue = [])"

definition dq_num_message :: "'a list \<Rightarrow> nat" where
  "dq_num_message queue = length queue"

lemmas dq_defs [op_defs] = is_not_empty_def dq_send_def dq_receive_def dq_clear_def
  dq_is_empty_def dq_num_message_def

lemma dq_receive_simps [simp]: "dq_receive [] = None" "dq_receive (m # q) = Some (m, q)"
  by (simp_all add: op_defs)

text \<open>\<^verbatim>\<open>MessageQueueFactory::create\<close> returns an empty \<^verbatim>\<open>SynchronizedDeque\<close>.\<close>

definition queue_factory_create :: "'a list" where
  "queue_factory_create = []"

text \<open>The deque keeps the queue's contract.\<close>

interpretation deque: message_queue dq_send dq_receive dq_clear dq_is_empty dq_num_message "\<lambda>q. q"
proof
  fix q :: "'a list" and m q'
  show "dq_receive q = Some (m, q') \<Longrightarrow> q = m # q'"
    by (cases q) auto
qed (auto simp: op_defs split: list.splits, metis get_front.elims option.distinct(1))

section \<open>SynchronizedDeque: the methods among threads\<close>

datatype 'a deque_op =
    Send 'a
  | Receive
  | Timed_Receive millis
  | Clear
  | Is_Empty
  | Num_Message

datatype 'a deque_result = Returned | Message 'a | Flagged bool 'a | Answer bool | Count nat

fun deque_waits :: "'a deque_op \<Rightarrow> 'a list \<Rightarrow> bool" where
  "deque_waits Receive queue = is_not_empty queue"
| "deque_waits (Timed_Receive milli_seconds) queue = is_not_empty queue"
| "deque_waits op queue = True"

fun deque_timed :: "'a deque_op \<Rightarrow> bool" where
  "deque_timed (Timed_Receive milli_seconds) = True"
| "deque_timed op = False"

fun deque_effect :: "'a deque_op \<Rightarrow> 'a list \<Rightarrow> 'a list" where
  "deque_effect (Send message) queue = dq_send message queue"
| "deque_effect Receive queue = (case dq_receive queue of Some (m, q) \<Rightarrow> q | None \<Rightarrow> queue)"
| "deque_effect (Timed_Receive ms) queue = (case dq_receive queue of Some (m, q) \<Rightarrow> q | None \<Rightarrow> queue)"
| "deque_effect Clear queue = dq_clear queue"
| "deque_effect Is_Empty queue = queue"
| "deque_effect Num_Message queue = queue"

text \<open>\<open>d\<close> is the value-initialised message \<^verbatim>\<open>T\{\}\<close>.\<close>

fun deque_outcome :: "'a \<Rightarrow> 'a deque_op \<Rightarrow> 'a list \<Rightarrow> 'a deque_result" where
  "deque_outcome d (Send message) queue = Returned"
| "deque_outcome d Receive queue = (case dq_receive queue of Some (m, q) \<Rightarrow> Message m | None \<Rightarrow> Returned)"
| "deque_outcome d (Timed_Receive ms) queue =
     (case dq_receive queue of Some (m, q) \<Rightarrow> Flagged True m | None \<Rightarrow> Flagged False d)"
| "deque_outcome d Clear queue = Returned"
| "deque_outcome d Is_Empty queue = Answer (dq_is_empty queue)"
| "deque_outcome d Num_Message queue = Count (dq_num_message queue)"

fun deque_signal :: "'a deque_op \<Rightarrow> signal" where
  "deque_signal (Send message) = Signal_Locked"
| "deque_signal op = No_Signal"

definition deque_class :: "'a \<Rightarrow> ('a deque_op, 'a list, 'a deque_result) monitor_class" where
  "deque_class d =
     \<lparr>waits_for = deque_waits, is_timed = deque_timed, uses_lock = (\<lambda>op. True),
      effect = deque_effect, outcome = deque_outcome d,
      timeout_outcome = (\<lambda>op queue. Flagged False d), signal_of = deque_signal\<rparr>"

type_synonym 'a deque_monitor = "('a deque_op, 'a list, 'a deque_result) monitor"

lemma deque_class_simps [simp]:
  "waits_for (deque_class d) = deque_waits"
  "is_timed (deque_class d) = deque_timed"
  "uses_lock (deque_class d) = (\<lambda>op. True)"
  "effect (deque_class d) = deque_effect"
  "outcome (deque_class d) = deque_outcome d"
  "timeout_outcome (deque_class d) = (\<lambda>op queue. Flagged False d)"
  "signal_of (deque_class d) = deque_signal"
  by (simp_all add: deque_class_def)

lemma deque_shrinks: "\<not> is_not_empty q \<Longrightarrow> is_not_empty (deque_effect op q) \<Longrightarrow> \<exists>m. op = Send m"
  by (cases op) (auto simp: op_defs split: option.splits)

lemma deque_waits_iff: "deque_waits op q \<longleftrightarrow> is_not_empty q \<or> (op \<noteq> Receive \<and> \<not> deque_timed op)"
  by (cases op) auto

interpretation dq: disciplined_monitor "deque_class d" for d :: 'a
proof
  fix op p :: "'a deque_op" and s
  assume "\<not> waits_for (deque_class d) p s" "waits_for (deque_class d) p (effect (deque_class d) op s)"
  then show "signal_of (deque_class d) op \<noteq> No_Signal"
    using deque_shrinks [of s op] by (auto simp: deque_waits_iff)
qed simp

section \<open>What the histories say\<close>

fun sent_by :: "('a deque_op, 'a deque_result) event \<Rightarrow> 'a list" where
  "sent_by (Done t (Send m) r) = [m]"
| "sent_by e = []"

fun received_by :: "('a deque_op, 'a deque_result) event \<Rightarrow> 'a list" where
  "received_by (Done t op (Message m)) = [m]"
| "received_by (Done t op (Flagged True m)) = [m]"
| "received_by e = []"

fun is_clear :: "('a deque_op, 'a deque_result) event \<Rightarrow> bool" where
  "is_clear (Done t Clear r) = True"
| "is_clear e = False"

definition sent :: "('a deque_op, 'a deque_result) event list \<Rightarrow> 'a list" where
  "sent es = concat (map sent_by es)"

definition received :: "('a deque_op, 'a deque_result) event list \<Rightarrow> 'a list" where
  "received es = concat (map received_by es)"

lemma replay_fifo:
  "replay (deque_class d) q es = Some q' \<Longrightarrow> \<not> list_ex is_clear es \<Longrightarrow> q @ sent es = received es @ q'"
proof (induction "deque_class d" q es rule: replay.induct)
  case (2 q t op r es)
  then show ?case
    by (cases op; cases q)
      (auto simp: sent_def received_def op_defs split: if_splits)
qed (auto simp: sent_def received_def split: if_splits)

text \<open>
  C10: however threads interleave on a deque nobody clears, the messages received, in the order
  in which they were received, followed by those still queued, are the messages sent, in the
  order in which they were sent: nothing is lost, duplicated or reordered.
\<close>

theorem deque_fifo:
  assumes "reaches (monitor_step (deque_class d)) (monitor_init queue_factory_create) m"
    and "\<not> list_ex is_clear (history m)"
  shows "sent (history m) = received (history m) @ shared m"
  using replay_fifo [OF dq.linearizable [OF assms(1)] assms(2)]
  by (simp add: queue_factory_create_def)

theorem deque_fifo_witness:
  "\<exists>m :: nat deque_monitor.
     history m = [Done 0 (Send 7) Returned, Done 1 Receive (Message 7)] \<and> sent (history m) = received (history m) @ shared m"
proof -
  let ?schedule = "[(1, Call Receive), (1, Acquire), (1, Test), (1, Park),
    (0, Call (Send 7)), (0, Acquire), (0, Test), (0, Act), (0, Notify), (0, Leave),
    (1, Acquire), (1, Test), (1, Act), (1, Leave)]"
  obtain m where m: "monitor_schedule (deque_class 0) (monitor_init queue_factory_create) ?schedule = Some m"
      and h: "history m = [Done 0 (Send (7 :: nat)) Returned, Done 1 Receive (Message 7)]"
    by (simp add: monitor_exec_def wake_all_def queue_factory_create_def op_defs)
  have "\<not> list_ex is_clear (history m)" by (simp add: h)
  from deque_fifo [OF monitor_schedule_reaches [OF m] this] h show ?thesis by blast
qed

text \<open>
  C11: whenever no thread can go on by itself (threads blocked on the condition variable are left
  to wait), every thread inside the deque is a receiver that found it empty: a receiver is
  never left asleep with a message in the queue.
\<close>

theorem deque_no_receiver_left_behind:
  assumes "reaches (monitor_step (deque_class d)) (monitor_init queue_factory_create) m"
    and "\<And>t. \<not> can_move (deque_class d) m t"
    and "pcs m t \<noteq> Idle"
  shows "shared m = [] \<and> (\<exists>op. pcs m t = Parked op \<and> (op = Receive \<or> deque_timed op))"
  using dq.stuck_waits [OF assms(1,2), of t] assms(3)
  by (auto simp: deque_waits_iff is_not_empty_def)

theorem deque_no_receiver_left_behind_witness:
  "\<exists>m :: nat deque_monitor. pcs m 1 = Parked Receive \<and> shared m = []"
proof -
  let ?schedule = "[(1, Call Receive), (1, Acquire), (1, Test), (1, Park)]"
  obtain m where m: "monitor_schedule (deque_class 0) (monitor_init queue_factory_create) ?schedule = Some m"
      and p: "pcs m = (\<lambda>_. Idle)(1 := Parked (Receive :: nat deque_op))"
    by (simp add: monitor_exec_def queue_factory_create_def op_defs monitor_init_def go_def fun_eq_iff)
  have "\<not> can_move (deque_class 0) m t" for t
    by (rule settled_cannot_move) (simp add: settled_def p)
  from deque_no_receiver_left_behind [OF monitor_schedule_reaches [OF m] this, of 1] p
  show ?thesis by (auto intro!: exI [of _ m])
qed

text \<open>
  A \<^verbatim>\<open>timed_receive\<close> that reports a timeout did so at a moment at which the queue was
  empty, and returns the value-initialised message.
\<close>

theorem deque_timeout_only_when_empty:
  assumes "reaches (monitor_step (deque_class d)) (monitor_init queue_factory_create) m"
    and "history m = es @ Timed_Out t op r # fs"
  shows "replay (deque_class d) queue_factory_create es = Some [] \<and> r = Flagged False d"
  using dq.linearizable [OF assms(1)] unfolding assms(2)
  by (cases op) (auto simp: replay_append is_not_empty_def split: option.splits if_splits)

theorem deque_timeout_only_when_empty_witness:
  "\<exists>m :: nat deque_monitor.
     history m = [Timed_Out 1 (Timed_Receive 5) (Flagged False 0)] \<and>
     replay (deque_class 0) queue_factory_create ([] :: (nat deque_op, nat deque_result) event list) = Some []"
proof -
  let ?schedule = "[(1, Call (Timed_Receive 5)), (1, Acquire), (1, Test), (1, Park), (1, Timeout),
    (1, Acquire), (1, Test), (1, Expire)]"
  obtain m where m: "monitor_schedule (deque_class 0) (monitor_init queue_factory_create) ?schedule = Some m"
      and h: "history m = [] @ Timed_Out 1 (Timed_Receive 5) (Flagged False (0 :: nat)) # []"
    by (simp add: monitor_exec_def queue_factory_create_def op_defs)
  from deque_timeout_only_when_empty [OF monitor_schedule_reaches [OF m] h] h show ?thesis by auto
qed

end
