(* ===== verification/Event_Task.thy ===== *)
theory Event_Task
  imports Task_Base Event_Aggregator Message_Queue
begin

text \<open>
  \<^verbatim>\<open>include/Task/EventTaskBase.hpp\<close>: a task with a queue and a loop thread that takes messages
  from it, and the client threads that post to it and wait for answers. The state is one record;
  each method is a function on it; \<open>task_exec\<close> performs one labelled step of some thread. A
  handler runs between \<open>Receive_Message\<close> and \<open>Process_Message\<close>: in between the loop thread
  may itself call the task's methods, and the step that ends the handler is only possible once
  the loop thread is not waiting inside one of them.
\<close>

section \<open>Messages\<close>

datatype attribute_type = No_Attribute | Internal | External

definition is_internal :: "attribute_type \<Rightarrow> bool" where
  "is_internal a = (a = Internal)"

definition is_external :: "attribute_type \<Rightarrow> bool" where
  "is_external a = (a = External)"

definition attribute_internal :: attribute_type where [simp]:
  "attribute_internal = Internal"

definition attribute_external :: attribute_type where [simp]:
  "attribute_external = External"

text \<open>
  A \<^verbatim>\<open>Response\<close> is shared by the message and its sender: it is known by a number, and the
  promise in it is an entry of the task's \<open>responses\<close>.
\<close>

type_synonym response = nat

record ('c, 'v) message_content =
  attribute :: attribute_type
  content_request :: "('c, 'v) request"
  response_buffer :: "response option"

definition content_default :: "('c::zero, 'v) message_content" where
  "content_default =
     \<lparr>attribute = No_Attribute, content_request = request_default, response_buffer = None\<rparr>"

definition make_content ::
  "attribute_type \<Rightarrow> ('c, 'v) request \<Rightarrow> response option \<Rightarrow> ('c, 'v) message_content"
where
  "make_content a req resp = \<lparr>attribute = a, content_request = req, response_buffer = resp\<rparr>"

definition get_attribute :: "('c, 'v) message_content \<Rightarrow> attribute_type" where [simp]:
  "get_attribute content = attribute content"

definition get_request :: "('c, 'v) message_content \<Rightarrow> ('c, 'v) request" where [simp]:
  "get_request content = content_request content"

definition get_response_buffer :: "('c, 'v) message_content \<Rightarrow> response option" where [simp]:
  "get_response_buffer content = response_buffer content"

definition is_response_required :: "('c, 'v) message_content \<Rightarrow> bool" where
  "is_response_required content = (response_buffer content \<noteq> None)"

text \<open>
  The internal commands are \<^verbatim>\<open>int64_t\<close>, converted to the task's command type and back. A
  signed command type is widened with its sign; the switch cannot tell (\<open>widen_signed\<close>).
\<close>

definition kStart :: "64 word" where "kStart = 0"

definition kStop :: "64 word" where "kStop = 1"

lemma widen_signed:
  fixes x :: "'n::len word"
  assumes "1 < LENGTH('n)" and "LENGTH('n) \<le> 64"
  shows "(scast x = kStart \<longleftrightarrow> ucast x = kStart) \<and> (scast x = kStop \<longleftrightarrow> ucast x = kStop)"
proof -
  have up: "scast (scast y :: 64 word) = y" "ucast (ucast y :: 64 word) = y" for y :: "'n word"
    using assms(2) by (simp_all add: scast_up_scast_id ucast_up_ucast_id is_up)
  have one: "scast (1 :: 'n word) = (1 :: 64 word)"
    using assms(1) by simp
  have "(scast x = (0 :: 64 word)) = (x = 0)" "(ucast x = (0 :: 64 word)) = (x = 0)"
    by (metis up(1) scast_0, metis up(2) ucast_0)
  moreover have "(scast x = (1 :: 64 word)) = (x = 1)" "(ucast x = (1 :: 64 word)) = (x = 1)"
    by (metis up(1) one, metis up(2) ucast_1)
  ultimately show ?thesis by (simp add: kStart_def kStop_def)
qed

section \<open>The task's state\<close>

text \<open>A \<^verbatim>\<open>Sender\<close>, and where a client thread stands inside a method of the task.\<close>

record sender =
  sender_response :: "response option"
  sent_flag :: bool

datatype blocking_call = Starting | Stopping | Calling

datatype ('c, 'v) client =
    Outside
  | Waiting blocking_call sender millis "('c, 'v) message_content"
  | Joining

text \<open>
  \<open>taken\<close> is the loop's local \<^verbatim>\<open>content\<close>; \<open>terminated\<close> says that an exception left the
  loop thread, which ends the program. The last three fields are ghosts: every message posted,
  every message handled with its result, and every value a blocking call returned (with
  whether its time was up).
\<close>

record ('c, 'v, 'a, 'k, 'w) event_task = task_base +
  aggregator :: 'a
  message_queue :: "('c, 'v) message_content list"
  on_start :: "'k option"
  on_finish :: "'k option"
  stopped :: bool
  taken :: "('c, 'v) message_content option"
  loop_done :: bool
  terminated :: bool
  responses :: "response \<Rightarrow> ('v, bool) result option"
  next_response :: response
  world :: 'w
  clients :: "tid \<Rightarrow> ('c, 'v) client"
  posted :: "('c, 'v) message_content list"
  handled :: "(('c, 'v) message_content \<times> ('v, bool) result) list"
  returned :: "(('c, 'v) message_content \<times> bool \<times> ('v, bool) result) list"

text \<open>
  What the task is given: the aggregator's \<^verbatim>\<open>publish\<close>, and what its hooks do. \<open>loop_thread\<close>
  is the identity of the thread the constructor starts.
\<close>

record ('c, 'v, 'a, 'k, 'w) task_code =
  publish :: "'a \<Rightarrow> 'c \<Rightarrow> ('c, 'v) request \<Rightarrow> 'w \<Rightarrow> ('v, bool) result \<times> 'a \<times> 'w"
  run_hook :: "'k \<Rightarrow> 'w \<Rightarrow> ('v, unit) result \<times> 'w"
  loop_thread :: tid

definition make_task ::
  "('c, 'v, 'a, 'k, 'w) task_code \<Rightarrow> task_type \<Rightarrow> string \<Rightarrow> 'a \<Rightarrow> 'w
   \<Rightarrow> ('c, 'v, 'a, 'k, 'w) event_task"
where
  "make_task code ty name agg w =
     task_base.extend ((make_task_base ty name)\<lparr>thread := Some (loop_thread code)\<rparr>)
       \<lparr>aggregator = agg, message_queue = queue_factory_create, on_start = None, on_finish = None,
        stopped = False, taken = None, loop_done = False, terminated = False,
        responses = (\<lambda>_. None), next_response = 0, world = w, clients = (\<lambda>_. Outside),
        posted = [], handled = [], returned = []\<rparr>"

section \<open>Sending\<close>

definition make_sender ::
  "bool \<Rightarrow> ('c, 'v, 'a, 'k, 'w) event_task \<Rightarrow> sender \<times> ('c, 'v, 'a, 'k, 'w) event_task"
where
  "make_sender need_response s =
     (if need_response
      then (\<lparr>sender_response = Some (next_response s), sent_flag = False\<rparr>,
            s\<lparr>next_response := Suc (next_response s)\<rparr>)
      else (\<lparr>sender_response = None, sent_flag = False\<rparr>, s))"

text \<open>
  The weak pointer of a sender can be locked as long as the task lives, as the task owns the
  queue, so the message is always sent.
\<close>

definition sender_send ::
  "attribute_type \<Rightarrow> ('c, 'v) request \<Rightarrow> sender \<Rightarrow> ('c, 'v, 'a, 'k, 'w) event_task
   \<Rightarrow> sender \<times> ('c, 'v, 'a, 'k, 'w) event_task"
where
  "sender_send a req sd s =
     (let c = make_content a req (sender_response sd) in
      (sd\<lparr>sent_flag := True\<rparr>,
       s\<lparr>message_queue := dq_send c (message_queue s), posted := posted s @ [c]\<rparr>))"

text \<open>\<^verbatim>\<open>kWaitForever\<close> is a duration of zero.\<close>

definition kWaitForever :: millis where "kWaitForever = 0"

text \<open>
  \<^verbatim>\<open>wait_for_response\<close>, as seen at some moment: \<open>None\<close> while it is still blocked. A timed
  wait returns \<^verbatim>\<open>false\<close> when its time is up and the future is not ready.
\<close>

definition wait_for_response ::
  "(response \<Rightarrow> ('v, bool) result option) \<Rightarrow> sender \<Rightarrow> millis \<Rightarrow> bool \<Rightarrow> ('v, bool) result option"
where
  "wait_for_response resp sd timeout_msec time_is_up =
     (case sender_response sd of
        None \<Rightarrow> Some (Inr False)
      | Some i \<Rightarrow>
          if \<not> sent_flag sd then Some (Inr False)
          else (case resp i of
                  Some r \<Rightarrow> Some r
                | None \<Rightarrow> if timeout_msec \<noteq> kWaitForever \<and> time_is_up then Some (Inr False) else None))"

definition post ::
  "bool \<Rightarrow> attribute_type \<Rightarrow> ('c, 'v) request \<Rightarrow> ('c, 'v, 'a, 'k, 'w) event_task
   \<Rightarrow> sender \<times> ('c, 'v, 'a, 'k, 'w) event_task"
where
  "post need_response a req s =
     (case make_sender need_response s of (sd, s') \<Rightarrow> sender_send a req sd s')"

text \<open>A call that waits: the sender posts, and the thread goes on inside \<^verbatim>\<open>wait_for_response\<close>.\<close>

definition post_and_wait ::
  "blocking_call \<Rightarrow> attribute_type \<Rightarrow> ('c, 'v) request \<Rightarrow> millis \<Rightarrow> tid
   \<Rightarrow> ('c, 'v, 'a, 'k, 'w) event_task \<Rightarrow> ('c, 'v, 'a, 'k, 'w) event_task"
where
  "post_and_wait call a req ms t s =
     (case post True a req s of
        (sd, s') \<Rightarrow> s'\<lparr>clients := (clients s')(t := Waiting call sd ms (last (posted s')))\<rparr>)"

definition send_event ::
  "('c, 'v) request \<Rightarrow> ('c, 'v, 'a, 'k, 'w) event_task \<Rightarrow> ('c, 'v, 'a, 'k, 'w) event_task"
where
  "send_event req s = snd (post False attribute_external req s)"

definition rpc_event ::
  "('c, 'v) request \<Rightarrow> millis \<Rightarrow> tid \<Rightarrow> ('c, 'v, 'a, 'k, 'w) event_task
   \<Rightarrow> ('c, 'v, 'a, 'k, 'w) event_task"
where
  "rpc_event req timeout_msec t s = post_and_wait Calling attribute_external req timeout_msec t s"

definition is_running :: "'z task_base_scheme \<Rightarrow> bool" where
  "is_running s = (thread s \<noteq> None)"

definition task_start ::
  "tid \<Rightarrow> ('n::len word, 'v, 'a, 'k, 'w) event_task \<Rightarrow> ('n word, 'v, 'a, 'k, 'w) event_task"
where
  "task_start t s = post_and_wait Starting attribute_internal (request_plain [] (ucast kStart)) kWaitForever t s"

definition task_stop ::
  "tid \<Rightarrow> ('n::len word, 'v, 'a, 'k, 'w) event_task \<Rightarrow> ('n word, 'v, 'a, 'k, 'w) event_task"
where
  "task_stop t s =
     (if \<not> is_running s then s
      else post_and_wait Stopping attribute_internal (request_plain [] (ucast kStop)) kWaitForever t s)"

text \<open>
  The end of a blocking call: \<^verbatim>\<open>rpc_event\<close> returns the future's value, \<^verbatim>\<open>start\<close> drops
  it, \<^verbatim>\<open>stop\<close> goes on to \<^verbatim>\<open>thread_.join()\<close>; an exception from the future leaves all three.
\<close>

definition end_wait ::
  "tid \<Rightarrow> bool \<Rightarrow> ('c, 'v, 'a, 'k, 'w) event_task \<Rightarrow> ('c, 'v, 'a, 'k, 'w) event_task option"
where
  "end_wait t time_is_up s =
     (case clients s t of
        Waiting call sd ms c \<Rightarrow>
          (case wait_for_response (responses s) sd ms time_is_up of
             None \<Rightarrow> None
           | Some r \<Rightarrow> Some (s\<lparr>
               clients := (clients s)(t := if call = Stopping \<and> (\<exists>b. r = Inr b) then Joining else Outside),
               returned := returned s @ [(c, time_is_up, r)]\<rparr>))
      | _ \<Rightarrow> None)"

text \<open>
  \<^verbatim>\<open>join\<close> waits for the loop thread to end. When another thread has joined it first, it
  throws \<^verbatim>\<open>std::system_error\<close> and changes nothing.
\<close>

definition end_join :: "tid \<Rightarrow> ('c, 'v, 'a, 'k, 'w) event_task \<Rightarrow> ('c, 'v, 'a, 'k, 'w) event_task option" where
  "end_join t s =
     (if clients s t = Joining \<and> (loop_done s \<or> thread s = None)
      then Some (s\<lparr>thread := None, clients := (clients s)(t := Outside)\<rparr>) else None)"

definition set_on_start :: "'k option \<Rightarrow> ('c, 'v, 'a, 'k, 'w) event_task \<Rightarrow> ('c, 'v, 'a, 'k, 'w) event_task" where
  "set_on_start hook s = s\<lparr>on_start := hook\<rparr>"

definition set_on_finish :: "'k option \<Rightarrow> ('c, 'v, 'a, 'k, 'w) event_task \<Rightarrow> ('c, 'v, 'a, 'k, 'w) event_task" where
  "set_on_finish hook s = s\<lparr>on_finish := hook\<rparr>"

section \<open>The loop thread\<close>

definition process_internal_command ::
  "('n::len word, 'v, 'a, 'k, 'w) task_code \<Rightarrow> ('n word, 'v) request
   \<Rightarrow> ('n word, 'v, 'a, 'k, 'w) event_task \<Rightarrow> ('v, unit) result \<times> ('n word, 'v, 'a, 'k, 'w) event_task"
where
  "process_internal_command code req s =
     (let cmd = ucast (get_command req) :: 64 word in
      if cmd = kStart
      then (case on_start s of
              None \<Rightarrow> (Inr (), s)
            | Some hook \<Rightarrow> (case run_hook code hook (world s) of (r, w) \<Rightarrow> (r, s\<lparr>world := w\<rparr>)))
      else if cmd = kStop then (Inr (), s\<lparr>stopped := True\<rparr>)
      else (Inr (), s))"

definition process_event ::
  "('n::len word, 'v, 'a, 'k, 'w) task_code \<Rightarrow> ('n word, 'v) request
   \<Rightarrow> ('n word, 'v, 'a, 'k, 'w) event_task \<Rightarrow> ('v, bool) result \<times> ('n word, 'v, 'a, 'k, 'w) event_task"
where
  "process_event code req s =
     (case publish code (aggregator s) (get_command req) req (world s) of
        (r, a, w) \<Rightarrow> (r, s\<lparr>aggregator := a, world := w\<rparr>))"

definition run_content ::
  "('n::len word, 'v, 'a, 'k, 'w) task_code \<Rightarrow> ('n word, 'v) message_content
   \<Rightarrow> ('n word, 'v, 'a, 'k, 'w) event_task \<Rightarrow> ('v, bool) result \<times> ('n word, 'v, 'a, 'k, 'w) event_task"
where
  "run_content code c s =
     (if is_internal (get_attribute c)
      then (case process_internal_command code (get_request c) s of
              (Inr _, s') \<Rightarrow> (Inr True, s')
            | (Inl e, s') \<Rightarrow> (Inl e, s'))
      else process_event code (get_request c) s)"

text \<open>
  A promise is set once. A second \<^verbatim>\<open>set_value\<close> would throw, and the
  \<^verbatim>\<open>set_exception\<close> of the \<^verbatim>\<open>catch\<close> clause throw again, out of the thread.
\<close>

definition fulfil ::
  "('c, 'v) message_content \<Rightarrow> ('v, bool) result \<Rightarrow> ('c, 'v, 'a, 'k, 'w) event_task
   \<Rightarrow> ('c, 'v, 'a, 'k, 'w) event_task"
where
  "fulfil c r s =
     (case get_response_buffer c of
        None \<Rightarrow> s
      | Some i \<Rightarrow>
          (case responses s i of
             None \<Rightarrow> s\<lparr>responses := (responses s)(i := Some r)\<rparr>
           | Some _ \<Rightarrow> s\<lparr>terminated := True\<rparr>))"

definition loop_receive :: "('c, 'v, 'a, 'k, 'w) event_task \<Rightarrow> ('c, 'v, 'a, 'k, 'w) event_task option" where
  "loop_receive s =
     (if loop_done s \<or> stopped s \<or> taken s \<noteq> None then None
      else (case dq_receive (message_queue s) of
              None \<Rightarrow> None
            | Some (c, q) \<Rightarrow> Some (s\<lparr>message_queue := q, taken := Some c\<rparr>)))"

definition loop_process ::
  "('n::len word, 'v, 'a, 'k, 'w) task_code \<Rightarrow> ('n word, 'v, 'a, 'k, 'w) event_task
   \<Rightarrow> ('n word, 'v, 'a, 'k, 'w) event_task option"
where
  "loop_process code s =
     (case taken s of
        None \<Rightarrow> None
      | Some c \<Rightarrow>
          if clients s (loop_thread code) \<noteq> Outside then None
          else (case run_content code c s of
                  (r, s') \<Rightarrow> Some ((fulfil c r s')\<lparr>taken := None, handled := handled s @ [(c, r)]\<rparr>)))"

definition loop_finish ::
  "('c, 'v, 'a, 'k, 'w) task_code \<Rightarrow> ('c, 'v, 'a, 'k, 'w) event_task
   \<Rightarrow> ('c, 'v, 'a, 'k, 'w) event_task option"
where
  "loop_finish code s =
     (if loop_done s \<or> \<not> stopped s \<or> taken s \<noteq> None \<or> clients s (loop_thread code) \<noteq> Outside then None
      else Some (case on_finish s of
              None \<Rightarrow> s\<lparr>loop_done := True\<rparr>
            | Some hook \<Rightarrow>
                (case run_hook code hook (world s) of
                   (Inr _, w) \<Rightarrow> s\<lparr>loop_done := True, world := w\<rparr>
                 | (Inl _, w) \<Rightarrow> s\<lparr>terminated := True, world := w\<rparr>)))"

section \<open>Steps\<close>

text \<open>
  \<open>Access\<close> stands for what a class derived from the task does with \<^verbatim>\<open>aggregator()\<close>.
\<close>

datatype ('c, 'v, 'a, 'k) task_action =
    Send_Event tid "('c, 'v) request"
  | Rpc_Event tid "('c, 'v) request" millis
  | Start tid
  | Stop tid
  | End_Wait tid bool
  | End_Join tid
  | Set_On_Start "'k option"
  | Set_On_Finish "'k option"
  | Access 'a
  | Receive_Message
  | Process_Message
  | Finish_Loop

text \<open>
  A thread may call a method when it is outside all of them; the loop thread only from a
  handler or hook, while it holds a message or is about to end.
\<close>

definition may_call :: "('c, 'v, 'a, 'k, 'w) task_code \<Rightarrow> tid \<Rightarrow> ('c, 'v, 'a, 'k, 'w) event_task \<Rightarrow> bool" where
  "may_call code t s \<longleftrightarrow>
     clients s t = Outside \<and> (t = loop_thread code \<longrightarrow> taken s \<noteq> None \<or> (stopped s \<and> \<not> loop_done s))"

fun task_exec ::
  "('n::len word, 'v, 'a, 'k, 'w) task_code \<Rightarrow> ('n word, 'v, 'a, 'k) task_action
   \<Rightarrow> ('n word, 'v, 'a, 'k, 'w) event_task \<Rightarrow> ('n word, 'v, 'a, 'k, 'w) event_task option"
where
  "task_exec code l s =
     (if terminated s then None
      else case l of
        Send_Event t req \<Rightarrow> if may_call code t s then Some (send_event req s) else None
      | Rpc_Event t req ms \<Rightarrow> if may_call code t s then Some (rpc_event req ms t s) else None
      | Start t \<Rightarrow> if may_call code t s then Some (task_start t s) else None
      | Stop t \<Rightarrow> if may_call code t s then Some (task_stop t s) else None
      | End_Wait t up \<Rightarrow> end_wait t up s
      | End_Join t \<Rightarrow> end_join t s
      | Set_On_Start hook \<Rightarrow> Some (set_on_start hook s)
      | Set_On_Finish hook \<Rightarrow> Some (set_on_finish hook s)
      | Access a \<Rightarrow> Some (s\<lparr>aggregator := a\<rparr>)
      | Receive_Message \<Rightarrow> loop_receive s
      | Process_Message \<Rightarrow> loop_process code s
      | Finish_Loop \<Rightarrow> loop_finish code s)"

definition task_step ::
  "('n::len word, 'v, 'a, 'k, 'w) task_code \<Rightarrow> ('n word, 'v, 'a, 'k, 'w) event_task
   \<Rightarrow> ('n word, 'v, 'a, 'k) task_action \<Rightarrow> ('n word, 'v, 'a, 'k, 'w) event_task \<Rightarrow> bool"
where
  "task_step code s l s' \<longleftrightarrow> task_exec code l s = Some s'"

lemmas task_defs [op_defs] = send_event_def rpc_event_def task_start_def task_stop_def
  post_and_wait_def end_wait_def end_join_def set_on_start_def set_on_finish_def
  loop_receive_def loop_process_def loop_finish_def

lemma post_eq:
  "post need a req s =
     (\<lparr>sender_response = (if need then Some (next_response s) else None), sent_flag = True\<rparr>,
      s\<lparr>next_response := (if need then Suc (next_response s) else next_response s),
        message_queue := message_queue s @ [make_content a req (if need then Some (next_response s) else None)],
        posted := posted s @ [make_content a req (if need then Some (next_response s) else None)]\<rparr>)"
  by (simp add: post_def make_sender_def sender_send_def Let_def dq_send_def)

lemma run_content_frame [frame]:
  assumes "run_content code c s = (r, s')"
  shows "message_queue s' = message_queue s \<and> taken s' = taken s \<and> loop_done s' = loop_done s \<and>
    terminated s' = terminated s \<and> responses s' = responses s \<and> next_response s' = next_response s \<and>
    clients s' = clients s \<and> posted s' = posted s \<and> handled s' = handled s \<and> returned s' = returned s \<and>
    thread s' = thread s \<and> on_start s' = on_start s \<and> on_finish s' = on_finish s"
  using assms
  by (auto simp: run_content_def process_internal_command_def process_event_def Let_def
      split: if_splits option.splits prod.splits sum.splits)

section \<open>First in, first out, one answer each\<close>

definition in_hand :: "('c, 'v, 'a, 'k, 'w) event_task \<Rightarrow> ('c, 'v) message_content list" where
  "in_hand s = (case taken s of None \<Rightarrow> [] | Some c \<Rightarrow> [c])"

definition response_ids :: "('c, 'v) message_content list \<Rightarrow> response list" where
  "response_ids cs = concat (map (\<lambda>c. case response_buffer c of None \<Rightarrow> [] | Some i \<Rightarrow> [i]) cs)"

lemma response_ids_simps [simp]:
  "response_ids [] = []"
  "response_ids (c # cs) = (case response_buffer c of None \<Rightarrow> [] | Some i \<Rightarrow> [i]) @ response_ids cs"
  "response_ids (cs @ ds) = response_ids cs @ response_ids ds"
  by (simp_all add: response_ids_def)

lemma in_response_ids: "i \<in> set (response_ids cs) \<longleftrightarrow> (\<exists>c\<in>set cs. response_buffer c = Some i)"
  by (induction cs) (auto split: option.splits)

definition in_order :: "('c, 'v, 'a, 'k, 'w) event_task \<Rightarrow> bool" where
  "in_order s \<longleftrightarrow> posted s = map fst (handled s) @ in_hand s @ message_queue s"

definition own_response :: "('c, 'v, 'a, 'k, 'w) event_task \<Rightarrow> bool" where
  "own_response s \<longleftrightarrow>
     distinct (response_ids (posted s)) \<and> (\<forall>i\<in>set (response_ids (posted s)). i < next_response s)"

definition answered :: "('c, 'v, 'a, 'k, 'w) event_task \<Rightarrow> bool" where
  "answered s \<longleftrightarrow>
     (\<forall>i r. responses s i = Some r \<longleftrightarrow> (\<exists>c. (c, r) \<in> set (handled s) \<and> response_buffer c = Some i))"

definition flow_inv :: "('c, 'v, 'a, 'k, 'w) event_task \<Rightarrow> bool" where
  "flow_inv s \<longleftrightarrow> in_order s \<and> own_response s \<and> answered s"

lemma flow_inv_make: "flow_inv (make_task code ty name agg w)"
  by (simp add: flow_inv_def in_order_def own_response_def answered_def
      make_task_def task_base.extend_def in_hand_def queue_factory_create_def)

text \<open>Posting a message, with whatever it does to the threads.\<close>

lemma own_response_post:
  assumes "own_response s"
  shows "own_response (snd (post need a req s))"
proof -
  have bound: "i < Suc (next_response s)" if "i \<in> set (response_ids (posted s))" for i
    using assms that less_SucI unfolding own_response_def by blast
  have fresh: "next_response s \<notin> set (response_ids (posted s))"
    using assms less_irrefl unfolding own_response_def by blast
  show ?thesis
    using assms bound fresh by (cases need) (auto simp: own_response_def post_eq make_content_def)
qed

lemma flow_inv_post:
  assumes "flow_inv s"
  shows "flow_inv (snd (post need a req s))"
  using assms own_response_post [of s need a req]
  by (simp add: flow_inv_def in_order_def answered_def in_hand_def post_eq)

lemma flow_inv_posted: "post need a req s = (sd, s') \<Longrightarrow> flow_inv s \<Longrightarrow> flow_inv s'"
  using flow_inv_post [of s need a req] by simp

lemma flow_inv_clients [simp]:
  "flow_inv (s\<lparr>clients := cl\<rparr>) = flow_inv s"
  "flow_inv (s\<lparr>returned := rs\<rparr>) = flow_inv s"
  "flow_inv (s\<lparr>on_start := hook\<rparr>) = flow_inv s"
  "flow_inv (s\<lparr>on_finish := hook\<rparr>) = flow_inv s"
  "flow_inv (s\<lparr>aggregator := agg\<rparr>) = flow_inv s"
  "flow_inv (s\<lparr>loop_done := b\<rparr>) = flow_inv s"
  "flow_inv (s\<lparr>terminated := b\<rparr>) = flow_inv s"
  "flow_inv (s\<lparr>world := w\<rparr>) = flow_inv s"
  "flow_inv (s\<lparr>thread := th\<rparr>) = flow_inv s"
  by (simp_all add: flow_inv_def in_order_def own_response_def answered_def in_hand_def)

lemma flow_inv_receive:
  assumes "loop_receive s = Some s'" and "flow_inv s"
  shows "flow_inv s'"
proof -
  from assms(1) obtain c q where "dq_receive (message_queue s) = Some (c, q)" and s':
      "s' = s\<lparr>message_queue := q, taken := Some c\<rparr>" and "taken s = None"
    by (auto simp: loop_receive_def split: option.splits if_splits)
  moreover from this(1) have "message_queue s = c # q" by (cases "message_queue s") simp_all
  ultimately have "in_order s' = in_order s" "own_response s' = own_response s" "answered s' = answered s"
    by (simp_all add: in_order_def own_response_def answered_def in_hand_def)
  with assms(2) show ?thesis by (simp add: flow_inv_def)
qed

text \<open>The promise of the message in hand has not been set.\<close>

lemma taken_unanswered:
  assumes "flow_inv s" and "taken s = Some c" and "response_buffer c = Some i"
  shows "responses s i = None"
proof (rule ccontr)
  assume "responses s i \<noteq> None"
  then obtain d r where "(d, r) \<in> set (handled s)" "response_buffer d = Some i"
    using assms(1) unfolding flow_inv_def answered_def by blast
  then have "i \<in> set (response_ids (map fst (handled s)))"
    by (force simp: in_response_ids)
  moreover have "i \<in> set (response_ids (in_hand s))"
    using assms(2,3) by (simp add: in_hand_def)
  ultimately show False
    using assms(1) by (auto simp: flow_inv_def in_order_def own_response_def)
qed

lemma flow_inv_process:
  assumes inv: "flow_inv s" and "loop_process code s = Some s'"
  shows "flow_inv s' \<and> terminated s' = terminated s"
proof -
  from assms(2) obtain c where c: "taken s = Some c" by (auto simp: loop_process_def split: option.splits)
  obtain r s1 where run: "run_content code c s = (r, s1)" by fastforce
  note fr = run_content_frame [OF run]
  have s': "s' = (fulfil c r s1)\<lparr>taken := None, handled := handled s @ [(c, r)]\<rparr>"
    using assms(2) c run by (auto simp: loop_process_def split: if_splits)
  have free: "responses s i = None" if "response_buffer c = Some i" for i
    by (rule taken_unanswered [OF inv c that])
  have done_not: "response_buffer d \<noteq> Some i" if "(d, x) \<in> set (handled s)" "response_buffer c = Some i" for d x i
    using inv free [OF that(2)] that(1) unfolding flow_inv_def answered_def by (metis option.distinct(1))
  have f: "posted s' = posted s \<and> next_response s' = next_response s \<and> message_queue s' = message_queue s
      \<and> taken s' = None \<and> handled s' = handled s @ [(c, r)] \<and> terminated s' = terminated s"
    using fr free unfolding s' by (auto simp: fulfil_def split: option.splits)
  then have "own_response s' = own_response s"
    by (simp add: own_response_def)
  moreover from f have "in_order s'"
    using inv c by (simp add: flow_inv_def in_order_def in_hand_def)
  moreover have "answered s'"
    using inv fr free done_not f
    by (cases "response_buffer c") (auto simp: flow_inv_def answered_def s' fulfil_def)
  ultimately show ?thesis using f inv by (simp add: flow_inv_def)
qed

lemma flow_inv_step:
  assumes "task_step code s l s'" and "flow_inv s"
  shows "flow_inv s'"
proof -
  have alive: "\<not> terminated s" using assms(1) by (auto simp: task_step_def)
  show ?thesis
  proof (cases l)
    case Receive_Message
    with assms alive show ?thesis by (auto simp: task_step_def intro: flow_inv_receive)
  next
    case Process_Message
    with assms alive flow_inv_process show ?thesis by (auto simp: task_step_def)
  next
    case Finish_Loop
    with assms alive show ?thesis
      by (auto simp: task_step_def op_defs split: if_splits option.splits prod.splits sum.splits)
  qed (use assms alive in \<open>auto simp: task_step_def op_defs flow_inv_post
      split: if_splits prod.splits client.splits option.splits intro: flow_inv_posted\<close>)
qed

section \<open>The stop command ends the loop\<close>

definition is_stop :: "('n::len word, 'v) message_content \<Rightarrow> bool" where
  "is_stop c \<longleftrightarrow> is_internal (attribute c) \<and> (ucast (get_command (content_request c)) :: 64 word) = kStop"

definition stop_inv :: "('n::len word, 'v, 'a, 'k, 'w) event_task \<Rightarrow> bool" where
  "stop_inv s \<longleftrightarrow>
     (\<forall>c\<in>set (map fst (butlast (handled s))). \<not> is_stop c) \<and>
     (stopped s \<longleftrightarrow> handled s \<noteq> [] \<and> is_stop (fst (last (handled s)))) \<and>
     (stopped s \<longrightarrow> taken s = None) \<and> (loop_done s \<longrightarrow> stopped s) \<and> (terminated s \<longrightarrow> stopped s)"

lemma stop_inv_make: "stop_inv (make_task code ty name agg w)"
  by (simp add: stop_inv_def make_task_def task_base.extend_def)

lemma run_content_stops:
  "run_content code c s = (r, s') \<Longrightarrow> stopped s' \<longleftrightarrow> stopped s \<or> is_stop c"
  by (auto simp: run_content_def process_internal_command_def process_event_def is_stop_def Let_def
      kStart_def kStop_def split: if_splits option.splits prod.splits sum.splits)

lemma not_stopped_no_stop:
  assumes "stop_inv s" and "\<not> stopped s" and "c \<in> set (map fst (handled s))"
  shows "\<not> is_stop c"
  using assms by (cases "handled s" rule: rev_cases) (auto simp: stop_inv_def)

lemma stop_inv_process:
  assumes inv: "stop_inv s" and flow: "flow_inv s" and p: "loop_process code s = Some s'"
    and alive: "\<not> terminated s"
  shows "stop_inv s'"
proof -
  from p obtain c where c: "taken s = Some c" by (auto simp: loop_process_def split: option.splits)
  obtain r s1 where run: "run_content code c s = (r, s1)" by fastforce
  note fr = run_content_frame [OF run] and st = run_content_stops [OF run]
  have "\<not> stopped s" using inv c by (auto simp: stop_inv_def)
  note none = not_stopped_no_stop [OF inv this]
  have s': "s' = (fulfil c r s1)\<lparr>taken := None, handled := handled s @ [(c, r)]\<rparr>"
    using p c run by (auto simp: loop_process_def split: if_splits)
  have "stopped (fulfil c r s1) = stopped s1" "loop_done (fulfil c r s1) = loop_done s1"
    by (simp_all add: fulfil_def split: option.split)
  moreover have "\<not> terminated s'" using flow_inv_process [OF flow p] alive by simp
  moreover have "\<not> loop_done s" using inv c by (auto simp: stop_inv_def)
  ultimately show ?thesis
    using none fr st \<open>\<not> stopped s\<close> unfolding s' by (auto simp: stop_inv_def)
qed

lemma stop_inv_post: "post need a req s = (sd, s') \<Longrightarrow> stop_inv s' = stop_inv s"
  by (auto simp: post_eq stop_inv_def)

lemma stop_inv_posted: "stop_inv (snd (post need a req s)) = stop_inv s"
  by (simp add: post_eq stop_inv_def)

lemma stop_inv_updates [simp]:
  "stop_inv (s\<lparr>clients := cl\<rparr>) = stop_inv s"
  "stop_inv (s\<lparr>returned := rs\<rparr>) = stop_inv s"
  "stop_inv (s\<lparr>on_start := hook\<rparr>) = stop_inv s"
  "stop_inv (s\<lparr>on_finish := hook\<rparr>) = stop_inv s"
  "stop_inv (s\<lparr>aggregator := agg\<rparr>) = stop_inv s"
  "stop_inv (s\<lparr>world := w\<rparr>) = stop_inv s"
  "stop_inv (s\<lparr>thread := th\<rparr>) = stop_inv s"
  by (simp_all add: stop_inv_def)

lemma stop_inv_step:
  assumes "task_step code s l s'" and "flow_inv s" and "stop_inv s"
  shows "stop_inv s'"
proof -
  have alive: "\<not> terminated s" using assms(1) by (auto simp: task_step_def)
  show ?thesis
  proof (cases l)
    case Receive_Message
    with assms alive show ?thesis
      by (auto simp: task_step_def loop_receive_def stop_inv_def split: if_splits option.splits)
  next
    case Process_Message
    with assms alive stop_inv_process show ?thesis by (auto simp: task_step_def)
  next
    case Finish_Loop
    with assms alive show ?thesis
      by (auto simp: task_step_def loop_finish_def stop_inv_def split: if_splits option.splits prod.splits sum.splits)
  qed (use assms alive in \<open>auto simp: task_step_def op_defs stop_inv_post stop_inv_posted
      split: if_splits prod.splits client.splits option.splits\<close>)
qed

section \<open>Callers get the answer to their own message\<close>

definition fair_return ::
  "(('c, 'v) message_content \<times> ('v, bool) result) list
   \<Rightarrow> ('c, 'v) message_content \<times> bool \<times> ('v, bool) result \<Rightarrow> bool"
where
  "fair_return hs =
     (\<lambda>(c, up, r). response_buffer c \<noteq> None \<and> ((c, r) \<in> set hs \<or> (up \<and> r = Inr False)))"

lemma fair_return_more: "fair_return hs x \<Longrightarrow> fair_return (hs @ gs) x"
  by (auto simp: fair_return_def)

definition client_inv :: "('c, 'v, 'a, 'k, 'w) event_task \<Rightarrow> bool" where
  "client_inv s \<longleftrightarrow>
     (\<forall>t call sd ms c. clients s t = Waiting call sd ms c \<longrightarrow>
        c \<in> set (posted s) \<and> sender_response sd = response_buffer c \<and> response_buffer c \<noteq> None \<and> sent_flag sd) \<and>
     (\<forall>x\<in>set (returned s). fair_return (handled s) x)"

lemma client_inv_make: "client_inv (make_task code ty name agg w)"
  by (simp add: client_inv_def make_task_def task_base.extend_def)

lemma same_response_same_content:
  "distinct (response_ids cs) \<Longrightarrow> c \<in> set cs \<Longrightarrow> d \<in> set cs \<Longrightarrow>
   response_buffer c = Some i \<Longrightarrow> response_buffer d = Some i \<Longrightarrow> c = d"
proof (induction cs)
  case (Cons e cs)
  have "i \<in> set (response_ids cs)" if "c \<in> set cs \<or> d \<in> set cs"
    using that Cons.prems by (auto simp: in_response_ids)
  with Cons show ?case by (auto split: option.splits)
qed simp

lemma answer_is_own:
  assumes "flow_inv s" and "client_inv s" and "clients s t = Waiting call sd ms c"
    and "wait_for_response (responses s) sd ms up = Some r"
  shows "fair_return (handled s) (c, up, r)"
  unfolding fair_return_def split
proof -
  from assms(2,3) obtain i where c: "c \<in> set (posted s)" "sender_response sd = Some i"
      "response_buffer c = Some i" "sent_flag sd"
    unfolding client_inv_def by (metis not_Some_eq)
  show "response_buffer c \<noteq> None \<and> ((c, r) \<in> set (handled s) \<or> (up \<and> r = Inr False))"
  proof (cases "responses s i")
    case None
    with assms(4) c show ?thesis by (auto simp: wait_for_response_def split: if_splits)
  next
    case (Some r')
    with assms(4) c have "r' = r" by (simp add: wait_for_response_def)
    with Some assms(1) obtain d where d: "(d, r) \<in> set (handled s)" "response_buffer d = Some i"
      unfolding flow_inv_def answered_def by blast
    then have "d \<in> set (posted s)" using assms(1) by (force simp: flow_inv_def in_order_def)
    with same_response_same_content [of "posted s" c d i] c d assms(1) show ?thesis
      by (auto simp: flow_inv_def own_response_def)
  qed
qed

lemma client_inv_post_and_wait:
  assumes "client_inv s"
  shows "client_inv (post_and_wait call a req ms t s)"
  using assms by (auto simp: client_inv_def post_and_wait_def post_eq make_content_def)

lemma client_inv_step:
  assumes "task_step code s l s'" and "flow_inv s" and "client_inv s"
  shows "client_inv s'"
proof -
  have alive: "\<not> terminated s" using assms(1) by (auto simp: task_step_def)
  show ?thesis
  proof (cases l)
    case (Send_Event t req)
    with assms alive show ?thesis
      by (auto simp: task_step_def send_event_def post_eq client_inv_def split: if_splits)
  next
    case (End_Wait t up)
    with assms alive obtain call sd ms c r where w: "clients s t = Waiting call sd ms c"
        "wait_for_response (responses s) sd ms up = Some r"
      and s': "s' = s\<lparr>clients := (clients s)(t := if call = Stopping \<and> (\<exists>b. r = Inr b) then Joining else Outside),
               returned := returned s @ [(c, up, r)]\<rparr>"
      by (auto simp: task_step_def end_wait_def split: client.splits option.splits)
    from answer_is_own [OF assms(2,3) w] assms(3) show ?thesis
      unfolding s' client_inv_def by auto
  next
    case Process_Message
    with assms(1) alive obtain c where c: "taken s = Some c"
      by (auto simp: task_step_def loop_process_def split: option.splits)
    obtain r s1 where run: "run_content code c s = (r, s1)" by fastforce
    from Process_Message assms(1) alive c run have
      s': "s' = (fulfil c r s1)\<lparr>taken := None, handled := handled s @ [(c, r)]\<rparr>"
      by (auto simp: task_step_def loop_process_def split: if_splits)
    have "clients s' = clients s \<and> posted s' = posted s \<and> returned s' = returned s \<and> handled s' = handled s @ [(c, r)]"
      using run_content_frame [OF run] unfolding s' by (auto simp: fulfil_def split: option.split)
    with assms(3) show ?thesis by (auto simp: client_inv_def fair_return_more)
  next
    case (Rpc_Event t req ms)
    with assms alive show ?thesis
      by (auto simp: task_step_def rpc_event_def client_inv_post_and_wait split: if_splits)
  next
    case (Start t)
    with assms alive show ?thesis
      by (auto simp: task_step_def task_start_def client_inv_post_and_wait split: if_splits)
  next
    case (Stop t)
    with assms alive show ?thesis
      by (auto simp: task_step_def task_stop_def client_inv_post_and_wait split: if_splits)
  qed (use assms alive in \<open>auto simp: task_step_def op_defs client_inv_def
      split: if_splits prod.splits option.splits sum.splits\<close>)
qed

definition task_inv :: "('n::len word, 'v, 'a, 'k, 'w) event_task \<Rightarrow> bool" where
  "task_inv s \<longleftrightarrow> flow_inv s \<and> stop_inv s \<and> client_inv s"

interpretation task: unconditional_invariant "task_step code" task_inv
  for code :: "('n::len word, 'v, 'a, 'k, 'w) task_code"
  by unfold_locales (auto simp: task_inv_def intro: flow_inv_step stop_inv_step client_inv_step)

lemma task_inv_reachable:
  "reaches (task_step code) (make_task code ty name agg w) s \<Longrightarrow> task_inv s"
  by (rule task.inv_reaches)
    (auto simp: task_inv_def intro: flow_inv_make stop_inv_make client_inv_make)

section \<open>Running a schedule\<close>

primrec task_schedule ::
  "('n::len word, 'v, 'a, 'k, 'w) task_code \<Rightarrow> ('n word, 'v, 'a, 'k, 'w) event_task
   \<Rightarrow> ('n word, 'v, 'a, 'k) task_action list \<Rightarrow> ('n word, 'v, 'a, 'k, 'w) event_task option"
where
  "task_schedule code s [] = Some s"
| "task_schedule code s (l # ls) =
     (case task_exec code l s of None \<Rightarrow> None | Some s' \<Rightarrow> task_schedule code s' ls)"

lemma task_schedule_run: "task_schedule code s ls = Some s' \<Longrightarrow> run (task_step code) s ls s'"
  by (induction ls arbitrary: s) (auto simp: task_step_def split: option.splits)

lemma task_schedule_reaches: "task_schedule code s ls = Some s' \<Longrightarrow> reaches (task_step code) s s'"
  by (blast intro: reachesI task_schedule_run)

text \<open>Everything a concrete run unfolds.\<close>

lemmas task_eval = op_defs post_eq make_task_def make_task_base_def task_base.extend_def queue_factory_create_def
  may_call_def is_running_def wait_for_response_def kWaitForever_def run_content_def process_event_def
  process_internal_command_def fulfil_def make_content_def is_internal_def request_plain_def
  get_command_def kStart_def kStop_def Let_def is_stop_def

text \<open>A task on thread 0 whose handlers say yes and count, for the concrete runs below.\<close>

definition counting_code :: "(8 word, unit, unit, unit, nat) task_code" where
  "counting_code =
     \<lparr>publish = (\<lambda>agg cmd req n. (Inr True, agg, Suc n)), run_hook = (\<lambda>hook n. (Inr (), n)), loop_thread = 0\<rparr>"

definition counting_task :: "(8 word, unit, unit, unit, nat) event_task" where
  "counting_task = make_task counting_code Message_Task ''counter'' () 0"

lemmas counting_defs = counting_code_def counting_task_def

section \<open>What a client of a task relies on\<close>

text \<open>
  C2: messages are handled in the order in which they were posted, whoever posts them: at every
  moment the messages handled, then the one in hand, then those queued are all that was posted.
\<close>

theorem task_fifo:
  assumes "reaches (task_step code) (make_task code ty name agg w) s"
  shows "posted s = map fst (handled s) @ in_hand s @ message_queue s"
  using task_inv_reachable [OF assms] by (simp add: task_inv_def flow_inv_def in_order_def)

theorem task_fifo_witness:
  "\<exists>s. handled s \<noteq> [] \<and> message_queue s \<noteq> [] \<and>
     posted s = map fst (handled s) @ in_hand s @ message_queue (s :: (8 word, unit, unit, unit, nat) event_task)"
proof -
  let ?schedule = "[Send_Event 1 (request_plain [] 3), Send_Event 2 (request_plain [] 4),
    Receive_Message, Process_Message]"
  obtain s where s: "task_schedule counting_code counting_task ?schedule = Some s" "handled s \<noteq> []" "message_queue s \<noteq> []"
    by (simp add: counting_defs task_eval)
  from task_fifo [OF task_schedule_reaches [OF s(1) [unfolded counting_task_def]]] s(2,3) show ?thesis by blast
qed

text \<open>
  C3: a blocking call that returns before its time is up returns (or throws) what the handling
  of its own message returned or threw, and that message was handled once: no answer reaches
  another caller, and none is given twice.
\<close>

theorem task_answers_own_message:
  assumes "reaches (task_step code) (make_task code ty name agg w) s"
    and "(c, False, r) \<in> set (returned s)"
  shows "(c, r) \<in> set (handled s) \<and> (\<forall>r'. (c, r') \<in> set (handled s) \<longrightarrow> r' = r)"
proof -
  have flow: "flow_inv s" and "client_inv s"
    using task_inv_reachable [OF assms(1)] by (simp_all add: task_inv_def)
  with assms(2) have "fair_return (handled s) (c, False, r)" unfolding client_inv_def by blast
  then obtain i where i: "response_buffer c = Some i" "(c, r) \<in> set (handled s)"
    by (auto simp: fair_return_def)
  with flow show ?thesis unfolding flow_inv_def answered_def by (metis option.inject)
qed

theorem task_answers_own_message_witness:
  "\<exists>(s :: (8 word, unit, unit, unit, nat) event_task) c.
     (c, False, Inr True) \<in> set (returned s) \<and> (c, Inr True) \<in> set (handled s)"
proof -
  let ?schedule = "[Rpc_Event 1 (request_plain [] 3) 0, Receive_Message, Process_Message, End_Wait 1 False]"
  obtain s where s: "task_schedule counting_code counting_task ?schedule = Some s"
      "returned s = [(make_content External (request_plain [] 3) (Some 0), False, Inr True)]"
    by (simp add: counting_defs task_eval)
  then have "(make_content External (request_plain [] 3) (Some 0), False, Inr True) \<in> set (returned s)" by simp
  from task_answers_own_message [OF task_schedule_reaches [OF s(1) [unfolded counting_task_def]] this] this
  show ?thesis by blast
qed

lemma cut_at_first_stop:
  assumes "task_inv s" and "stopped s"
  shows "\<exists>before c after. posted s = before @ c # after \<and> is_stop c \<and> list_all (\<lambda>d. \<not> is_stop d) before \<and>
    map fst (handled s) = before @ [c] \<and> message_queue s = after"
proof -
  have order: "in_order s" and st: "stop_inv s"
    using assms(1) by (simp_all add: task_inv_def flow_inv_def)
  with assms(2) obtain hs c r where h: "handled s = hs @ [(c, r)]" "is_stop c"
    unfolding stop_inv_def by (metis append_butlast_last_id prod.collapse)
  have "taken s = None" using st assms(2) by (simp add: stop_inv_def)
  with order h have "posted s = map fst hs @ c # message_queue s"
    by (simp add: in_order_def in_hand_def)
  moreover have "list_all (\<lambda>d. \<not> is_stop d) (map fst hs)"
    using st h(1) by (simp add: stop_inv_def list_all_iff)
  ultimately show ?thesis using h by auto
qed

text \<open>
  C6: the loop ends at the first stop command posted: everything posted before it has been
  handled, nothing posted after it ever is.
\<close>

theorem task_stop_cuts_the_queue:
  assumes "reaches (task_step code) (make_task code ty name agg w) s" and "stopped s"
  shows "\<exists>before c after. posted s = before @ c # after \<and> is_stop c \<and> list_all (\<lambda>d. \<not> is_stop d) before \<and>
    map fst (handled s) = before @ [c] \<and> message_queue s = after"
  using cut_at_first_stop [OF task_inv_reachable [OF assms(1)] assms(2)] .

theorem task_stop_cuts_the_queue_witness:
  "\<exists>(s :: (8 word, unit, unit, unit, nat) event_task) before c after.
     length (posted s) = 3 \<and> posted s = before @ c # after \<and> map fst (handled s) = before @ [c] \<and> message_queue s = after"
proof -
  let ?schedule = "[Send_Event 1 (request_plain [] 3), Stop 1, Send_Event 2 (request_plain [] 4),
    Receive_Message, Process_Message, Receive_Message, Process_Message]"
  obtain s where s: "task_schedule counting_code counting_task ?schedule = Some s" "stopped s" "length (posted s) = 3"
    by (simp add: counting_defs task_eval)
  from task_stop_cuts_the_queue [OF task_schedule_reaches [OF s(1) [unfolded counting_task_def]] s(2)] s(3)
  show ?thesis by blast
qed

text \<open>A thread whose call waits for ever stays where it is until its response is set.\<close>

lemma waiting_stays:
  assumes "task_step code s l s'" and "clients s t = Waiting call sd kWaitForever c"
    and "wait_for_response (responses s) sd kWaitForever False = None"
  shows "clients s' t = clients s t"
proof -
  have alive: "\<not> terminated s" using assms(1) by (auto simp: task_step_def)
  have blocked: "wait_for_response (responses s) sd kWaitForever up = None" for up
    using assms(3) by (auto simp: wait_for_response_def split: option.splits if_splits)
  show ?thesis
  proof (cases l)
    case (End_Wait u up)
    with assms alive blocked show ?thesis
      by (cases "u = t") (auto simp: task_step_def end_wait_def split: client.splits option.splits)
  next
    case Process_Message
    with assms(1) alive show ?thesis
      by (auto simp: task_step_def loop_process_def fulfil_def dest!: run_content_frame
          split: option.splits if_splits prod.splits)
  qed (use assms alive in \<open>auto simp: task_step_def op_defs post_eq may_call_def
        split: if_splits option.splits prod.splits sum.splits\<close>)
qed

text \<open>Only the end of a handler sets a promise.\<close>

lemma only_process_answers:
  assumes "task_step code s l s'" and "l \<noteq> Process_Message"
  shows "responses s' = responses s \<and> handled s' = handled s"
proof -
  have "\<not> terminated s" using assms(1) by (auto simp: task_step_def)
  with assms show ?thesis
    by (cases l)
      (auto simp: task_step_def op_defs post_eq split: if_splits option.splits prod.splits sum.splits client.splits)
qed

text \<open>Once the stop command has been handled, no promise is set any more.\<close>

lemma stopped_frozen:
  assumes "task_step code s l s'" and "task_inv s" and "stopped s"
  shows "task_inv s' \<and> stopped s' \<and> responses s' = responses s \<and> handled s' = handled s"
proof -
  have alive: "\<not> terminated s" using assms(1) by (auto simp: task_step_def)
  have "taken s = None" using assms(2,3) by (simp add: task_inv_def stop_inv_def)
  then have "stopped s' \<and> responses s' = responses s \<and> handled s' = handled s"
    using assms(1,3) alive by (cases l)
      (auto simp: task_step_def op_defs post_eq split: if_splits option.splits prod.splits sum.splits client.splits)
  with assms task.inv_step [OF assms(1)] show ?thesis by simp
qed

interpretation after_stop: unconditional_invariant "task_step code"
  "\<lambda>s. task_inv s \<and> stopped s \<and> responses s = resp \<and> clients s t = Waiting call sd kWaitForever c \<and>
     wait_for_response resp sd kWaitForever False = None"
  for code :: "('n::len word, 'v, 'a, 'k, 'w) task_code" and resp t call sd c
  by unfold_locales (metis (no_types, lifting) stopped_frozen waiting_stays)

text \<open>
  C20: a call without a time limit (\<^verbatim>\<open>start\<close>, a second \<^verbatim>\<open>stop\<close>, \<^verbatim>\<open>rpc_event\<close>) whose
  message is still unanswered when the stop command has been handled never returns.
\<close>

theorem task_stopped_never_answers:
  assumes "reaches (task_step code) (make_task code ty name agg w) s" and "stopped s"
    and "clients s t = Waiting call sd kWaitForever c"
    and "wait_for_response (responses s) sd kWaitForever False = None"
    and "reaches (task_step code) s s'"
  shows "clients s' t = Waiting call sd kWaitForever c"
  using after_stop.inv_reaches [OF assms(5), of "responses s" t call sd c]
    task_inv_reachable [OF assms(1)] assms(2-4) by blast

theorem task_stopped_never_answers_witness:
  "\<exists>(s :: (8 word, unit, unit, unit, nat) event_task) sd c.
     \<forall>s'. reaches (task_step counting_code) s s' \<longrightarrow> clients s' 2 = Waiting Calling sd kWaitForever c"
proof -
  let ?schedule = "[Stop 1, Rpc_Event 2 (request_plain [] 4) 0, Receive_Message, Process_Message]"
  obtain s where s: "task_schedule counting_code counting_task ?schedule = Some s" "stopped s"
      "clients s 2 = Waiting Calling \<lparr>sender_response = Some 1, sent_flag = True\<rparr> kWaitForever
         (make_content External (request_plain [] 4) (Some 1))"
      "wait_for_response (responses s) \<lparr>sender_response = Some 1, sent_flag = True\<rparr> kWaitForever False = None"
    by (simp add: counting_defs task_eval)
  from task_stopped_never_answers [OF task_schedule_reaches [OF s(1) [unfolded counting_task_def]] s(2-4)]
  show ?thesis by blast
qed

text \<open>While the loop thread waits in one of the task's own methods it handles nothing.\<close>

lemma loop_waiting_step:
  assumes "task_step code s l s'"
    and "clients s (loop_thread code) = Waiting call sd kWaitForever c"
    and "wait_for_response (responses s) sd kWaitForever False = None"
  shows "clients s' (loop_thread code) = clients s (loop_thread code) \<and>
    responses s' = responses s \<and> handled s' = handled s"
proof -
  have alive: "\<not> terminated s" using assms(1) by (auto simp: task_step_def)
  have "l \<noteq> Process_Message" using assms(1,2) alive by (auto simp: task_step_def loop_process_def split: option.splits)
  from only_process_answers [OF assms(1) this] waiting_stays [OF assms] show ?thesis by simp
qed

interpretation self_wait: unconditional_invariant "task_step code"
  "\<lambda>s. clients s (loop_thread code) = Waiting call sd kWaitForever c \<and>
     wait_for_response (responses s) sd kWaitForever False = None \<and> handled s = hs"
  for code :: "('n::len word, 'v, 'a, 'k, 'w) task_code" and call sd c hs
  by unfold_locales (metis (no_types, lifting) loop_waiting_step)

text \<open>
  C21: a handler that makes a blocking call without a time limit on its own task stops the task
  for good: whatever happens afterwards, no further message is handled.
\<close>

theorem task_self_rpc_deadlocks:
  assumes "reaches (task_step code) (make_task code ty name agg w) s"
    and "task_step code s (Rpc_Event (loop_thread code) req kWaitForever) s1"
    and "reaches (task_step code) s1 s2"
  shows "handled s2 = handled s \<and> clients s2 (loop_thread code) \<noteq> Outside"
proof -
  let ?sd = "\<lparr>sender_response = Some (next_response s), sent_flag = True\<rparr>"
  let ?c = "make_content External req (Some (next_response s))"
  have inv: "task_inv s" by (rule task_inv_reachable [OF assms(1)])
  have "responses s (next_response s) = None"
  proof (rule ccontr)
    assume "responses s (next_response s) \<noteq> None"
    then obtain d r where "(d, r) \<in> set (handled s)" "response_buffer d = Some (next_response s)"
      using inv unfolding task_inv_def flow_inv_def answered_def by blast
    then have "next_response s \<in> set (response_ids (posted s))"
      using inv by (force simp: task_inv_def flow_inv_def in_order_def in_response_ids)
    then show False using inv unfolding task_inv_def flow_inv_def own_response_def by blast
  qed
  with assms(2) have "clients s1 (loop_thread code) = Waiting Calling ?sd kWaitForever ?c"
      "wait_for_response (responses s1) ?sd kWaitForever False = None" "handled s1 = handled s"
    by (auto simp: task_step_def op_defs post_eq wait_for_response_def kWaitForever_def split: if_splits)
  with self_wait.inv_reaches [OF assms(3), of Calling ?sd ?c "handled s"] show ?thesis by simp
qed

theorem task_self_rpc_deadlocks_witness:
  "\<exists>(s :: (8 word, unit, unit, unit, nat) event_task) s1. taken s \<noteq> None \<and>
     (\<forall>s2. reaches (task_step counting_code) s1 s2 \<longrightarrow> handled s2 = handled s)"
proof -
  let ?schedule = "[Send_Event 1 (request_plain [] 3), Receive_Message]"
  obtain s s1 where s: "task_schedule counting_code counting_task ?schedule = Some s" "taken s \<noteq> None"
      and s1: "task_step counting_code s (Rpc_Event (loop_thread counting_code) (request_plain [] 4) kWaitForever) s1"
    by (simp add: counting_defs task_eval task_step_def)
  from task_self_rpc_deadlocks [OF task_schedule_reaches [OF s(1) [unfolded counting_task_def]] s1] s(2)
  show ?thesis by blast
qed

section \<open>The loop handles what is queued\<close>

definition loop_round :: "('n::len word, 'v, 'a, 'k) task_action list" where
  "loop_round = [Receive_Message, Process_Message]"

lemma round_handles:
  assumes q: "message_queue s = c # q" and free: "taken s = None" "clients s (loop_thread code) = Outside"
    and going: "\<not> stopped s" "\<not> loop_done s" "\<not> terminated s" and flow: "flow_inv s" and ns: "\<not> is_stop c"
  obtains s' r where "run (task_step code) s loop_round s'" "message_queue s' = q" "taken s' = None"
    "clients s' = clients s" "\<not> stopped s'" "\<not> loop_done s'" "\<not> terminated s'" "flow_inv s'"
    "handled s' = handled s @ [(c, r)]" "posted s' = posted s"
proof -
  let ?s1 = "s\<lparr>message_queue := q, taken := Some c\<rparr>"
  have recv: "task_step code s Receive_Message ?s1"
    using q free going by (simp add: task_step_def loop_receive_def)
  obtain r s2 where run: "run_content code c ?s1 = (r, s2)" by fastforce
  let ?s' = "(fulfil c r s2)\<lparr>taken := None, handled := handled s @ [(c, r)]\<rparr>"
  have proc: "task_step code ?s1 Process_Message ?s'"
    using run free going by (simp add: task_step_def loop_process_def)
  have flow1: "flow_inv ?s1" by (rule flow_inv_step [OF recv flow])
  have "loop_process code ?s1 = Some ?s'" using proc going by (simp add: task_step_def)
  from flow_inv_process [OF flow1 this] have "flow_inv ?s'" "\<not> terminated ?s'" using going by simp_all
  moreover have "run (task_step code) s loop_round ?s'"
    unfolding loop_round_def using recv proc by blast
  moreover have "message_queue ?s' = q \<and> clients ?s' = clients s \<and> posted ?s' = posted s \<and> \<not> loop_done ?s' \<and> \<not> stopped ?s'"
    using run_content_frame [OF run] run_content_stops [OF run] going ns
    by (auto simp: fulfil_def split: option.split)
  ultimately show ?thesis using that [of ?s' r] by simp
qed

lemma loop_drains:
  assumes "taken s = None" "clients s (loop_thread code) = Outside" "\<not> stopped s" "\<not> loop_done s"
    "\<not> terminated s" "flow_inv s" "list_all (\<lambda>c. \<not> is_stop c) (message_queue s)"
  shows "\<exists>s'. run (task_step code) s (concat (replicate (length (message_queue s)) loop_round)) s' \<and>
    message_queue s' = [] \<and> taken s' = None \<and> posted s' = posted s \<and> flow_inv s' \<and> \<not> stopped s'"
  using assms
proof (induction "message_queue s" arbitrary: s)
  case (Cons c q)
  then obtain s1 r where s1: "run (task_step code) s loop_round s1" "message_queue s1 = q" "taken s1 = None"
      "clients s1 = clients s" "\<not> stopped s1" "\<not> loop_done s1" "\<not> terminated s1" "flow_inv s1"
      "handled s1 = handled s @ [(c, r)]" "posted s1 = posted s"
    using round_handles [of s c q code] by (metis list.pred_inject(2))
  with Cons.hyps(1) [of s1] Cons.prems Cons.hyps(2) obtain s' where
    "run (task_step code) s1 (concat (replicate (length q) loop_round)) s'"
    "message_queue s' = []" "taken s' = None" "posted s' = posted s" "flow_inv s'" "\<not> stopped s'"
    by (metis list.pred_inject(2))
  with run_append [OF s1(1)] Cons.hyps(2) [symmetric] show ?case by auto
qed auto

text \<open>
  C5: from every reachable state in which the loop is between two messages and no stop command is
  queued, the loop thread's own steps, two for each message queued, handle everything that was
  posted and answer every caller, whatever the handlers return or throw.
\<close>

theorem task_answers_everyone:
  assumes "reaches (task_step code) (make_task code ty name agg w) s" and "taken s = None"
    and "clients s (loop_thread code) = Outside" and "\<not> stopped s"
    and "list_all (\<lambda>c. \<not> is_stop c) (message_queue s)"
  shows "\<exists>s'. run (task_step code) s (concat (replicate (length (message_queue s)) loop_round)) s' \<and>
    map fst (handled s') = posted s \<and> list_all (\<lambda>i. responses s' i \<noteq> None) (response_ids (posted s))"
proof -
  have inv: "flow_inv s" "stop_inv s"
    using task_inv_reachable [OF assms(1)] by (simp_all add: task_inv_def)
  then have "\<not> loop_done s" "\<not> terminated s" using assms(4) by (auto simp: stop_inv_def)
  from loop_drains [OF assms(2-4) this inv(1) assms(5)] obtain s' where
    s': "run (task_step code) s (concat (replicate (length (message_queue s)) loop_round)) s'"
      "message_queue s' = []" "taken s' = None" "posted s' = posted s" "flow_inv s'" by blast
  then have h: "map fst (handled s') = posted s"
    by (simp add: flow_inv_def in_order_def in_hand_def)
  have "responses s' i \<noteq> None" if i: "i \<in> set (response_ids (posted s))" for i
  proof -
    from i h obtain c r where "(c, r) \<in> set (handled s')" "response_buffer c = Some i"
      unfolding in_response_ids by (metis (no_types, lifting) image_iff list.set_map prod.collapse)
    with s'(5) show ?thesis unfolding flow_inv_def answered_def by (metis option.distinct(1))
  qed
  with s'(1) h show ?thesis by (auto simp: list_all_iff)
qed

theorem task_answers_everyone_witness:
  "\<exists>(s :: (8 word, unit, unit, unit, nat) event_task) s'. message_queue s \<noteq> [] \<and>
     reaches (task_step counting_code) s s' \<and> map fst (handled s') = posted s"
proof -
  let ?schedule = "[Rpc_Event 1 (request_plain [] 3) 0, Start 2]"
  obtain s where s: "task_schedule counting_code counting_task ?schedule = Some s" "taken s = None"
      "clients s (loop_thread counting_code) = Outside" "\<not> stopped s"
      "list_all (\<lambda>c. \<not> is_stop c) (message_queue s)" "message_queue s \<noteq> []"
    by (simp add: counting_defs task_eval)
  from task_answers_everyone [OF task_schedule_reaches [OF s(1) [unfolded counting_task_def]] s(2-5)] s(6)
  show ?thesis by (blast intro: reachesI)
qed

section \<open>What a task asks of its aggregator\<close>

text \<open>
  A property of aggregators that \<^verbatim>\<open>publish\<close> keeps. Every external
  message is then published on an aggregator with the property, as long as a derived class that
  reaches for \<^verbatim>\<open>aggregator()\<close> keeps it too.
\<close>

definition published ::
  "('c, 'v, 'a, 'k, 'w) task_code \<Rightarrow> ('a \<Rightarrow> bool) \<Rightarrow> ('c, 'v) message_content \<times> ('v, bool) result \<Rightarrow> bool"
where
  "published code good = (\<lambda>(c, r). attribute c = Internal \<or>
     (\<exists>a w a' w'. good a \<and> publish code a (get_command (content_request c)) (content_request c) w = (r, a', w')))"

locale task_aggregator =
  fixes code :: "('n::len word, 'v, 'a, 'k, 'w) task_code"
    and good :: "'a \<Rightarrow> bool"
  assumes publish_good: "good a \<Longrightarrow> publish code a cmd req w = (r, a', w') \<Longrightarrow> good a'"
begin

lemma run_content_good:
  assumes "good (aggregator s)" and "run_content code c s = (r, s')"
  shows "good (aggregator s') \<and> published code good (c, r)"
  using assms publish_good
  by (auto simp: run_content_def process_internal_command_def process_event_def published_def is_internal_def Let_def
      split: if_splits option.splits prod.splits sum.splits)

lemma fulfil_aggregator [simp]: "aggregator (fulfil c r s) = aggregator s" "handled (fulfil c r s) = handled s"
  by (simp_all add: fulfil_def split: option.split)

lemma good_step:
  assumes "task_step code s l s'" and "\<forall>a. l = Access a \<longrightarrow> good a"
    and "good (aggregator s) \<and> list_all (published code good) (handled s)"
  shows "good (aggregator s') \<and> list_all (published code good) (handled s')"
proof -
  have alive: "\<not> terminated s" using assms(1) by (auto simp: task_step_def)
  show ?thesis
  proof (cases "l = Process_Message")
    case True
    with assms(1,3) alive run_content_good show ?thesis
      by (auto simp: task_step_def loop_process_def split: option.splits if_splits prod.splits)
  next
    case False
    with assms alive show ?thesis
      by (cases l) (auto simp: task_step_def op_defs post_eq
          split: if_splits option.splits prod.splits sum.splits client.splits)
  qed
qed

end

sublocale task_aggregator \<subseteq> kept: step_invariant "task_step code" "\<lambda>l. \<forall>a. l = Access a \<longrightarrow> good a"
  "\<lambda>s. good (aggregator s) \<and> list_all (published code good) (handled s)"
  by unfold_locales (rule good_step)

end
