(* ===== verification/Task_Server.thy ===== *)
theory Task_Server
  imports Event_Task
begin

text \<open>
  What an event task is for its clients: a sequential server. The reference takes the list of the
  messages posted and works it off, one after the other, with the hook given for the start command;
  the threads, the queue, the loop and the promises of \<^verbatim>\<open>include/Task/EventTaskBase.hpp\<close> do not
  occur in it. Every run of a task gives the results, the aggregator and the world of the reference.
\<close>

section \<open>The reference\<close>

definition start_command :: "('n::len word, 'v) request \<Rightarrow> bool" where
  "start_command req = (ucast (get_command req) = kStart)"

fun handle_content ::
  "('n::len word, 'v, 'a, 'k, 'w) task_code \<Rightarrow> 'k option \<Rightarrow> ('n word, 'v) message_content \<Rightarrow> 'a \<times> 'w
   \<Rightarrow> ('v, bool) result \<times> 'a \<times> 'w"
where
  "handle_content code hook c (a, w) =
     (if attribute c \<noteq> Internal then publish code a (command (content_request c)) (content_request c) w
      else case (if start_command (content_request c) then hook else None) of
        None \<Rightarrow> (Inr True, a, w)
      | Some k \<Rightarrow> (case run_hook code k w of
          (Inr _, w') \<Rightarrow> (Inr True, a, w')
        | (Inl e, w') \<Rightarrow> (Inl e, a, w')))"

definition serve ::
  "('n::len word, 'v, 'a, 'k, 'w) task_code \<Rightarrow> 'k option \<Rightarrow> ('n word, 'v) message_content list \<Rightarrow> 'a \<times> 'w
   \<Rightarrow> ('v, bool) result list \<times> 'a \<times> 'w"
where
  "serve code hook = exec_all (handle_content code hook)"

declare handle_content.simps [simp del]

text \<open>The end of the loop runs the other hook.\<close>

definition wind_up ::
  "('c, 'v, 'a, 'k, 'w) task_code \<Rightarrow> 'k option \<Rightarrow> bool \<Rightarrow> ('v, bool) result list \<times> 'a \<times> 'w
   \<Rightarrow> ('v, bool) result list \<times> 'a \<times> 'w"
where
  "wind_up code hook ended = (\<lambda>(rs, a, w).
     (rs, a, case hook of Some k \<Rightarrow> if ended then snd (run_hook code k w) else w | None \<Rightarrow> w))"

lemma wind_up_simps [simp]:
  "wind_up code hook False x = x"
  "wind_up code None ended x = x"
  "wind_up code (Some k) True (rs, a, w) = (rs, a, snd (run_hook code k w))"
  by (auto simp: wind_up_def split: prod.splits option.splits)

lemma run_content_handles:
  "run_content code c s = (r, s') \<Longrightarrow>
     handle_content code (on_start s) c (aggregator s, world s) = (r, aggregator s', world s')"
  by (auto simp: handle_content.simps run_content_def process_internal_command_def process_event_def start_command_def
      is_internal_def get_command_def Let_def split: if_splits option.splits prod.splits sum.splits)

section \<open>Every run is a run of the reference\<close>

text \<open>A step that changes the task's hooks, or its aggregator from outside the loop.\<close>

fun reconfigures :: "('c, 'v, 'a, 'k) task_action \<Rightarrow> bool" where
  "reconfigures (Access a) = True"
| "reconfigures (Set_On_Start hook) = True"
| "reconfigures (Set_On_Finish hook) = True"
| "reconfigures l = False"

definition serving ::
  "('n::len word, 'v, 'a, 'k, 'w) task_code \<Rightarrow> 'k option \<Rightarrow> 'k option \<Rightarrow> 'a \<times> 'w
   \<Rightarrow> ('n word, 'v, 'a, 'k, 'w) event_task \<Rightarrow> bool"
where
  "serving code h1 h2 st0 s \<longleftrightarrow> on_start s = h1 \<and> on_finish s = h2 \<and>
     (map snd (handled s), aggregator s, world s) =
       wind_up code h2 (loop_done s \<or> terminated s) (serve code h1 (map fst (handled s)) st0)"

lemma serving_process:
  assumes p: "loop_process code s = Some s'" and inv: "task_inv s" and sv: "serving code h1 h2 st0 s"
    and alive: "\<not> terminated s"
  shows "serving code h1 h2 st0 s'"
proof -
  from p obtain c where c: "taken s = Some c" by (auto simp: loop_process_def split: option.splits)
  obtain r s1 where run: "run_content code c s = (r, s1)" by fastforce
  have s': "s' = (fulfil c r s1)\<lparr>taken := None, handled := handled s @ [(c, r)]\<rparr>"
    using p c run by (auto simp: loop_process_def split: if_splits)
  have going: "\<not> loop_done s" using inv c by (auto simp: task_inv_def stop_inv_def)
  have "\<not> terminated s'" using flow_inv_process [OF _ p] inv alive by (simp add: task_inv_def)
  moreover have "aggregator s' = aggregator s1" "world s' = world s1" "loop_done s' = loop_done s"
    "on_start s' = on_start s" "on_finish s' = on_finish s"
    using run_content_frame [OF run] unfolding s' by (simp_all add: fulfil_def split: option.split)
  moreover have "serve code h1 (map fst (handled s)) st0 = (map snd (handled s), aggregator s, world s)"
    using sv going alive by (simp add: serving_def)
  ultimately show ?thesis
    using run_content_handles [OF run] sv going by (simp add: serving_def serve_def exec_all_snoc s')
qed

lemma serving_step:
  assumes st: "task_step code s l s'" and "\<not> reconfigures l" and inv: "task_inv s" and sv: "serving code h1 h2 st0 s"
  shows "serving code h1 h2 st0 s'"
proof -
  have alive: "\<not> terminated s" using st by (auto simp: task_step_def)
  show ?thesis
  proof (cases l)
    case Process_Message
    with st alive serving_process [OF _ inv sv] show ?thesis by (auto simp: task_step_def)
  next
    case Finish_Loop
    with st sv alive show ?thesis
      by (auto simp: task_step_def loop_finish_def serving_def wind_up_def split: if_splits option.splits prod.splits sum.splits)
  qed (use assms alive in \<open>auto simp: task_step_def op_defs post_eq serving_def
        split: if_splits option.splits prod.splits client.splits\<close>)
qed

interpretation server: step_invariant "task_step code" "\<lambda>l. \<not> reconfigures l"
  "\<lambda>s. task_inv s \<and> serving code h1 h2 st0 s"
  for code :: "('n::len word, 'v, 'a, 'k, 'w) task_code" and h1 h2 st0
  by unfold_locales (blast intro: serving_step task.inv_step)

text \<open>A task as its derived class's constructor leaves it.\<close>

definition configured_task ::
  "('c, 'v, 'a, 'k, 'w) task_code \<Rightarrow> task_type \<Rightarrow> string \<Rightarrow> 'k option \<Rightarrow> 'k option \<Rightarrow> 'a \<Rightarrow> 'w
   \<Rightarrow> ('c, 'v, 'a, 'k, 'w) event_task"
where
  "configured_task code ty name h1 h2 agg w = set_on_finish h2 (set_on_start h1 (make_task code ty name agg w))"

lemma configured_task_serves:
  "task_inv (configured_task code ty name h1 h2 agg w) \<and>
     serving code h1 h2 (agg, w) (configured_task code ty name h1 h2 agg w)"
proof
  let ?s = "make_task code ty name agg w"
  have "run (task_step code) ?s [Set_On_Start h1, Set_On_Finish h2] (configured_task code ty name h1 h2 agg w)"
    by (simp add: run_Cons_iff task_step_def configured_task_def set_on_start_def make_task_def task_base.extend_def)
  then show "task_inv (configured_task code ty name h1 h2 agg w)"
    by (blast intro: task_inv_reachable reachesI)
qed (simp add: configured_task_def set_on_start_def set_on_finish_def serving_def serve_def make_task_def task_base.extend_def)

text \<open>
  In every run of a task whose hooks are set before its threads use it and whose aggregator only
  its loop touches, the results given, the aggregator and the world are those of the sequential
  reference on the messages handled, which are a prefix of those posted.
\<close>

theorem task_is_sequential_server:
  assumes "run (task_step code) (configured_task code ty name h1 h2 agg w0) ls s"
    and "list_all (\<lambda>l. \<not> reconfigures l) ls"
  shows "(map snd (handled s), aggregator s, world s) =
    wind_up code h2 (loop_done s \<or> terminated s)
      (serve code h1 (take (length (handled s)) (posted s)) (agg, w0))"
proof -
  have "task_inv s" "serving code h1 h2 (agg, w0) s"
    using server.inv_run [OF assms(1), of h1 h2 "(agg, w0)"] assms(2)
      configured_task_serves [of code ty name h1 h2 agg w0] by (auto simp: list_all_iff)
  then show ?thesis by (simp add: serving_def task_inv_def flow_inv_def in_order_def)
qed

text \<open>A task whose handlers count and whose start hook adds ten.\<close>

definition hooked_code :: "(8 word, unit, unit, unit, nat) task_code" where
  "hooked_code =
     \<lparr>publish = (\<lambda>agg cmd req n. (Inr True, agg, Suc n)), run_hook = (\<lambda>hook n. (Inr (), n + 10)), loop_thread = 0\<rparr>"

theorem task_is_sequential_server_witness:
  "\<exists>s :: (8 word, unit, unit, unit, nat) event_task.
     length (handled s) = length (posted s) \<and> map snd (handled s) = [Inr True, Inr True] \<and> world s = 11"
proof -
  let ?task = "configured_task hooked_code Message_Task ''counter'' (Some ()) None () 0"
  let ?schedule = "[Start 1, Send_Event 2 (request_plain [] 3),
    Receive_Message, Process_Message, Receive_Message, Process_Message]"
  obtain s where s: "task_schedule hooked_code ?task ?schedule = Some s"
      "posted s = [make_content Internal (request_plain [] 0) (Some 0), make_content External (request_plain [] 3) None]"
      "length (handled s) = length (posted s)"
    by (simp add: hooked_code_def configured_task_def task_eval)
  have serve: "serve hooked_code (Some ()) (posted s) ((), 0) = ([Inr True, Inr True], (), 11)"
    by (simp add: s(2) serve_def hooked_code_def make_content_def request_plain_def start_command_def get_command_def
        kStart_def handle_content.simps)
  have "(map snd (handled s), aggregator s, world s) =
      wind_up hooked_code None (loop_done s \<or> terminated s)
        (serve hooked_code (Some ()) (take (length (handled s)) (posted s)) ((), 0))"
    by (rule task_is_sequential_server [OF task_schedule_run [OF s(1)]]) simp
  also have "\<dots> = ([Inr True, Inr True], (), 11)" by (simp only: s(3) take_all order_refl serve wind_up_simps)
  finally show ?thesis using s(3) by (intro exI [of _ s]) simp
qed

end
