(* ===== verification/Message_Task.thy ===== *)
theory Message_Task
  imports Task_Server
begin

text \<open>
  \<^verbatim>\<open>include/Task/MessageTask.hpp\<close>: an event task whose aggregator is the table of handlers
  given to its constructor. Its runs are runs of a dispatcher that takes the messages one by one.
\<close>

section \<open>The task\<close>

definition message_task_code ::
  "('c, 'v, 'h, 'w) invoke \<Rightarrow> ('k \<Rightarrow> 'w \<Rightarrow> ('v, unit) result \<times> 'w) \<Rightarrow> tid
   \<Rightarrow> ('c, 'v, ('c, 's, 'h) event_map, 'k, 'w) task_code"
where
  "message_task_code invoke hooks loop =
     \<lparr>publish = (\<lambda>events cmd req w. case agg_publish invoke events cmd req w of (r, w') \<Rightarrow> (r, events, w')),
      run_hook = hooks, loop_thread = loop\<rparr>"

definition make_message_task ::
  "('c, 'v, 'h, 'w) invoke \<Rightarrow> ('k \<Rightarrow> 'w \<Rightarrow> ('v, unit) result \<times> 'w) \<Rightarrow> tid \<Rightarrow> string
   \<Rightarrow> ('c, 's, 'h) event_map \<Rightarrow> 'w \<Rightarrow> ('c, 'v, ('c, 's, 'h) event_map, 'k, 'w) event_task"
where
  "make_message_task invoke hooks loop name events w =
     make_task (message_task_code invoke hooks loop) Message_Task name (agg_create events) w"

interpretation message_task: task_aggregator "message_task_code invoke hooks loop" "\<lambda>a. a = events"
  for invoke :: "('n::len word, 'v, 'h, 'w) invoke" and hooks :: "'k \<Rightarrow> 'w \<Rightarrow> ('v, unit) result \<times> 'w"
    and loop and events :: "('n word, 's, 'h) event_map"
  by unfold_locales (auto simp: message_task_code_def split: prod.splits)

text \<open>
  A message task answers by its handler table: in every run, each external message was handled
  with what publishing it on the table given to the constructor returned or threw.
\<close>

theorem message_task_handles_by_table:
  fixes events :: "('n::len word, 's, 'h) event_map"
  assumes "run (task_step (message_task_code invoke hooks loop)) (make_message_task invoke hooks loop name events w0) ls s"
    and "list_all (\<lambda>l. \<forall>a. l \<noteq> Access a) ls" and "(c, r) \<in> set (handled s)" and "attribute c \<noteq> Internal"
  shows "\<exists>w w'. agg_publish invoke events (get_command (content_request c)) (content_request c) w = (r, w')"
proof -
  have "list_all (published (message_task_code invoke hooks loop) (\<lambda>a. a = events)) (handled s)"
    using message_task.kept.inv_run [OF assms(1), of events] assms(2)
    by (simp add: list_all_iff make_message_task_def make_task_def task_base.extend_def agg_create_def)
  with assms(3) have "published (message_task_code invoke hooks loop) (\<lambda>a. a = events) (c, r)"
    by (simp add: list_all_iff)
  with assms(4) obtain w a' w' where
    "publish (message_task_code invoke hooks loop) events (get_command (content_request c)) (content_request c) w = (r, a', w')"
    unfolding published_def by blast
  then show ?thesis by (auto simp: message_task_code_def split: prod.splits)
qed

definition saying_no :: "(8 word, unit, unit, nat) invoke" where
  "saying_no = (\<lambda>h req n. (Inr False, Suc n))"

theorem message_task_handles_by_table_witness:
  "\<exists>w w'. agg_publish saying_no [3 \<mapsto> \<lparr>info_handler = (), info_next_state = (0 :: int)\<rparr>] 3 (request_plain [] 3) w
     = (Inr False, w')"
proof -
  let ?events = "[3 \<mapsto> \<lparr>info_handler = (), info_next_state = (0 :: int)\<rparr>] :: (8 word, int, unit) event_map"
  let ?hooks = "\<lambda>(hook :: unit) n. (Inr (), n)"
  let ?schedule = "[Send_Event 1 (request_plain [] 3), Receive_Message, Process_Message]"
  obtain s where s: "task_schedule (message_task_code saying_no ?hooks 0)
        (make_message_task saying_no ?hooks 0 ''no'' ?events 7) ?schedule = Some s"
      "handled s = [(make_content External (request_plain [] 3) None, Inr False)]"
    by (simp add: task_eval make_message_task_def message_task_code_def agg_create_def agg_publish_def
        handle_def saying_no_def)
  from message_task_handles_by_table [OF task_schedule_run [OF s(1)],
      of "make_content External (request_plain [] 3) None" "Inr False"] s(2)
  show ?thesis by (simp add: make_content_def get_command_def request_plain_def)
qed

section \<open>A message task is a dispatcher\<close>

text \<open>What the task owes for one message, and for a list of them.\<close>

definition dispatch ::
  "('n::len word, 'v, 'h, 'w) invoke \<Rightarrow> ('k \<Rightarrow> 'w \<Rightarrow> ('v, unit) result \<times> 'w) \<Rightarrow> 'k option
   \<Rightarrow> ('n word, 's, 'h) event_map \<Rightarrow> ('n word, 'v) message_content \<Rightarrow> 'w \<Rightarrow> ('v, bool) result \<times> 'w"
where
  "dispatch invoke hooks hook events c w =
     (if attribute c \<noteq> Internal then agg_publish invoke events (command (content_request c)) (content_request c) w
      else case (if start_command (content_request c) then hook else None) of
        None \<Rightarrow> (Inr True, w)
      | Some k \<Rightarrow> (case hooks k w of
          (Inr _, w') \<Rightarrow> (Inr True, w')
        | (Inl e, w') \<Rightarrow> (Inl e, w')))"

definition dispatch_all ::
  "('n::len word, 'v, 'h, 'w) invoke \<Rightarrow> ('k \<Rightarrow> 'w \<Rightarrow> ('v, unit) result \<times> 'w) \<Rightarrow> 'k option
   \<Rightarrow> ('n word, 's, 'h) event_map \<Rightarrow> ('n word, 'v) message_content list \<Rightarrow> 'w \<Rightarrow> ('v, bool) result list \<times> 'w"
where
  "dispatch_all invoke hooks hook events = exec_all (dispatch invoke hooks hook events)"

interpretation dispatcher: functional_refinement
  "handle_content (message_task_code invoke hooks loop) hook" "dispatch invoke hooks hook events" snd "\<lambda>(e, w). e = events"
  for invoke :: "('n::len word, 'v, 'h, 'w) invoke" and hooks :: "'k \<Rightarrow> 'w \<Rightarrow> ('v, unit) result \<times> 'w"
    and loop hook and events :: "('n word, 's, 'h) event_map"
  by unfold_locales
    (auto simp: handle_content.simps dispatch_def message_task_code_def split: prod.splits option.splits sum.splits if_splits)

lemma serve_dispatch:
  assumes "serve (message_task_code invoke hooks loop) hook cs (events, w) = (rs, a, w')"
  shows "a = events \<and> dispatch_all invoke hooks hook events cs w = (rs, w')"
  using dispatcher.exec_all_spec [OF _ assms [unfolded serve_def], of events] by (simp add: dispatch_all_def)

lemma configured_message_task:
  "configured_task (message_task_code invoke hooks loop) Message_Task name hook fin (agg_create events) w =
     set_on_finish fin (set_on_start hook (make_message_task invoke hooks loop name events w))"
  by (simp add: configured_task_def make_message_task_def)

text \<open>
  C4: a message task is equivalent to a dispatcher without threads: in every run, until the loop
  has ended, the results of the messages handled and the world are those of dispatching the first
  messages posted, as many as were handled, one after the other through the constructor's table;
  what a handler throws, and the exception for a command without entry, stay with their message.
\<close>

theorem message_task_is_dispatcher:
  fixes events :: "('n::len word, 's, 'h) event_map"
  assumes "run (task_step (message_task_code invoke hooks loop))
      (set_on_finish fin (set_on_start hook (make_message_task invoke hooks loop name events w0))) ls s"
    and "list_all (\<lambda>l. \<not> reconfigures l) ls" and "\<not> loop_done s" and "\<not> terminated s"
  shows "(map snd (handled s), world s) =
    dispatch_all invoke hooks hook events (take (length (handled s)) (posted s)) w0"
proof -
  let ?code = "message_task_code invoke hooks loop"
  have "serve ?code hook (take (length (handled s)) (posted s)) (events, w0) = (map snd (handled s), aggregator s, world s)"
    using task_is_sequential_server [OF assms(1) [folded configured_message_task] assms(2)] assms(3,4)
    by (simp add: agg_create_def)
  from serve_dispatch [OF this] show ?thesis by simp
qed

theorem message_task_is_dispatcher_witness:
  "\<exists>s. map snd (handled s) = [throw ''Event not found'' OutOfRange, Inr False] \<and>
     world (s :: (8 word, unit, (8 word, int, unit) event_map, unit, nat) event_task) = 8"
proof -
  let ?events = "[3 \<mapsto> \<lparr>info_handler = (), info_next_state = (0 :: int)\<rparr>] :: (8 word, int, unit) event_map"
  let ?hooks = "\<lambda>(hook :: unit) (n :: nat). (Inr () :: unit exn + unit, n)"
  let ?code = "message_task_code saying_no ?hooks 0"
  let ?schedule = "[Send_Event 1 (request_plain [] 4), Send_Event 1 (request_plain [] 3), Receive_Message,
    Process_Message, Receive_Message, Process_Message]"
  obtain s where s: "task_schedule ?code 
        (set_on_finish None (set_on_start None (make_message_task saying_no ?hooks 0 ''no'' ?events 7))) ?schedule = Some s"
      "posted s = [make_content External (request_plain [] 4) None, make_content External (request_plain [] 3) None]"
      "length (handled s) = length (posted s)" "\<not> loop_done s" "\<not> terminated s"
    by (simp add: make_message_task_def task_eval message_task_code_def agg_create_def agg_publish_def
        handle_def saying_no_def)
  have "(map snd (handled s), world s) =
      dispatch_all saying_no ?hooks None ?events (take (length (handled s)) (posted s)) 7"
    by (rule message_task_is_dispatcher [OF task_schedule_run [OF s(1)] _ s(4,5)]) simp
  also have "\<dots> = ([throw ''Event not found'' OutOfRange, Inr False], 8)"
    by (simp add: s(2,3) dispatch_all_def dispatch_def make_content_def request_plain_def agg_publish_def handle_def saying_no_def)
  finally show ?thesis by (intro exI [of _ s]) simp
qed

end
