(* ===== verification/Task_Stop.thy ===== *)
theory Task_Stop
  imports Event_Task
begin

text \<open>
  \<^verbatim>\<open>EventTaskBase::stop()\<close> from the caller's side: it posts the stop command, waits for its
  answer and joins the loop thread (\<^verbatim>\<open>include/Task/EventTaskBase.hpp\<close>). \<open>Event_Task\<close> shows the
  stops that never return; here, that the first one does.
\<close>

section \<open>The work of the loop thread\<close>

fun loop_label :: "('c, 'v, 'a, 'k) task_action \<Rightarrow> bool" where
  "loop_label Receive_Message = True"
| "loop_label Process_Message = True"
| "loop_label Finish_Loop = True"
| "loop_label l = False"

definition loop_work :: "('c, 'v, 'a, 'k, 'w) event_task \<Rightarrow> nat" where
  "loop_work s = 2 * length (handled s) + (if taken s = None then 0 else 1) + (if loop_done s \<or> terminated s then 1 else 0)"

text \<open>Each step of the loop thread is one unit of work, and nobody else does any of it.\<close>

lemma loop_work_step:
  assumes st: "task_step code s l s'" and inv: "task_inv s"
  shows "loop_work s' = loop_work s + (if loop_label l then 1 else 0)"
proof -
  have alive: "\<not> terminated s" using st by (auto simp: task_step_def)
  show ?thesis
  proof (cases l)
    case Process_Message
    with st alive obtain c where c: "taken s = Some c" by (auto simp: task_step_def loop_process_def split: option.splits)
    have p: "loop_process code s = Some s'" using Process_Message st alive by (simp add: task_step_def)
    obtain r s1 where run: "run_content code c s = (r, s1)" by fastforce
    have s': "s' = (fulfil c r s1)\<lparr>taken := None, handled := handled s @ [(c, r)]\<rparr>"
      using p c run by (auto simp: loop_process_def split: if_splits)
    have "loop_done s' = loop_done s"
      using run_content_frame [OF run] unfolding s' by (simp add: fulfil_def split: option.split)
    moreover have "terminated s' = terminated s" using flow_inv_process [OF _ p] inv by (simp add: task_inv_def)
    moreover have "handled s' = handled s @ [(c, r)]" "taken s' = None" by (simp_all add: s')
    ultimately show ?thesis using c Process_Message by (simp add: loop_work_def)
  qed (use st alive in \<open>auto simp: task_step_def op_defs post_eq loop_work_def
        split: if_splits option.splits prod.splits sum.splits client.splits\<close>)
qed

lemma loop_work_run:
  assumes "run (task_step code) s ls s'" and "task_inv s"
  shows "loop_work s' = loop_work s + length (filter loop_label ls)"
  using assms
proof (induction rule: run.induct)
  case (run_cons s l t ls u)
  with loop_work_step [OF run_cons.hyps(1)] task.inv_step [OF run_cons.hyps(1)] show ?case by simp
qed simp

section \<open>A thread inside stop\<close>

definition inside_stop :: "('c, 'v, 'a, 'k, 'w) event_task \<Rightarrow> tid \<Rightarrow> bool" where
  "inside_stop s t \<longleftrightarrow> clients s t = Joining \<or> (\<exists>sd ms c. clients s t = Waiting Stopping sd ms c)"

text \<open>A stop command is answered with \<^verbatim>\<open>true\<close>.\<close>

definition stops_succeed :: "('n::len word, 'v, 'a, 'k, 'w) event_task \<Rightarrow> bool" where
  "stops_succeed s \<longleftrightarrow> (\<forall>(c, r) \<in> set (handled s). is_stop c \<longrightarrow> r = Inr True)"

lemma run_content_stop: "is_stop c \<Longrightarrow> fst (run_content code c s) = Inr True"
  by (auto simp: is_stop_def run_content_def process_internal_command_def Let_def kStart_def kStop_def)

text \<open>
  Thread \<open>t\<close> has posted the stop command \<open>c\<close>, the first of all, and is inside \<^verbatim>\<open>stop\<close> or
  has left it with the thread joined.
\<close>

definition stopping ::
  "tid \<Rightarrow> response \<Rightarrow> ('n::len word, 'v) message_content list \<Rightarrow> ('n word, 'v) message_content
   \<Rightarrow> ('n word, 'v, 'a, 'k, 'w) event_task \<Rightarrow> bool"
where
  "stopping t i before c s \<longleftrightarrow>
     (\<exists>after. posted s = before @ c # after) \<and>
     (clients s t = Waiting Stopping \<lparr>sender_response = Some i, sent_flag = True\<rparr> kWaitForever c \<or>
      clients s t = Joining \<and> stopped s \<or> \<not> inside_stop s t \<and> thread s = None)"

lemma stops_succeed_step:
  assumes st: "task_step code s l s'" and "stops_succeed s"
  shows "stops_succeed s'"
proof (cases "l = Process_Message")
  case True
  with st obtain c where c: "taken s = Some c" by (auto simp: task_step_def loop_process_def split: if_splits option.splits)
  obtain r s1 where run: "run_content code c s = (r, s1)" by fastforce
  with True c st have "handled s' = handled s @ [(c, r)]" by (auto simp: task_step_def loop_process_def split: if_splits)
  with assms(2) run_content_stop [of c code s] run show ?thesis by (auto simp: stops_succeed_def)
next
  case False
  with only_process_answers [OF st] assms(2) show ?thesis by (simp add: stops_succeed_def)
qed

lemma own_stop_answered:
  assumes inv: "task_inv s" and good: "stops_succeed s" and c: "c \<in> set (posted s)" "is_stop c" "response_buffer c = Some i"
    and r: "responses s i = Some r"
  shows "r = Inr True \<and> stopped s"
proof -
  have flow: "flow_inv s" and stop: "stop_inv s" using inv by (simp_all add: task_inv_def)
  from r flow obtain d where d: "(d, r) \<in> set (handled s)" "response_buffer d = Some i"
    unfolding flow_inv_def answered_def by blast
  then have "d \<in> set (posted s)" using flow by (force simp: flow_inv_def in_order_def)
  with same_response_same_content [of "posted s" c d i] c d flow have "d = c"
    by (auto simp: flow_inv_def own_response_def)
  with d(1) c(2) not_stopped_no_stop [OF stop, of c] good show ?thesis
    unfolding stops_succeed_def by force
qed

lemma stopping_step:
  assumes st: "task_step code s l s'" and inv: "task_inv s" and good: "stops_succeed s"
    and c: "is_stop c" "response_buffer c = Some i" and now: "stopping t i before c s"
  shows "stopping t i before c s'"
proof -
  have alive: "\<not> terminated s" using st by (auto simp: task_step_def)
  obtain after where posted: "posted s = before @ c # after" using now by (auto simp: stopping_def)
  have answered: "r = Inr True \<and> stopped s"
    if "wait_for_response (responses s) \<lparr>sender_response = Some i, sent_flag = True\<rparr> kWaitForever up = Some r" for up r
    using that own_stop_answered [OF inv good _ c] posted
    by (auto simp: wait_for_response_def split: option.splits if_splits)
  show ?thesis
  proof (cases l)
    case (End_Wait u up)
    with st alive now answered show ?thesis
      by (cases "u = t") (auto simp: task_step_def end_wait_def stopping_def inside_stop_def
          split: client.splits option.splits if_splits dest!: answered)
  next
    case Process_Message
    with st alive obtain d where d: "taken s = Some d" by (auto simp: task_step_def loop_process_def split: option.splits)
    obtain r s1 where run: "run_content code d s = (r, s1)" by fastforce
    have s': "s' = (fulfil d r s1)\<lparr>taken := None, handled := handled s @ [(d, r)]\<rparr>"
      using Process_Message st alive d run by (auto simp: task_step_def loop_process_def split: if_splits)
    have "clients s' = clients s" "posted s' = posted s" "thread s' = thread s" "stopped s \<longrightarrow> stopped s'"
      using run_content_frame [OF run] run_content_stops [OF run] unfolding s'
      by (simp_all add: fulfil_def split: option.split)
    with now show ?thesis by (auto simp: stopping_def inside_stop_def)
  qed (use st alive now posted in \<open>auto simp: task_step_def op_defs post_eq stopping_def inside_stop_def may_call_def is_running_def
        split: if_splits option.splits prod.splits sum.splits client.splits\<close>)
qed

interpretation first_stop: unconditional_invariant "task_step code"
  "\<lambda>s. task_inv s \<and> stops_succeed s \<and> is_stop c \<and> response_buffer c = Some i \<and> stopping t i before c s"
  for code :: "('n::len word, 'v, 'a, 'k, 'w) task_code" and t i before c
  by unfold_locales (blast intro: task.inv_step stops_succeed_step stopping_step)

interpretation stop_answers: unconditional_invariant "task_step code" stops_succeed
  for code :: "('n::len word, 'v, 'a, 'k, 'w) task_code"
  by unfold_locales (rule stops_succeed_step)

lemma no_stop_posted:
  assumes "task_inv s" and "list_all (\<lambda>c. \<not> is_stop c) (posted s)"
  shows "\<not> stopped s"
  using cut_at_first_stop [OF assms(1)] assms(2) by fastforce

lemma stop_posts:
  assumes st: "task_step code s (Stop t) s1" and "is_running s"
  shows "stopping t (next_response s) (posted s)
      (make_content Internal (request_plain [] (ucast kStop)) (Some (next_response s))) s1"
    and "loop_work s1 = loop_work s" and "handled s1 = handled s"
  using assms by (auto simp: task_step_def op_defs post_eq stopping_def loop_work_def split: if_splits)

section \<open>The first stop returns\<close>

lemma first_split:
  assumes "xs @ x # ys = xs' @ x' # ys'" and "P x" "P x'" "list_all (\<lambda>y. \<not> P y) xs" "list_all (\<lambda>y. \<not> P y) xs'"
  shows "xs = xs' \<and> x = x'"
proof -
  have "takeWhile (\<lambda>y. \<not> P y) (zs @ z # zs') = zs" if "P z" "list_all (\<lambda>y. \<not> P y) zs" for zs z zs'
    using that by (simp add: takeWhile_append2 list_all_iff)
  from this [OF assms(2,4), of ys] this [OF assms(3,5), of ys'] assms(1) show ?thesis by simp
qed

lemma posted_stop_cuts:
  assumes inv: "task_inv s" and posted: "posted s = before @ c # after" and c: "is_stop c"
    and none: "list_all (\<lambda>d. \<not> is_stop d) before"
  shows "if stopped s then map fst (handled s) = before @ [c] else length (handled s) \<le> length before"
proof (cases "stopped s")
  case True
  with cut_at_first_stop [OF inv] obtain before' c' after' where cut: "posted s = before' @ c' # after'" "is_stop c'"
      "list_all (\<lambda>d. \<not> is_stop d) before'" "map fst (handled s) = before' @ [c']" by blast
  then have "before @ c # after = before' @ c' # after'" using posted by simp
  from first_split [OF this c cut(2) none cut(3)] cut(4) True show ?thesis by simp
next
  case False
  have "in_order s" "stop_inv s" using inv by (simp_all add: task_inv_def flow_inv_def)
  then have order: "map fst (handled s) @ in_hand s @ message_queue s = before @ c # after"
    using posted by (simp add: in_order_def)
  have "\<not> length before < length (handled s)"
  proof
    assume more: "length before < length (handled s)"
    then have "(map fst (handled s) @ in_hand s @ message_queue s) ! length before = map fst (handled s) ! length before"
      by (simp add: nth_append)
    then have "map fst (handled s) ! length before = c" unfolding order by simp
    then have "c \<in> set (map fst (handled s))" using more by (metis length_map nth_mem)
    with not_stopped_no_stop [OF \<open>stop_inv s\<close> False] c show False by blast
  qed
  with False show ?thesis by simp
qed

lemma loop_work_bound:
  assumes "task_inv s" and "posted s = before @ c # after" and "is_stop c" and "list_all (\<lambda>d. \<not> is_stop d) before"
  shows "loop_work s \<le> 2 * length before + 3"
proof -
  have st: "stopped s \<longrightarrow> taken s = None" "loop_done s \<longrightarrow> stopped s" "terminated s \<longrightarrow> stopped s"
    using assms(1) unfolding task_inv_def stop_inv_def by blast+
  show ?thesis
  proof (cases "stopped s")
    case True
    then have "map fst (handled s) = before @ [c]" using posted_stop_cuts [OF assms] by simp
    from arg_cong [OF this, of length] True st show ?thesis by (simp add: loop_work_def)
  next
    case False
    then have "length (handled s) \<le> length before" using posted_stop_cuts [OF assms] by simp
    with False st show ?thesis by (auto simp: loop_work_def)
  qed
qed

text \<open>Inside \<^verbatim>\<open>stop\<close>, the loop thread or the caller can move.\<close>

lemma stopping_progress:
  assumes inv: "task_inv s" and c: "is_stop c" "response_buffer c = Some i" and none: "list_all (\<lambda>d. \<not> is_stop d) before"
    and st: "stopping t i before c s" and inside: "inside_stop s t"
    and alive: "\<not> terminated s" and free: "clients s (loop_thread code) = Outside"
  shows "\<exists>l s'. (loop_label l \<or> l = End_Wait t False \<or> l = End_Join t) \<and> task_step code s l s'"
proof -
  obtain after where posted: "posted s = before @ c # after" using st by (auto simp: stopping_def)
  note cuts = posted_stop_cuts [OF inv posted c(1) none]
  have idle: "stopped s \<Longrightarrow> taken s = None" using inv by (simp add: task_inv_def stop_inv_def)
  consider (join) "clients s t = Joining" "stopped s"
    | (wait) "clients s t = Waiting Stopping \<lparr>sender_response = Some i, sent_flag = True\<rparr> kWaitForever c"
    using st inside by (auto simp: stopping_def)
  then show ?thesis
  proof cases
    case join
    show ?thesis
    proof (cases "loop_done s")
      case True
      with join have "\<exists>s'. task_step code s (End_Join t) s'" using alive by (simp add: task_step_def end_join_def)
      then show ?thesis by blast
    next
      case False
      with join idle free alive have "\<exists>s'. task_step code s Finish_Loop s'"
        by (simp add: task_step_def loop_finish_def)
      then show ?thesis using loop_label.simps(3) by blast
    qed
  next
    case wait
    show ?thesis
    proof (cases "responses s i")
      case (Some r)
      with wait alive have "\<exists>s'. task_step code s (End_Wait t False) s'"
        by (simp add: task_step_def end_wait_def wait_for_response_def)
      then show ?thesis by blast
    next
      case None
      have "\<not> stopped s"
      proof
        assume "stopped s"
        with cuts have "c \<in> set (map fst (handled s))" by simp
        then obtain r where "(c, r) \<in> set (handled s)" by auto
        with inv c(2) None show False unfolding task_inv_def flow_inv_def answered_def by (metis option.distinct(1))
      qed
      then have going: "\<not> stopped s" "\<not> loop_done s" using inv by (auto simp: task_inv_def stop_inv_def)
      show ?thesis
      proof (cases "taken s")
        case (Some d)
        then have "\<exists>s'. task_step code s Process_Message s'"
          using free alive by (simp add: task_step_def loop_process_def split: prod.split)
        then show ?thesis using loop_label.simps(2) by blast
      next
        case taken: None
        have "in_order s" using inv by (simp add: task_inv_def flow_inv_def)
        then have "map fst (handled s) @ message_queue s = before @ c # after"
          using posted taken by (simp add: in_order_def in_hand_def)
        moreover have "length (handled s) \<le> length before" using cuts going by simp
        ultimately have "message_queue s \<noteq> []"
          by (metis append_Nil2 length_append length_map length_Cons less_add_Suc1 not_le add_Suc_right)
        then obtain d q where "message_queue s = d # q" by (cases "message_queue s") auto
        then have "\<exists>s'. task_step code s Receive_Message s'"
          using taken going alive by (simp add: task_step_def loop_receive_def)
        then show ?thesis using loop_label.simps(1) by blast
      qed
    qed
  qed
qed

text \<open>
  C7: the first \<^verbatim>\<open>stop()\<close> of a running task ends. Whatever other threads do meanwhile, the loop
  thread takes at most two steps for each message that was ahead of the command, and three; and at
  every moment the caller has returned with the thread joined, or it or the loop thread can move,
  unless a handler or hook of the loop thread is itself blocked in a call on the task, or the finish
  hook threw and ended the program.
\<close>

theorem task_first_stop_returns:
  assumes "reaches (task_step code) (make_task code ty name agg w) s"
    and "list_all (\<lambda>c. \<not> is_stop c) (posted s)" and "is_running s"
    and "task_step code s (Stop t) s1" and "run (task_step code) s1 ls s2"
  shows "length (filter loop_label ls) \<le> 2 * (length (posted s) - length (handled s)) + 3 \<and>
    (\<not> inside_stop s2 t \<and> \<not> is_running s2 \<or>
     (\<exists>l s3. (loop_label l \<or> l = End_Wait t False \<or> l = End_Join t) \<and> task_step code s2 l s3) \<or>
     terminated s2 \<or> clients s2 (loop_thread code) \<noteq> Outside)"
proof -
  let ?c = "make_content Internal (request_plain [] (ucast kStop)) (Some (next_response s)) :: ('a word, 'b) message_content"
  have c: "is_stop ?c" "response_buffer ?c = Some (next_response s)"
    by (simp_all add: is_stop_def make_content_def is_internal_def request_plain_def get_command_def kStop_def)
  have inv: "task_inv s" by (rule task_inv_reachable [OF assms(1)])
  have "stops_succeed s"
    by (rule stop_answers.inv_reaches [OF assms(1)]) (simp add: stops_succeed_def make_task_def task_base.extend_def)
  then have inv1: "task_inv s1" "stops_succeed s1"
    using task.inv_step [OF assms(4) _ inv] stops_succeed_step [OF assms(4)] by simp_all
  note posts = stop_posts [OF assms(4,3)]
  have inv2: "task_inv s2" "stopping t (next_response s) (posted s) ?c s2"
    using first_stop.inv_reaches [OF reachesI [OF assms(5)], of ?c "next_response s" t "posted s"] inv1 c posts(1) by blast+
  then obtain after where posted: "posted s2 = posted s @ ?c # after" by (auto simp: stopping_def)
  have "length (handled s) \<le> length (posted s)"
    using inv by (simp add: task_inv_def flow_inv_def in_order_def)
  moreover have "2 * length (handled s) \<le> loop_work s1" using posts(2) by (simp add: loop_work_def)
  ultimately have "length (filter loop_label ls) \<le> 2 * (length (posted s) - length (handled s)) + 3"
    using loop_work_run [OF assms(5) inv1(1)] loop_work_bound [OF inv2(1) posted c(1) assms(2)] by linarith
  moreover have "\<not> inside_stop s2 t \<Longrightarrow> \<not> is_running s2"
    using inv2(2) by (auto simp: stopping_def inside_stop_def is_running_def)
  ultimately show ?thesis
    using stopping_progress [OF inv2(1) c assms(2) inv2(2)] by blast
qed

theorem task_first_stop_returns_witness:
  "\<exists>(s1 :: (8 word, unit, unit, unit, nat) event_task) ls s2. run (task_step counting_code) s1 ls s2 \<and>
     inside_stop s1 2 \<and> length (filter loop_label ls) = 5 \<and> length (filter loop_label ls) \<le> 5 \<and>
     (\<not> inside_stop s2 2 \<and> \<not> is_running s2)"
proof -
  let ?stop = "make_content Internal (request_plain [] 1) (Some 0) :: (8 word, unit) message_content"
  let ?ls = "[Receive_Message, Process_Message, Receive_Message, Process_Message, End_Wait 2 False, Finish_Loop, End_Join 2]
    :: (8 word, unit, unit, unit) task_action list"
  obtain s where s: "task_schedule counting_code counting_task [Send_Event 3 (request_plain [] 3)] = Some s"
      "list_all (\<lambda>c. \<not> is_stop c) (posted s)" "is_running s" "length (posted s) = 1" "handled s = []"
    by (simp add: counting_defs task_eval)
  obtain s1 where s1: "task_step counting_code s (Stop 2) s1" "inside_stop s1 2"
    using s(1) by (auto simp: counting_defs task_eval task_step_def inside_stop_def)
  have some_answer: "(\<exists>b. b) = True" by blast
  obtain s2 where s2: "task_schedule counting_code s1 ?ls = Some s2" "thread s2 = None" "clients s2 2 = Outside"
    using s(1) s1(1) by (auto simp: some_answer counting_defs task_eval task_step_def)
  have "run (task_step counting_code) s1 ?ls s2" by (rule task_schedule_run [OF s2(1)])
  from task_first_stop_returns [OF task_schedule_reaches [OF s(1) [unfolded counting_task_def]] s(2,3) s1(1) this]
  have "length (filter loop_label ?ls) \<le> 5" using s(4,5) by simp
  then show ?thesis
    using s1(2) s2 by (intro exI [of _ s1] exI [of _ ?ls] exI [of _ s2])
      (simp add: inside_stop_def is_running_def task_schedule_run [OF s2(1)] del: task_schedule.simps)
qed

end
