(* ===== verification/State_Machine.thy ===== *)
theory State_Machine
  imports Event_Aggregator
begin

text \<open>
  \<^verbatim>\<open>include/Task/StateMachine.hpp\<close>: a table from states to aggregators, the current state
  with a pointer to its aggregator, and a callback on changes of state. Handlers and the callback
  are client code that may call back into the machine, so they act on the machine together
  with the rest of the world \<open>'w\<close>. The table's entries are never removed and a
  \<^verbatim>\<open>std::map\<close> does not move its entries, so the pointer is modelled by the key of the entry
  it points into.
\<close>

section \<open>The machine\<close>

definition kUndefinedState :: "'s::{one,uminus}" where
  "kUndefinedState = -1"

type_synonym ('c, 's, 'h) state_table = "'s \<rightharpoonup> ('c, 's, 'h) event_map"

record ('c, 's, 'h, 'k) state_machine =
  table :: "('c, 's, 'h) state_table"
  cur_state :: "'s"
  cur_aggregator :: "'s option"
  state_changed :: "'k option"

definition sm_default :: "('c, 's::{one,uminus}, 'h, 'k) state_machine" where
  "sm_default =
     \<lparr>table = Map.empty, cur_state = kUndefinedState, cur_aggregator = None, state_changed = None\<rparr>"

text \<open>Client code: what running a handler or the callback does.\<close>

record ('c, 's, 'h, 'k, 'v, 'w) user_code =
  run_handler :: "('c, 'v, 'h, ('c, 's, 'h, 'k) state_machine \<times> 'w) invoke"
  run_callback :: "'k \<Rightarrow> 's \<Rightarrow> 's \<Rightarrow> ('c, 's, 'h, 'k) state_machine \<times> 'w
    \<Rightarrow> ('v, unit) result \<times> ('c, 's, 'h, 'k) state_machine \<times> 'w"

section \<open>The operations\<close>

text \<open>\<^verbatim>\<open>table_[from].add(...)\<close> makes the state's aggregator if there is none.\<close>

definition sm_add ::
  "'s \<Rightarrow> 'c \<Rightarrow> 'h \<Rightarrow> 's \<Rightarrow> ('c, 's, 'h, 'k) state_machine
   \<Rightarrow> ('c, 's, 'h, 'k) state_machine"
where
  "sm_add from cmd handler next_state sm =
     sm\<lparr>table := (table sm)(from \<mapsto>
       agg_add cmd handler next_state
         (case table sm from of None \<Rightarrow> Map.empty | Some events \<Rightarrow> events))\<rparr>"

text \<open>
  \<^verbatim>\<open>set_state\<close>: the lookup comes before the store, the store before the callback, and all of
  it is inside the \<^verbatim>\<open>try\<close>.
\<close>

definition sm_set_state ::
  "('c, 's, 'h, 'k, 'v, 'w) user_code \<Rightarrow> 's \<Rightarrow> ('c, 's, 'h, 'k) state_machine \<times> 'w
   \<Rightarrow> ('v, unit) result \<times> ('c, 's, 'h, 'k) state_machine \<times> 'w"
where
  "sm_set_state u new_state = (\<lambda>(sm, w).
     let current_state = cur_state sm in
     case (case table sm new_state of
             None \<Rightarrow> (Inl (Std_Out_Of_Range ''map::at''), sm, w)
           | Some events \<Rightarrow>
               let sm' = sm\<lparr>cur_state := new_state, cur_aggregator := Some new_state\<rparr> in
               (case state_changed sm' of
                  None \<Rightarrow> (Inr (), sm', w)
                | Some cb \<Rightarrow> run_callback u cb current_state new_state (sm', w))) of
       (r, st) \<Rightarrow> (on_out_of_range (throw ''State not found'' OutOfRange) r, st))"

definition sm_create ::
  "('c, 's::{one,uminus}, 'h, 'k, 'v, 'w) user_code \<Rightarrow> ('c, 's, 'h) state_table \<Rightarrow> 's \<Rightarrow> 'w
   \<Rightarrow> ('v, unit) result \<times> ('c, 's, 'h, 'k) state_machine \<times> 'w"
where
  "sm_create u tbl initial_state w = sm_set_state u initial_state (sm_default\<lparr>table := tbl\<rparr>, w)"

definition sm_init ::
  "('c, 's, 'h, 'k, 'v, 'w) user_code \<Rightarrow> 's \<Rightarrow> ('c, 's, 'h, 'k) state_machine \<times> 'w
   \<Rightarrow> ('v, unit) result \<times> ('c, 's, 'h, 'k) state_machine \<times> 'w"
where
  "sm_init u initial_state st = sm_set_state u initial_state st"

definition sm_get_state :: "('c, 's, 'h, 'k) state_machine \<Rightarrow> 's" where
  "sm_get_state sm = cur_state sm"

text \<open>The aggregator a pointer leads to.\<close>

definition pointee :: "('c, 's, 'h, 'k) state_machine \<Rightarrow> 's \<Rightarrow> ('c, 's, 'h) event_map" where
  "pointee sm a = (case table sm a of None \<Rightarrow> Map.empty | Some events \<Rightarrow> events)"

text \<open>
  \<^verbatim>\<open>publish\<close>: the pointer is loaded once, before the handler runs; the next state is looked
  up through it afterwards, and compared with the state then current.
\<close>

definition sm_publish ::
  "('c, 's::{one,uminus}, 'h, 'k, 'v, 'w) user_code \<Rightarrow> 'c \<Rightarrow> ('c, 'v) request
   \<Rightarrow> ('c, 's, 'h, 'k) state_machine \<times> 'w
   \<Rightarrow> ('v, bool) result \<times> ('c, 's, 'h, 'k) state_machine \<times> 'w"
where
  "sm_publish u cmd req = (\<lambda>(sm, w).
     case cur_aggregator sm of
       None \<Rightarrow> (throw ''State machine not initialized'' InvalidOperation, sm, w)
     | Some a \<Rightarrow>
         (case agg_publish (run_handler u) (pointee sm a) cmd req (sm, w) of
            (Inl e, st) \<Rightarrow> (Inl e, st)
          | (Inr False, st) \<Rightarrow> (Inr False, st)
          | (Inr True, (sm1, w1)) \<Rightarrow>
              (case agg_get_next_state (pointee sm1 a) cmd of
                 Inl e \<Rightarrow> (Inl e, sm1, w1)
               | Inr next_state \<Rightarrow>
                   if next_state \<noteq> kKeepState \<and> cur_state sm1 \<noteq> next_state
                   then (case sm_set_state u next_state (sm1, w1) of
                           (Inl e, st) \<Rightarrow> (Inl e, st)
                         | (Inr _, st) \<Rightarrow> (Inr True, st))
                   else (Inr True, sm1, w1))))"

section \<open>Building the table\<close>

text \<open>The handler of a command in a state.\<close>

definition sm_lookup ::
  "('c, 's, 'h, 'k) state_machine \<Rightarrow> 's \<times> 'c \<Rightarrow> ('h, 's) message_info option"
where
  "sm_lookup sm = (\<lambda>(s, cmd). case table sm s of None \<Rightarrow> None | Some events \<Rightarrow> events cmd)"

lemma sm_lookup_add:
  "sm_lookup (sm_add s cmd h n sm) (s', cmd') =
     (if s' = s \<and> cmd' = cmd \<and> sm_lookup sm (s, cmd) = None
      then Some \<lparr>info_handler = h, info_next_state = n\<rparr> else sm_lookup sm (s', cmd'))"
  by (cases "table sm s"; cases "s' = s") (auto simp: sm_lookup_def sm_add_def agg_add_def)

text \<open>The builder keeps the first registration of a (state, command) pair, as the aggregator does.\<close>

interpretation sm_builder: emplace_registry
  "\<lambda>(s, cmd) info. sm_add s cmd (info_handler info) (info_next_state info)"
  "sm_lookup :: ('c, 's, 'h, 'k) state_machine \<Rightarrow> _"
  by unfold_locales (auto simp: sm_lookup_add split: if_splits)

definition build ::
  "(('s \<times> 'c) \<times> ('h, 's) message_info) list
   \<Rightarrow> ('c, 's, 'h, 'k) state_machine \<Rightarrow> ('c, 's, 'h, 'k) state_machine"
where
  "build regs = fold (\<lambda>(key, info). (\<lambda>(s, cmd) info. sm_add s cmd (info_handler info) (info_next_state info)) key info) regs"

lemma build_lookup:
  "sm_lookup (build regs sm) key =
     (case sm_lookup sm key of Some info \<Rightarrow> Some info | None \<Rightarrow> map_of regs key)"
  unfolding build_def by (rule sm_builder.find_put_all)

lemma sm_add_frame [frame]:
  "cur_state (sm_add s cmd h n sm) = cur_state sm"
  "cur_aggregator (sm_add s cmd h n sm) = cur_aggregator sm"
  "state_changed (sm_add s cmd h n sm) = state_changed sm"
  "dom (table (sm_add s cmd h n sm)) = insert s (dom (table sm))"
  by (auto simp: sm_add_def)

lemma build_frame [frame]:
  "cur_state (build regs sm) = cur_state sm \<and> cur_aggregator (build regs sm) = cur_aggregator sm \<and>
   state_changed (build regs sm) = state_changed sm \<and>
   dom (table (build regs sm)) = dom (table sm) \<union> (fst \<circ> fst) ` set regs"
  unfolding build_def by (induction regs arbitrary: sm) (simp, auto simp: sm_add_def)

section \<open>Every branch of set\_state and publish\<close>

lemma set_state_unknown:
  "table sm s = None \<Longrightarrow>
     sm_set_state u s (sm, w) = (throw ''State not found'' OutOfRange, sm, w)"
  by (simp add: sm_set_state_def)

lemma set_state_silent:
  "table sm s = Some events \<Longrightarrow> state_changed sm = None \<Longrightarrow>
     sm_set_state u s (sm, w) = (Inr (), sm\<lparr>cur_state := s, cur_aggregator := Some s\<rparr>, w)"
  by (simp add: sm_set_state_def)

lemma set_state_callback:
  "table sm s = Some events \<Longrightarrow> state_changed sm = Some cb \<Longrightarrow>
     sm_set_state u s (sm, w) =
       (case run_callback u cb (cur_state sm) s (sm\<lparr>cur_state := s, cur_aggregator := Some s\<rparr>, w) of
          (r, st) \<Rightarrow> (on_out_of_range (throw ''State not found'' OutOfRange) r, st))"
  by (simp add: sm_set_state_def)

lemma publish_uninitialised:
  "cur_aggregator sm = None \<Longrightarrow>
     sm_publish u cmd req (sm, w) = (throw ''State machine not initialized'' InvalidOperation, sm, w)"
  by (simp add: sm_publish_def)

section \<open>The pointer stays inside the table\<close>

text \<open>
  Before initialisation there is no pointer and the state is undefined; afterwards the pointer
  leads to the current state's entry of the table.
\<close>

definition sm_wf :: "('c, 's::{one,uminus}, 'h, 'k) state_machine \<Rightarrow> bool" where
  "sm_wf sm \<longleftrightarrow>
     (case cur_aggregator sm of
        None \<Rightarrow> cur_state sm = kUndefinedState
      | Some a \<Rightarrow> a = cur_state sm \<and> table sm a \<noteq> None)"

text \<open>Client code that, whatever it does, keeps a property of the machine.\<close>

definition code_keeps ::
  "(('c, 's, 'h, 'k) state_machine \<Rightarrow> bool) \<Rightarrow> ('c, 's, 'h, 'k, 'v, 'w) user_code \<Rightarrow> bool"
where
  "code_keeps P u \<longleftrightarrow>
     (\<forall>h req sm w r sm' w'. run_handler u h req (sm, w) = (r, sm', w') \<longrightarrow> P sm \<longrightarrow> P sm') \<and>
     (\<forall>cb s t sm w r sm' w'. run_callback u cb s t (sm, w) = (r, sm', w') \<longrightarrow> P sm \<longrightarrow> P sm')"

lemma code_keeps_handler:
  "code_keeps P u \<Longrightarrow> run_handler u h req (sm, w) = (r, sm', w') \<Longrightarrow> P sm \<Longrightarrow> P sm'"
  unfolding code_keeps_def by blast

lemma code_keeps_callback:
  "code_keeps P u \<Longrightarrow> run_callback u cb s t (sm, w) = (r, sm', w') \<Longrightarrow> P sm \<Longrightarrow> P sm'"
  unfolding code_keeps_def by blast

lemma sm_wf_default: "sm_wf sm_default"
  by (simp add: sm_wf_def sm_default_def)

lemma sm_wf_add: "sm_wf sm \<Longrightarrow> sm_wf (sm_add s cmd h n sm)"
  by (auto simp: sm_wf_def sm_add_def split: option.splits)

lemma sm_wf_set_state:
  assumes u: "code_keeps sm_wf u" and wf: "sm_wf sm" and "sm_set_state u s (sm, w) = (r, sm', w')"
  shows "sm_wf sm'"
proof (cases "table sm s")
  case None
  then show ?thesis using assms by (simp add: set_state_unknown)
next
  case (Some events)
  let ?sm = "sm\<lparr>cur_state := s, cur_aggregator := Some s\<rparr>"
  from Some have wf1: "sm_wf ?sm" by (simp add: sm_wf_def)
  show ?thesis
  proof (cases "state_changed sm")
    case None
    with Some assms(3) wf1 show ?thesis by (simp add: set_state_silent)
  next
    case (Some cb)
    obtain r1 sm1 w1 where "run_callback u cb (cur_state sm) s (?sm, w) = (r1, sm1, w1)"
      using prod_cases3 by blast
    with code_keeps_callback [OF u this wf1] \<open>table sm s = Some events\<close> Some assms(3) show ?thesis
      by (simp add: set_state_callback)
  qed
qed

lemma agg_publish_keeps:
  assumes u: "code_keeps P u" and "P sm"
    and "agg_publish (run_handler u) events cmd req (sm, w) = (r, sm', w')"
  shows "P sm'"
proof (cases "events cmd")
  case None
  then show ?thesis using assms by (simp add: agg_publish_unknown)
next
  case (Some info)
  obtain r1 sm1 w1 where "run_handler u (info_handler info) req (sm, w) = (r1, sm1, w1)"
    using prod_cases3 by blast
  with code_keeps_handler [OF u this assms(2)] Some assms(3) show ?thesis
    by (simp add: agg_publish_known)
qed

lemma sm_wf_publish:
  assumes u: "code_keeps sm_wf u" and wf: "sm_wf sm" and p: "sm_publish u cmd req (sm, w) = (r, sm', w')"
  shows "sm_wf sm'"
proof (cases "cur_aggregator sm")
  case None
  then show ?thesis using assms by (simp add: publish_uninitialised)
next
  case (Some a)
  obtain r1 sm1 w1 where h: "agg_publish (run_handler u) (pointee sm a) cmd req (sm, w) = (r1, sm1, w1)"
    using prod_cases3 by blast
  note wf1 = agg_publish_keeps [OF u wf h]
  obtain r2 sm2 w2 where
    t: "sm_set_state u (info_next_state (the (pointee sm1 a cmd))) (sm1, w1) = (r2, sm2, w2)"
    using prod_cases3 by blast
  note wf2 = sm_wf_set_state [OF u wf1 t]
  show ?thesis
    using p Some h t wf1 wf2
    by (cases "pointee sm1 a cmd") (auto simp: sm_publish_def split: sum.splits bool.splits if_splits)
qed

text \<open>Any sequence of the machine's operations.\<close>

datatype ('c, 's, 'h, 'v) sm_op =
    Op_Add 's 'c 'h 's
  | Op_Set_State 's
  | Op_Publish "('c, 'v) request"

fun sm_apply ::
  "('c, 's::{one,uminus}, 'h, 'k, 'v, 'w) user_code \<Rightarrow> ('c, 's, 'h, 'v) sm_op
   \<Rightarrow> ('c, 's, 'h, 'k) state_machine \<times> 'w \<Rightarrow> ('c, 's, 'h, 'k) state_machine \<times> 'w"
where
  "sm_apply u (Op_Add s cmd h n) (sm, w) = (sm_add s cmd h n sm, w)"
| "sm_apply u (Op_Set_State s) (sm, w) = snd (sm_set_state u s (sm, w))"
| "sm_apply u (Op_Publish req) (sm, w) = snd (sm_publish u (command req) req (sm, w))"

lemma sm_wf_set_state_fst: "code_keeps sm_wf u \<Longrightarrow> sm_wf sm \<Longrightarrow> sm_wf (fst (snd (sm_set_state u s (sm, w))))"
  by (metis prod.collapse sm_wf_set_state)

lemma sm_wf_publish_fst: "code_keeps sm_wf u \<Longrightarrow> sm_wf sm \<Longrightarrow> sm_wf (fst (snd (sm_publish u cmd req (sm, w))))"
  by (metis prod.collapse sm_wf_publish)

lemma sm_wf_apply: "code_keeps sm_wf u \<Longrightarrow> sm_wf (fst st) \<Longrightarrow> sm_wf (fst (sm_apply u op st))"
  by (cases "(u, op, st)" rule: sm_apply.cases)
    (auto simp: sm_wf_add sm_wf_set_state_fst sm_wf_publish_fst)

text \<open>
  C29: from the default-constructed machine, whatever operations are called in whatever order,
  with handlers and callbacks that themselves only keep the machine well formed, the machine's
  pointer is null with the state undefined, or it leads to the current state's entry of the
  table: \<^verbatim>\<open>publish\<close> never follows a dangling pointer.
\<close>

theorem sm_pointer_stays_valid:
  assumes "code_keeps sm_wf u"
  shows "sm_wf (fst (fold (sm_apply u) ops (sm_default, w)))"
proof -
  have "sm_wf (fst st) \<Longrightarrow> sm_wf (fst (fold (sm_apply u) ops st))" for st
    by (induction ops arbitrary: st) (simp_all add: sm_wf_apply [OF assms])
  from this [of "(sm_default, w)"] show ?thesis by (simp add: sm_wf_default)
qed

section \<open>Client code that leaves the machine alone\<close>

text \<open>
  The usual handlers and callbacks have effects on the world only: \<open>act\<close> and \<open>note\<close> say which.
\<close>

definition passive_code ::
  "('h \<Rightarrow> ('c, 'v) request \<Rightarrow> 'w \<Rightarrow> ('v, bool) result \<times> 'w) \<Rightarrow> ('k \<Rightarrow> 's \<Rightarrow> 's \<Rightarrow> 'w \<Rightarrow> ('v, unit) result \<times> 'w)
   \<Rightarrow> ('c, 's, 'h, 'k, 'v, 'w) user_code"
where
  "passive_code act note =
     \<lparr>run_handler = (\<lambda>h req (sm, w). case act h req w of (r, w') \<Rightarrow> (r, sm, w')),
      run_callback = (\<lambda>cb s t (sm, w). case note cb s t w of (r, w') \<Rightarrow> (r, sm, w'))\<rparr>"

lemma passive_code_keeps: "code_keeps P (passive_code act note)"
  by (auto simp: code_keeps_def passive_code_def split: prod.splits)

theorem sm_pointer_stays_valid_witness:
  "sm_wf (fst (fold (sm_apply (passive_code (\<lambda>(h :: nat) (req :: (nat, unit) request) (w :: unit). (Inr True, w))
       (\<lambda>(cb :: unit) s t w. (Inr (), w))))
     [Op_Add 0 1 7 2, Op_Set_State (0 :: int), Op_Publish (request_plain [] 1)] (sm_default, ())))"
  by (rule sm_pointer_stays_valid) (rule passive_code_keeps)

text \<open>
  The abstract machine: a state and the world, moved by requests. A request whose handler says
  yes moves to the registered next state, unless that is the sentinel or no state of the table.
\<close>

definition fsm_delta ::
  "('h \<Rightarrow> ('c, 'v) request \<Rightarrow> 'w \<Rightarrow> ('v, bool) result \<times> 'w) \<Rightarrow> ('s \<Rightarrow> 's \<Rightarrow> 'w \<Rightarrow> 'w)
   \<Rightarrow> ('s::{one,uminus} \<times> 'c \<rightharpoonup> ('h, 's) message_info) \<Rightarrow> ('s \<Rightarrow> bool) \<Rightarrow> ('c, 'v) request
   \<Rightarrow> 's \<times> 'w \<Rightarrow> 's \<times> 'w"
where
  "fsm_delta act moved lookup is_state req = (\<lambda>(s, w).
     case lookup (s, command req) of
       None \<Rightarrow> (s, w)
     | Some info \<Rightarrow>
         (case act (info_handler info) req w of
            (r, w') \<Rightarrow>
              let t = info_next_state info in
              if r = Inr True \<and> t \<noteq> kKeepState \<and> t \<noteq> s \<and> is_state t then (t, moved s t w') else (s, w')))"

definition fsm_view :: "('c, 's, 'h, 'k) state_machine \<times> 'w \<Rightarrow> 's \<times> 'w" where
  "fsm_view st = (cur_state (fst st), snd st)"

text \<open>What the callback, if one is installed, does to the world.\<close>

definition moved_effect ::
  "('k \<Rightarrow> 's \<Rightarrow> 's \<Rightarrow> 'w \<Rightarrow> ('v, unit) result \<times> 'w) \<Rightarrow> 'k option \<Rightarrow> 's \<Rightarrow> 's \<Rightarrow> 'w \<Rightarrow> 'w"
where
  "moved_effect note cb s t w = (case cb of None \<Rightarrow> w | Some k \<Rightarrow> snd (note k s t w))"

definition ready :: "('c, 's, 'h, 'k) state_machine \<Rightarrow> bool" where
  "ready sm \<longleftrightarrow> cur_aggregator sm = Some (cur_state sm) \<and> table sm (cur_state sm) \<noteq> None"

lemma passive_set_state:
  assumes "table sm t \<noteq> None"
  shows "snd (sm_set_state (passive_code act note) t (sm, w)) =
    (sm\<lparr>cur_state := t, cur_aggregator := Some t\<rparr>, moved_effect note (state_changed sm) (cur_state sm) t w)"
  using assms
  by (auto simp: sm_set_state_def passive_code_def moved_effect_def Let_def split: option.splits prod.splits)

lemma passive_agg_publish:
  "agg_publish (run_handler (passive_code act note)) events cmd req (sm, w) =
     (case events cmd of
        None \<Rightarrow> (throw ''Event not found'' OutOfRange, sm, w)
      | Some info \<Rightarrow>
          (case act (info_handler info) req w of
             (r, w') \<Rightarrow> (on_out_of_range (throw ''Event not found'' OutOfRange) r, sm, w')))"
  by (auto simp: agg_publish_def handle_def passive_code_def split: option.splits prod.splits)

lemma ready_events:
  assumes "ready sm"
  obtains events where "table sm (cur_state sm) = Some events" "pointee sm (cur_state sm) = events"
    "\<And>cmd. sm_lookup sm (cur_state sm, cmd) = events cmd" "cur_aggregator sm = Some (cur_state sm)"
  using assms by (auto simp: ready_def pointee_def sm_lookup_def)

text \<open>A published request, by what its handler said.\<close>

lemma ready_publish:
  fixes u :: "('c, 's::{one,uminus}, 'h, 'k, 'v, 'w) user_code"
  assumes "table sm (cur_state sm) = Some events" and "cur_aggregator sm = Some (cur_state sm)"
    and "agg_publish (run_handler u) events cmd req (sm, w) = (r, sm, w1)"
    and "r = Inr True \<Longrightarrow> events cmd = Some info"
  shows "sm_publish u cmd req (sm, w) =
    (if r = Inr True \<and> info_next_state info \<noteq> kKeepState \<and> cur_state sm \<noteq> info_next_state info
     then (case sm_set_state u (info_next_state info) (sm, w1) of
             (Inl e, st) \<Rightarrow> (Inl e, st) | (Inr _, st) \<Rightarrow> (Inr True, st))
     else (r, sm, w1))"
proof -
  have "pointee sm (cur_state sm) = events" using assms(1) by (simp add: pointee_def)
  then have p: "sm_publish u cmd req (sm, w) =
      (case (r, sm, w1) of
         (Inl e, st) \<Rightarrow> (Inl e, st)
       | (Inr False, st) \<Rightarrow> (Inr False, st)
       | (Inr True, (sm1, w1)) \<Rightarrow>
           (case agg_get_next_state (pointee sm1 (cur_state sm)) cmd of
              Inl e \<Rightarrow> (Inl e, sm1, w1)
            | Inr next_state \<Rightarrow>
                if next_state \<noteq> kKeepState \<and> cur_state sm1 \<noteq> next_state
                then (case sm_set_state u next_state (sm1, w1) of
                        (Inl e, st) \<Rightarrow> (Inl e, st) | (Inr _, st) \<Rightarrow> (Inr True, st))
                else (Inr True, sm1, w1)))"
    using assms(2,3) by (simp add: sm_publish_def)
  show ?thesis
  proof (cases "r = Inr True")
    case True
    with assms(4) have "events cmd = Some info" by blast
    then show ?thesis unfolding p using True \<open>pointee sm (cur_state sm) = events\<close> by simp
  next
    case False
    then show ?thesis unfolding p by (auto split: sum.split bool.split)
  qed
qed

text \<open>
  The abstract machine with its answers: what publishing a request returns or throws, and where it
  leads. A command without entry is not found; a handler that says no, or throws, keeps the state; a
  change of state is announced to the callback, whose exception is the answer although the
  state has changed.
\<close>

definition callback_of ::
  "('k \<Rightarrow> 's \<Rightarrow> 's \<Rightarrow> 'w \<Rightarrow> ('v, unit) result \<times> 'w) \<Rightarrow> 'k option \<Rightarrow> 's \<Rightarrow> 's \<Rightarrow> 'w \<Rightarrow> ('v, unit) result \<times> 'w"
where
  "callback_of note cb s t w = (case cb of None \<Rightarrow> (Inr (), w) | Some k \<Rightarrow> note k s t w)"

definition fsm_answer :: "('v, unit) result \<Rightarrow> ('v, bool) result" where
  "fsm_answer q = (case on_out_of_range (throw ''State not found'' OutOfRange) q of Inl e \<Rightarrow> Inl e | Inr _ \<Rightarrow> Inr True)"

definition fsm_respond ::
  "('h \<Rightarrow> ('c, 'v) request \<Rightarrow> 'w \<Rightarrow> ('v, bool) result \<times> 'w) \<Rightarrow> ('s \<Rightarrow> 's \<Rightarrow> 'w \<Rightarrow> ('v, unit) result \<times> 'w)
   \<Rightarrow> ('s::{one,uminus} \<times> 'c \<rightharpoonup> ('h, 's) message_info) \<Rightarrow> ('s \<Rightarrow> bool) \<Rightarrow> ('c, 'v) request
   \<Rightarrow> 's \<times> 'w \<Rightarrow> ('v, bool) result \<times> 's \<times> 'w"
where
  "fsm_respond act callback lookup is_state req = (\<lambda>(s, w).
     case lookup (s, command req) of
       None \<Rightarrow> (throw ''Event not found'' OutOfRange, s, w)
     | Some info \<Rightarrow>
         (case act (info_handler info) req w of
            (r, w1) \<Rightarrow>
              let t = info_next_state info in
              if r \<noteq> Inr True \<or> t = kKeepState \<or> t = s
              then (on_out_of_range (throw ''Event not found'' OutOfRange) r, s, w1)
              else if \<not> is_state t then (throw ''State not found'' OutOfRange, s, w1)
              else (case callback s t w1 of (q, w2) \<Rightarrow> (fsm_answer q, t, w2))))"

lemma passive_set_state_answer:
  assumes "table sm t \<noteq> None"
  shows "sm_set_state (passive_code act note) t (sm, w) =
    (case callback_of note (state_changed sm) (cur_state sm) t w of
       (q, w1) \<Rightarrow> (on_out_of_range (throw ''State not found'' OutOfRange) q,
         sm\<lparr>cur_state := t, cur_aggregator := Some t\<rparr>, w1))"
  using assms
  by (auto simp: sm_set_state_def passive_code_def callback_of_def Let_def split: option.splits prod.splits)

lemma passive_publish_answer:
  assumes "ready sm"
    and pub: "sm_publish (passive_code act note) (command req) req (sm, w) = (r', sm', w')"
  shows "fsm_respond act (callback_of note (state_changed sm)) (sm_lookup sm) (\<lambda>t. table sm t \<noteq> None) req (cur_state sm, w)
      = (r', cur_state sm', w')
    \<and> table sm' = table sm \<and> state_changed sm' = state_changed sm \<and> ready sm'"
proof -
  let ?u = "passive_code act note"
  obtain events where ev: "table sm (cur_state sm) = Some events"
      "\<And>cmd. sm_lookup sm (cur_state sm, cmd) = events cmd" "cur_aggregator sm = Some (cur_state sm)"
    using ready_events [OF assms(1)] by metis
  note publish = ready_publish [OF ev(1,3)]
  show ?thesis
  proof (cases "events (command req)")
    case None
    then have "sm_publish ?u (command req) req (sm, w) = (throw ''Event not found'' OutOfRange, sm, w)"
      by (subst publish [where info = undefined and r = "throw ''Event not found'' OutOfRange" and ?w1.0 = w])
        (simp_all add: passive_agg_publish)
    with None ev assms show ?thesis by (simp add: fsm_respond_def)
  next
    case (Some info)
    obtain r w1 where act: "act (info_handler info) req w = (r, w1)" by fastforce
    let ?t = "info_next_state info"
    have p: "sm_publish ?u (command req) req (sm, w) =
      (if r = Inr True \<and> ?t \<noteq> kKeepState \<and> cur_state sm \<noteq> ?t
       then (case sm_set_state ?u ?t (sm, w1) of
             (Inl e, st) \<Rightarrow> (Inl e, st) | (Inr _, st) \<Rightarrow> (Inr True, st))
       else (on_out_of_range (throw ''Event not found'' OutOfRange) r, sm, w1))"
      by (subst publish [where info = info and ?w1.0 = w1 and
            r = "on_out_of_range (throw ''Event not found'' OutOfRange) r"])
        (simp_all add: passive_agg_publish Some act)
    show ?thesis
    proof (cases "r = Inr True \<and> ?t \<noteq> kKeepState \<and> cur_state sm \<noteq> ?t")
      case False
      with p assms ev Some act show ?thesis by (auto simp: fsm_respond_def Let_def)
    next
      case True
      obtain q w2 where cb: "callback_of note (state_changed sm) (cur_state sm) ?t w1 = (q, w2)" by fastforce
      show ?thesis
      proof (cases "table sm ?t")
        case None
        with p pub True ev Some act assms(1) show ?thesis
          by (auto simp: fsm_respond_def Let_def set_state_unknown throw_def)
      next
        case (Some events')
        with True p pub cb ev act \<open>events (command req) = Some info\<close>
        show ?thesis
          by (cases "on_out_of_range (throw ''State not found'' OutOfRange) q")
            (auto simp: passive_set_state_answer fsm_respond_def fsm_answer_def Let_def ready_def)
      qed
    qed
  qed
qed

lemma fsm_respond_delta:
  "snd (fsm_respond act (callback_of note cb) lookup is_state req st) =
     fsm_delta act (moved_effect note cb) lookup is_state req st"
  by (cases st) (auto simp: fsm_respond_def fsm_delta_def callback_of_def moved_effect_def Let_def
      split: option.splits prod.splits)

lemma passive_publish:
  assumes "ready sm"
    and "snd (sm_publish (passive_code act note) (command req) req (sm, w)) = (sm', w')"
  shows "(cur_state sm', w') = fsm_delta act (moved_effect note (state_changed sm)) (sm_lookup sm)
        (\<lambda>t. table sm t \<noteq> None) req (cur_state sm, w)
    \<and> table sm' = table sm \<and> state_changed sm' = state_changed sm \<and> ready sm'"
proof -
  obtain r where "sm_publish (passive_code act note) (command req) req (sm, w) = (r, sm', w')"
    using assms(2) by (metis prod.collapse)
  from passive_publish_answer [OF assms(1) this] show ?thesis
    by (simp flip: fsm_respond_delta)
qed

lemma sm_lookup_update [simp]:
  "sm_lookup (sm\<lparr>cur_state := s\<rparr>) = sm_lookup sm"
  "sm_lookup (sm\<lparr>cur_aggregator := a\<rparr>) = sm_lookup sm"
  "sm_lookup (sm\<lparr>state_changed := cb\<rparr>) = sm_lookup sm"
  by (simp_all add: sm_lookup_def fun_eq_iff)

lemma built_lookup: "sm_lookup (build regs sm_default) key = map_of regs key"
  by (simp add: build_lookup) (simp add: sm_lookup_def sm_default_def split: prod.split)

lemma built_state: "cur_state (build regs sm_default) = kUndefinedState"
  by (simp add: build_frame sm_default_def)

lemma built_states: "table (build regs sm_default) t \<noteq> None \<longleftrightarrow> t \<in> (fst \<circ> fst) ` set regs"
  using build_frame [of regs sm_default, THEN conjunct2, THEN conjunct2, THEN conjunct2]
  by (auto simp: sm_default_def dom_def)

lemma passive_publish_all:
  "ready sm \<Longrightarrow>
   fsm_view (fold (\<lambda>req st. snd (sm_publish (passive_code act note) (command req) req st)) reqs (sm, w)) =
   fold (fsm_delta act (moved_effect note (state_changed sm)) (sm_lookup sm) (\<lambda>t. table sm t \<noteq> None))
     reqs (cur_state sm, w)"
proof (induction reqs arbitrary: sm w)
  case (Cons req reqs)
  obtain sm' w' where p: "snd (sm_publish (passive_code act note) (command req) req (sm, w)) = (sm', w')"
    by fastforce
  from passive_publish [OF Cons.prems p] have "sm_lookup sm' = sm_lookup sm"
    by (simp add: sm_lookup_def fun_eq_iff)
  with passive_publish [OF Cons.prems p] Cons.IH [of sm' w'] p show ?case by simp
qed (simp add: fsm_view_def)

text \<open>
  The machine implements the abstract one. Build a table by any sequence of \<^verbatim>\<open>add\<close>s,
  call \<^verbatim>\<open>init\<close> with a state of the table, and publish any sequence of requests, with handlers
  and a callback that leave the machine alone: the state and the world are those of the abstract
  machine whose transitions are the first registrations, started in the initial state after the
  callback was told of the change from the undefined state.
\<close>

theorem sm_refines_fsm:
  assumes "s0 \<in> (fst \<circ> fst) ` set regs"
  shows "fsm_view (fold (\<lambda>req st. snd (sm_publish (passive_code act note) (command req) req st)) reqs
      (snd (sm_init (passive_code act note) s0 ((build regs sm_default)\<lparr>state_changed := cb\<rparr>, w)))) =
    fold (fsm_delta act (moved_effect note cb) (map_of regs) (\<lambda>t. t \<in> (fst \<circ> fst) ` set regs)) reqs
      (s0, moved_effect note cb kUndefinedState s0 w)"
proof -
  let ?sm = "(build regs sm_default)\<lparr>state_changed := cb\<rparr>"
  let ?sm1 = "?sm\<lparr>cur_state := s0, cur_aggregator := Some s0\<rparr>"
  have dom: "table ?sm t \<noteq> None \<longleftrightarrow> t \<in> (fst \<circ> fst) ` set regs" for t
    using built_states [of regs t] by simp
  then have "table ?sm s0 \<noteq> None" using assms by blast
  from passive_set_state [OF this, of act "note" w]
  have init: "snd (sm_init (passive_code act note) s0 (?sm, w)) = (?sm1, moved_effect note cb kUndefinedState s0 w)"
    by (simp add: sm_init_def built_state)
  have lookup: "sm_lookup ?sm1 = map_of regs"
    by (rule ext) (simp add: built_lookup)
  have "ready ?sm1" using \<open>table ?sm s0 \<noteq> None\<close> by (simp add: ready_def)
  from passive_publish_all [OF this] show ?thesis
    unfolding init lookup using dom by simp
qed

theorem sm_refines_fsm_witness:
  "fsm_view (fold (\<lambda>req st. snd (sm_publish
        (passive_code (\<lambda>(h :: nat) (req :: (nat, unit) request) w. (Inr True, w @ [h]))
           (\<lambda>(cb :: unit) (s :: int) t w. (Inr (), w))) (command req) req st))
      [request_plain [] 5, request_plain [] 5]
      (snd (sm_init (passive_code (\<lambda>(h :: nat) (req :: (nat, unit) request) w. (Inr True, w @ [h]))
           (\<lambda>(cb :: unit) s t w. (Inr (), w))) 0
        ((build [((0, 5), \<lparr>info_handler = 10, info_next_state = 1\<rparr>),
                 ((1, 5), \<lparr>info_handler = 11, info_next_state = - 1\<rparr>)] sm_default)\<lparr>state_changed := None\<rparr>, []))))
   = (1, [10, 11])"
  by (subst sm_refines_fsm)
    (simp_all add: fsm_delta_def moved_effect_def Let_def request_plain_def kKeepState_def)

section \<open>The machine answers as the abstract one\<close>

interpretation answering: functional_refinement
  "\<lambda>req. sm_publish (passive_code act tell) (command req) req"
  "fsm_respond act (callback_of tell cb) lookup is_state" fsm_view
  "\<lambda>(sm, w). ready sm \<and> state_changed sm = cb \<and> sm_lookup sm = lookup \<and> (\<lambda>t. table sm t \<noteq> None) = is_state"
  for act :: "'h \<Rightarrow> ('c, 'v) request \<Rightarrow> 'w \<Rightarrow> ('v, bool) result \<times> 'w"
    and tell :: "'k \<Rightarrow> 's::{one,uminus} \<Rightarrow> 's \<Rightarrow> 'w \<Rightarrow> ('v, unit) result \<times> 'w" and cb lookup is_state
proof
  fix st st' :: "('c, 's, 'h, 'k) state_machine \<times> 'w" and req :: "('c, 'v) request" and r
  assume inv: "case st of (sm, w) \<Rightarrow>
      ready sm \<and> state_changed sm = cb \<and> sm_lookup sm = lookup \<and> (\<lambda>t. table sm t \<noteq> None) = is_state"
    and pub: "sm_publish (passive_code act tell) (command req) req st = (r, st')"
  obtain sm w sm' w' where st: "st = (sm, w)" "st' = (sm', w')" by fastforce
  from inv have inv': "ready sm" "state_changed sm = cb" "sm_lookup sm = lookup" "(\<lambda>t. table sm t \<noteq> None) = is_state"
    by (simp_all add: st)
  from passive_publish_answer [OF inv'(1) pub [unfolded st]] inv'
  have "fsm_respond act (callback_of tell cb) lookup is_state req (cur_state sm, w) = (r, cur_state sm', w')"
    and same: "table sm' = table sm" "state_changed sm' = cb" "ready sm'" by simp_all
  moreover from same(1) have "sm_lookup sm' = sm_lookup sm" by (simp add: sm_lookup_def)
  ultimately show "(case st' of (sm, w) \<Rightarrow>
      ready sm \<and> state_changed sm = cb \<and> sm_lookup sm = lookup \<and> (\<lambda>t. table sm t \<noteq> None) = is_state) \<and>
      fsm_respond act (callback_of tell cb) lookup is_state req (fsm_view st) = (r, fsm_view st')"
    using inv'(3,4) by (simp add: st fsm_view_def)
qed

text \<open>
  C8: The machine implements the abstract one. Build a table by any sequence of \<^verbatim>\<open>add\<close>s, call
  \<^verbatim>\<open>init\<close> with a state of the table, and publish any sequence of requests, with handlers and a
  callback that leave the machine alone: the answers and exceptions, the state and the world are
  those of the abstract machine whose transitions are the first registrations, started in the
  initial state after the callback was told of the change from the undefined state.
\<close>

theorem sm_answers_as_fsm:
  fixes regs :: "(('s::{one,uminus} \<times> 'c) \<times> ('h, 's) message_info) list"
  assumes "s0 \<in> (fst \<circ> fst) ` set regs"
  shows "map_prod id fsm_view (exec_all (\<lambda>req. sm_publish (passive_code act note) (command req) req) reqs
      (snd (sm_init (passive_code act note) s0 ((build regs sm_default)\<lparr>state_changed := cb\<rparr>, w)))) =
    exec_all (fsm_respond act (callback_of note cb) (map_of regs) (\<lambda>t. t \<in> (fst \<circ> fst) ` set regs)) reqs
      (s0, snd (callback_of note cb kUndefinedState s0 w))"
proof -
  let ?sm = "(build regs sm_default)\<lparr>state_changed := cb\<rparr>"
  let ?sm1 = "?sm\<lparr>cur_state := s0, cur_aggregator := Some s0\<rparr>" and ?w1 = "snd (callback_of note cb kUndefinedState s0 w)"
  have dom: "(\<lambda>t. table ?sm t \<noteq> None) = (\<lambda>t. t \<in> (fst \<circ> fst) ` set regs)"
    by (rule ext) (use built_states [of regs] in simp)
  then have some: "table ?sm s0 \<noteq> None" using assms by metis
  from passive_set_state_answer [OF this, of act "note" w]
  have init: "snd (sm_init (passive_code act note) s0 (?sm, w)) = (?sm1, ?w1)"
    by (simp add: sm_init_def built_state split: prod.split)
  have lookup: "sm_lookup ?sm1 = map_of regs"
    by (rule ext) (simp add: built_lookup)
  have inv: "case (?sm1, ?w1) of (sm, w) \<Rightarrow> ready sm \<and> state_changed sm = cb \<and> sm_lookup sm = map_of regs \<and>
      (\<lambda>t. table sm t \<noteq> None) = (\<lambda>t. t \<in> (fst \<circ> fst) ` set regs)"
    using some dom lookup by (simp add: ready_def)
  from answering.exec_all_view [OF inv] show ?thesis
    unfolding init by (simp add: fsm_view_def)
qed

theorem sm_answers_as_fsm_witness:
  "fst (exec_all (\<lambda>req. sm_publish
        (passive_code (\<lambda>(h :: nat) (req :: (nat, unit) request) w. (Inr (h < 12), w @ [h]))
           (\<lambda>(cb :: unit) (s :: int) t w. (Inr (), w))) (command req) req)
      [request_plain [] 5, request_plain [] 6, request_plain [] 5]
      (snd (sm_init (passive_code (\<lambda>(h :: nat) (req :: (nat, unit) request) w. (Inr (h < 12), w @ [h]))
           (\<lambda>(cb :: unit) s t w. (Inr (), w))) 0
        ((build [((0, 5), \<lparr>info_handler = 10, info_next_state = 1\<rparr>),
                 ((1, 5), \<lparr>info_handler = 12, info_next_state = 0\<rparr>)] sm_default)\<lparr>state_changed := None\<rparr>, []))))
   = [Inr True, throw ''Event not found'' OutOfRange, Inr False]"
proof -
  let ?act = "\<lambda>(h :: nat) (req :: (nat, unit) request) w. (Inr (h < 12) :: unit exn + bool, w @ [h])"
  let ?note = "\<lambda>(cb :: unit) (s :: int) (t :: int) (w :: nat list). (Inr () :: unit exn + unit, w)"
  let ?regs = "[((0, 5), \<lparr>info_handler = 10, info_next_state = 1\<rparr>), ((1, 5), \<lparr>info_handler = 12, info_next_state = 0\<rparr>)]
    :: ((int \<times> nat) \<times> (nat, int) message_info) list"
  let ?reqs = "[request_plain [] 5, request_plain [] 6, request_plain [] 5] :: (nat, unit) request list"
  have "map_prod id fsm_view (exec_all (\<lambda>req. sm_publish (passive_code ?act ?note) (command req) req) ?reqs
      (snd (sm_init (passive_code ?act ?note) 0 ((build ?regs sm_default)\<lparr>state_changed := None\<rparr>, [])))) =
    exec_all (fsm_respond ?act (callback_of ?note None) (map_of ?regs) (\<lambda>t. t \<in> (fst \<circ> fst) ` set ?regs)) ?reqs
      (0, snd (callback_of ?note None kUndefinedState 0 []))"
    by (rule sm_answers_as_fsm) simp
  also have "\<dots> = ([Inr True, throw ''Event not found'' OutOfRange, Inr False], 1, [10, 12])"
    by (simp add: fsm_respond_def callback_of_def fsm_answer_def Let_def request_plain_def kKeepState_def)
  finally show ?thesis by (rule results_of_view)
qed

section \<open>What goes wrong in a transition\<close>

text \<open>
  When the handler says yes but its next state is not in the table, \<^verbatim>\<open>publish\<close> throws
  \<^verbatim>\<open>State not found\<close>; the machine stays where it was, and what the handler did stays done.
\<close>

theorem sm_unknown_target_keeps_state:
  assumes "ready sm" and "sm_lookup sm (cur_state sm, cmd) = Some info"
    and "run_handler u (info_handler info) req (sm, w) = (Inr True, sm, w1)"
    and "info_next_state info \<noteq> kKeepState" and "table sm (info_next_state info) = None"
  shows "sm_publish u cmd req (sm, w) = (throw ''State not found'' OutOfRange, sm, w1)"
proof -
  obtain events where ev: "table sm (cur_state sm) = Some events"
      "\<And>cmd. sm_lookup sm (cur_state sm, cmd) = events cmd" "cur_aggregator sm = Some (cur_state sm)"
    using ready_events [OF assms(1)] by metis
  have "agg_publish (run_handler u) events cmd req (sm, w) = (Inr True, sm, w1)"
    using assms(2,3) ev(2) by (simp add: agg_publish_known)
  from ready_publish [OF ev(1,3) this, of info] assms ev(1,2) show ?thesis
    by (auto simp: set_state_unknown throw_def)
qed

theorem sm_unknown_target_keeps_state_witness:
  "sm_publish (passive_code (\<lambda>(h :: nat) (req :: (nat, unit) request) (w :: nat). (Inr True, w + 1))
       (\<lambda>(cb :: unit) s t w. (Inr (), w))) 5 (request_plain [] 5)
     (\<lparr>table = [0 \<mapsto> [5 \<mapsto> \<lparr>info_handler = 10, info_next_state = 9\<rparr>]], cur_state = (0 :: int),
       cur_aggregator = Some 0, state_changed = None\<rparr>, 0)
   = (throw ''State not found'' OutOfRange,
      \<lparr>table = [0 \<mapsto> [5 \<mapsto> \<lparr>info_handler = 10, info_next_state = 9\<rparr>]], cur_state = 0,
       cur_aggregator = Some 0, state_changed = None\<rparr>, 1)"
  by (rule sm_unknown_target_keeps_state [where info = "\<lparr>info_handler = 10, info_next_state = 9\<rparr>"])
    (simp_all add: ready_def sm_lookup_def passive_code_def kKeepState_def)

text \<open>
  The callback runs after the state has changed. If it throws \<^verbatim>\<open>std::out_of_range\<close>,
  \<^verbatim>\<open>set_state\<close> reports that the state was not found, although it was and the machine is
  now in it (unless the callback itself moved it on).
\<close>

theorem sm_callback_failure_reported_as_unknown_state:
  assumes "table sm s = Some events" and "state_changed sm = Some cb"
    and "run_callback u cb (cur_state sm) s (sm\<lparr>cur_state := s, cur_aggregator := Some s\<rparr>, w)
       = (Inl (Std_Out_Of_Range msg), sm1, w1)"
  shows "sm_set_state u s (sm, w) = (throw ''State not found'' OutOfRange, sm1, w1)"
  using assms by (simp add: set_state_callback)

theorem sm_callback_failure_reported_as_unknown_state_witness:
  "sm_set_state (passive_code (\<lambda>(h :: nat) (req :: (nat, unit) request) (w :: nat). (Inr True, w))
       (\<lambda>(cb :: unit) s t w. (Inl (Std_Out_Of_Range ''vector::at''), w))) 1
     (\<lparr>table = [1 \<mapsto> Map.empty], cur_state = (0 :: int), cur_aggregator = Some 0, state_changed = Some ()\<rparr>, 0)
   = (throw ''State not found'' OutOfRange,
      \<lparr>table = [1 \<mapsto> Map.empty], cur_state = 1, cur_aggregator = Some 1, state_changed = Some ()\<rparr>, 0)"
  by (rule sm_callback_failure_reported_as_unknown_state) (auto simp: passive_code_def)

text \<open>
  A handler may move the machine itself. The transition published is still the one of the
  state the machine was in when \<^verbatim>\<open>publish\<close> started, read as the handler left it, and it
  is taken from the state the handler moved to: with the keep sentinel the handler's move stands.
\<close>

theorem sm_publish_after_handler_moved:
  assumes "cur_aggregator sm = Some a" and "table sm a = Some events" and "events cmd = Some info"
    and "run_handler u (info_handler info) req (sm, w) = (Inr True, sm1, w1)"
    and "sm_lookup sm1 (a, cmd) = Some info1"
  shows "sm_publish u cmd req (sm, w) =
    (if info_next_state info1 = kKeepState \<or> info_next_state info1 = cur_state sm1 then (Inr True, sm1, w1)
     else (case sm_set_state u (info_next_state info1) (sm1, w1) of
             (Inl e, st) \<Rightarrow> (Inl e, st) | (Inr _, st) \<Rightarrow> (Inr True, st)))"
proof -
  have "pointee sm1 a cmd = Some info1"
    using assms(5) by (simp add: sm_lookup_def pointee_def split: option.splits)
  moreover have "pointee sm a = events" using assms(2) by (simp add: pointee_def)
  moreover have "agg_publish (run_handler u) events cmd req (sm, w) = (Inr True, sm1, w1)"
    using assms(3,4) by (simp add: agg_publish_known)
  ultimately show ?thesis using assms(1) by (simp add: sm_publish_def)
qed

theorem sm_publish_after_handler_moved_witness:
  "fst (snd (sm_publish
      \<lparr>run_handler = (\<lambda>(h :: nat) (req :: (nat, unit) request) (sm, w).
          (Inr True, sm\<lparr>cur_state := 2, cur_aggregator := Some 2\<rparr>, w)),
       run_callback = (\<lambda>(cb :: unit) s t st. (Inr (), st))\<rparr> 5 (request_plain [] 5)
     (\<lparr>table = [0 \<mapsto> [5 \<mapsto> \<lparr>info_handler = 10, info_next_state = - 1\<rparr>], 2 \<mapsto> Map.empty],
       cur_state = (0 :: int), cur_aggregator = Some 0, state_changed = None\<rparr>, ())))
   = \<lparr>table = [0 \<mapsto> [5 \<mapsto> \<lparr>info_handler = 10, info_next_state = - 1\<rparr>], 2 \<mapsto> Map.empty],
       cur_state = 2, cur_aggregator = Some 2, state_changed = None\<rparr>"
  by (subst sm_publish_after_handler_moved [where a = 0 and events = "[5 \<mapsto> \<lparr>info_handler = 10, info_next_state = - 1\<rparr>]"
        and info = "\<lparr>info_handler = 10, info_next_state = - 1\<rparr>"
        and ?info1.0 = "\<lparr>info_handler = 10, info_next_state = - 1\<rparr>"])
    (auto simp: sm_lookup_def kKeepState_def)

end
