(* ===== verification/Statement_Task.thy ===== *)
theory Statement_Task
  imports Task_Server State_Machine
begin

text \<open>
  \<^verbatim>\<open>include/Task/StatementTask.hpp\<close>: an event task whose aggregator is a state machine.
  Its methods run on the caller's thread, on the machine the loop thread publishes to: here each
  is one step of the task's interleaving.
\<close>

section \<open>The task and its methods\<close>

record ('c, 'v, 's, 'h, 'k, 'f, 'w) statement_task =
  base :: "('c, 'v, ('c, 's, 'h, 'k) state_machine, 'f, 'w) event_task"
  pending_initial_state :: "'s option"

definition statement_task_code ::
  "('c, 's::{one,uminus}, 'h, 'k, 'v, 'w) user_code \<Rightarrow> ('f \<Rightarrow> 'w \<Rightarrow> ('v, unit) result \<times> 'w) \<Rightarrow> tid
   \<Rightarrow> ('c, 'v, ('c, 's, 'h, 'k) state_machine, 'f, 'w) task_code"
where
  "statement_task_code u hooks loop =
     \<lparr>publish = (\<lambda>sm cmd req w. sm_publish u cmd req (sm, w)), run_hook = hooks, loop_thread = loop\<rparr>"

text \<open>
  The constructor from a table: the machine is made first, and if its initial state is unknown
  the exception leaves the constructor before a thread is started.
\<close>

definition st_create ::
  "('c, 's::{one,uminus}, 'h, 'k, 'v, 'w) user_code \<Rightarrow> ('f \<Rightarrow> 'w \<Rightarrow> ('v, unit) result \<times> 'w) \<Rightarrow> tid \<Rightarrow> string
   \<Rightarrow> ('c, 's, 'h) state_table \<Rightarrow> 's \<Rightarrow> 'w \<Rightarrow> ('v, ('c, 'v, 's, 'h, 'k, 'f, 'w) statement_task) result"
where
  "st_create u hooks loop name tbl initial_state w =
     (case sm_create u tbl initial_state w of
        (Inl e, sm, w') \<Rightarrow> Inl e
      | (Inr _, sm, w') \<Rightarrow>
          Inr \<lparr>base = make_task (statement_task_code u hooks loop) Statement_Task name sm w',
               pending_initial_state = None\<rparr>)"

definition st_builder ::
  "('c, 's::{one,uminus}, 'h, 'k, 'v, 'w) user_code \<Rightarrow> ('f \<Rightarrow> 'w \<Rightarrow> ('v, unit) result \<times> 'w) \<Rightarrow> tid \<Rightarrow> string
   \<Rightarrow> 's \<Rightarrow> 'w \<Rightarrow> ('c, 'v, 's, 'h, 'k, 'f, 'w) statement_task"
where
  "st_builder u hooks loop name initial_state w =
     \<lparr>base = make_task (statement_task_code u hooks loop) Statement_Task name sm_default w,
      pending_initial_state = Some initial_state\<rparr>"

definition st_on ::
  "'s \<Rightarrow> 'c \<Rightarrow> 'h \<Rightarrow> 's \<Rightarrow> ('c, 'v, 's, 'h, 'k, 'f, 'w) statement_task \<Rightarrow> ('c, 'v, 's, 'h, 'k, 'f, 'w) statement_task"
where
  "st_on from cmd handler next_state st =
     st\<lparr>base := (base st)\<lparr>aggregator := sm_add from cmd handler next_state (aggregator (base st))\<rparr>\<rparr>"

text \<open>What \<^verbatim>\<open>start\<close> and \<^verbatim>\<open>set_state\<close> do to the machine and the world, and their result.\<close>

definition on_machine ::
  "(('c, 's, 'h, 'k) state_machine \<times> 'w \<Rightarrow> ('v, unit) result \<times> ('c, 's, 'h, 'k) state_machine \<times> 'w)
   \<Rightarrow> ('c, 'v, 's, 'h, 'k, 'f, 'w) statement_task
   \<Rightarrow> ('v, unit) result \<times> ('c, 'v, 's, 'h, 'k, 'f, 'w) statement_task"
where
  "on_machine f st =
     (case f (aggregator (base st), world (base st)) of
        (r, sm, w) \<Rightarrow> (r, st\<lparr>base := (base st)\<lparr>aggregator := sm, world := w\<rparr>\<rparr>))"

definition st_start ::
  "('n::len word, 's::{one,uminus}, 'h, 'k, 'v, 'w) user_code \<Rightarrow> tid
   \<Rightarrow> ('n word, 'v, 's, 'h, 'k, 'f, 'w) statement_task
   \<Rightarrow> ('v, unit) result \<times> ('n word, 'v, 's, 'h, 'k, 'f, 'w) statement_task"
where
  "st_start u t st =
     (case (case pending_initial_state st of
              None \<Rightarrow> (Inr (), st)
            | Some s0 \<Rightarrow> on_machine (sm_init u s0) st) of
        (Inl e, st') \<Rightarrow> (Inl e, st')
      | (Inr _, st') \<Rightarrow> (Inr (), st'\<lparr>base := task_start t (base st')\<rparr>))"

definition st_set_state ::
  "('c, 's::{one,uminus}, 'h, 'k, 'v, 'w) user_code \<Rightarrow> 's \<Rightarrow> ('c, 'v, 's, 'h, 'k, 'f, 'w) statement_task
   \<Rightarrow> ('v, unit) result \<times> ('c, 'v, 's, 'h, 'k, 'f, 'w) statement_task"
where
  "st_set_state u new_state st = on_machine (sm_set_state u new_state) st"

definition st_get_state :: "('c, 'v, 's, 'h, 'k, 'f, 'w) statement_task \<Rightarrow> 's" where
  "st_get_state st = sm_get_state (aggregator (base st))"

text \<open>Assigning to the member \<^verbatim>\<open>state_changed\<close> sets the machine's callback.\<close>

definition st_set_state_changed ::
  "'k option \<Rightarrow> ('c, 'v, 's, 'h, 'k, 'f, 'w) statement_task \<Rightarrow> ('c, 'v, 's, 'h, 'k, 'f, 'w) statement_task"
where
  "st_set_state_changed cb st =
     st\<lparr>base := (base st)\<lparr>aggregator := (aggregator (base st))\<lparr>state_changed := cb\<rparr>\<rparr>\<rparr>"

section \<open>Before start\<close>

interpretation before_start: task_aggregator "statement_task_code u hooks loop" "\<lambda>sm. cur_aggregator sm = None"
  for u :: "('n::len word, 's::{one,uminus}, 'h, 'k, 'v, 'w) user_code"
    and hooks :: "'f \<Rightarrow> 'w \<Rightarrow> ('v, unit) result \<times> 'w" and loop
  by unfold_locales (auto simp: statement_task_code_def publish_uninitialised)

lemma st_on_uninitialised:
  "cur_aggregator (aggregator (base (st_on s cmd h n st))) = cur_aggregator (aggregator (base st))"
  by (simp add: st_on_def sm_add_frame)

text \<open>
  C30: the message loop of a task built with \<^verbatim>\<open>on\<close> runs from its constructor on. In every run
  in which \<^verbatim>\<open>start\<close> has not yet set the initial state (the machine is only reached by
  \<^verbatim>\<open>on\<close>, which leaves it uninitialised), each event handled is answered with the exception
  \<^verbatim>\<open>State machine not initialized\<close>, and is lost.
\<close>

theorem statement_task_loses_early_events:
  fixes u :: "('n::len word, 's::{one,uminus}, 'h, 'k, 'v, 'w) user_code"
  assumes "run (task_step (statement_task_code u hooks loop)) (base (st_builder u hooks loop name s0 w)) ls s"
    and "list_all (\<lambda>l. \<forall>sm. l = Access sm \<longrightarrow> cur_aggregator sm = None) ls"
    and "(c, r) \<in> set (handled s)" and "attribute c \<noteq> Internal"
  shows "r = throw ''State machine not initialized'' InvalidOperation"
proof -
  have "list_all (published (statement_task_code u hooks loop) (\<lambda>sm. cur_aggregator sm = None)) (handled s)"
    using before_start.kept.inv_run [OF assms(1)] assms(2)
    by (simp add: list_all_iff st_builder_def make_task_def task_base.extend_def sm_default_def)
  with assms(3) have "published (statement_task_code u hooks loop) (\<lambda>sm. cur_aggregator sm = None) (c, r)"
    by (simp add: list_all_iff)
  with assms(4) show ?thesis
    by (auto simp: published_def statement_task_code_def publish_uninitialised)
qed

definition plain_code :: "(8 word, int, nat, unit, unit, nat list) user_code" where
  "plain_code = passive_code (\<lambda>h req w. (Inr True, w @ [h])) (\<lambda>cb s t w. (Inr (), w))"

definition no_hooks :: "unit \<Rightarrow> nat list \<Rightarrow> (unit, unit) result \<times> nat list" where
  "no_hooks = (\<lambda>hook w. (Inr (), w))"

lemmas plain_defs = plain_code_def no_hooks_def passive_code_def

theorem statement_task_loses_early_events_witness:
  "\<exists>s c. (c, throw ''State machine not initialized'' InvalidOperation) \<in>
      set (handled (s :: (8 word, unit, (8 word, int, nat, unit) state_machine, unit, nat list) event_task)) \<and>
      get_command (content_request c) = 5"
proof -
  let ?b = "base (st_builder plain_code no_hooks 0 ''machine'' 0 [])"
  let ?schedule = "[Access (sm_add 0 5 10 1 sm_default), Send_Event 1 (request_plain [] 5), Receive_Message, Process_Message]"
  obtain s r where s: "task_schedule (statement_task_code plain_code no_hooks 0) ?b ?schedule = Some s"
      "handled s = [(make_content External (request_plain [] 5) None, r)]"
    by (simp add: task_eval st_builder_def statement_task_code_def publish_uninitialised sm_add_frame
        sm_default_def)
  have "r = throw ''State machine not initialized'' InvalidOperation"
    by (rule statement_task_loses_early_events [OF task_schedule_run [OF s(1)], where c = "make_content External (request_plain [] 5) None"])
      (auto simp: s(2) make_content_def sm_add_def sm_default_def)
  with s(2) show ?thesis
    by (intro exI [of _ s] exI [of _ "make_content External (request_plain [] 5) None"])
      (simp add: make_content_def get_command_def request_plain_def)
qed

section \<open>start\<close>

definition st_build ::
  "(('s \<times> 'c) \<times> ('h, 's) message_info) list
   \<Rightarrow> ('c, 'v, 's, 'h, 'k, 'f, 'w) statement_task \<Rightarrow> ('c, 'v, 's, 'h, 'k, 'f, 'w) statement_task"
where
  "st_build regs st = fold (\<lambda>((s, cmd), info). st_on s cmd (info_handler info) (info_next_state info)) regs st"

lemma st_build_machine:
  "st_build regs st = st\<lparr>base := (base st)\<lparr>aggregator := build regs (aggregator (base st))\<rparr>\<rparr>"
  unfolding st_build_def build_def by (induction regs arbitrary: st) (auto simp: st_on_def)

text \<open>
  \<^verbatim>\<open>start\<close> of a task built with \<^verbatim>\<open>on\<close> sets the initial state and posts the start
  command when the initial state has a transition registered; otherwise it throws
  \<^verbatim>\<open>State not found\<close>, posts nothing and leaves the task uninitialised.
\<close>

theorem statement_task_start:
  fixes u :: "('n::len word, 's::{one,uminus}, 'h, 'k, 'v, 'w) user_code"
  shows "st_start u t (st_build regs (st_builder u hooks loop name s0 w)) =
    (if s0 \<in> (fst \<circ> fst) ` set regs
     then (Inr (), st_builder u hooks loop name s0 w\<lparr>base := task_start t
            ((base (st_builder u hooks loop name s0 w))\<lparr>aggregator :=
               (build regs sm_default)\<lparr>cur_state := s0, cur_aggregator := Some s0\<rparr>\<rparr>)\<rparr>)
     else (throw ''State not found'' OutOfRange, st_build regs (st_builder u hooks loop name s0 w)))"
proof -
  let ?b = "st_builder u hooks loop name s0 w"
  let ?m = "build regs sm_default :: ('n word, 's, 'h, 'k) state_machine"
  have agg: "aggregator (base ?b) = sm_default" and pend: "pending_initial_state ?b = Some s0"
    by (simp_all add: st_builder_def make_task_def task_base.extend_def)
  have silent: "state_changed ?m = None"
    by (simp add: build_frame sm_default_def)
  show ?thesis
  proof (cases "s0 \<in> (fst \<circ> fst) ` set regs")
    case True
    then obtain events where "table ?m s0 = Some events"
      using built_states [of regs s0] by blast
    from set_state_silent [OF this silent, of u] True show ?thesis
      by (simp add: st_start_def on_machine_def sm_init_def st_build_machine agg pend)
  next
    case False
    then have "table ?m s0 = None" using built_states [of regs s0] by blast
    from set_state_unknown [OF this, of u] False show ?thesis
      by (simp add: st_start_def on_machine_def sm_init_def st_build_machine agg pend throw_def)
  qed
qed

section \<open>A statement task runs the abstract machine\<close>

definition quiet :: "('c, 'v, ('c, 's, 'h, 'k) state_machine, 'f, 'w) event_task \<Rightarrow> bool" where
  "quiet s \<longleftrightarrow> ready (aggregator s) \<and> on_start s = None \<and> on_finish s = None"

text \<open>The events among the messages handled.\<close>

definition events_of :: "(('c, 'v) message_content \<times> ('v, bool) result) list \<Rightarrow> ('c, 'v) request list" where
  "events_of hs = map content_request (filter (\<lambda>c. \<not> is_internal (attribute c)) (map fst hs))"

lemma quiet_step:
  assumes st: "task_step (statement_task_code (passive_code act note) hooks loop) s l s'"
    and "\<not> reconfigures l" and q: "quiet s"
  shows "quiet s' \<and> table (aggregator s') = table (aggregator s) \<and> state_changed (aggregator s') = state_changed (aggregator s) \<and>
    (\<exists>new. handled s' = handled s @ new \<and>
      (cur_state (aggregator s'), world s') =
        fold (fsm_delta act (moved_effect note (state_changed (aggregator s))) (sm_lookup (aggregator s))
          (\<lambda>t. table (aggregator s) t \<noteq> None)) (events_of new) (cur_state (aggregator s), world s))"
proof (cases "l = Process_Message")
  case True
  then obtain c where c: "taken s = Some c"
    using st by (auto simp: task_step_def loop_process_def split: if_splits option.splits)
  let ?code = "statement_task_code (passive_code act note) hooks loop"
  obtain r s1 where run: "run_content ?code c s = (r, s1)" by fastforce
  with True c st have s': "s' = (fulfil c r s1)\<lparr>taken := None, handled := handled s @ [(c, r)]\<rparr>"
    by (auto simp: task_step_def loop_process_def split: if_splits)
  have f: "aggregator s' = aggregator s1" "world s' = world s1" "on_start s' = on_start s" "on_finish s' = on_finish s"
    using run_content_frame [OF run] unfolding s' by (simp_all add: fulfil_def split: option.split)
  show ?thesis
  proof (cases "is_internal (attribute c)")
    case True
    with run q have "aggregator s1 = aggregator s" "world s1 = world s"
      by (auto simp: run_content_def process_internal_command_def quiet_def Let_def split: if_splits)
    with f True q s' show ?thesis
      by (auto simp: quiet_def events_of_def intro!: exI [of _ "[(c, r)]"])
  next
    case False
    with run have "snd (sm_publish (passive_code act note) (command (content_request c)) (content_request c)
        (aggregator s, world s)) = (aggregator s1, world s1)"
      by (auto simp: run_content_def process_event_def statement_task_code_def get_command_def split: prod.splits)
    from passive_publish [OF _ this] q f False s' show ?thesis
      by (auto simp: quiet_def events_of_def intro!: exI [of _ "[(c, r)]"])
  qed
next
  case False
  have "\<not> terminated s" using st by (auto simp: task_step_def)
  with False assms show ?thesis
    by (cases l) (auto simp: task_step_def op_defs post_eq quiet_def events_of_def
        split: if_splits option.splits prod.splits sum.splits client.splits)
qed

text \<open>
  In every run of a statement task whose machine is ready, with handlers and a callback that
  leave the machine alone and no hooks, the machine's state and the world are those of the abstract
  machine after the events handled, in the order in which they were handled (which \<open>task_fifo\<close>
  makes the order in which they were posted).
\<close>

theorem statement_task_runs_fsm:
  assumes "run (task_step (statement_task_code (passive_code act note) hooks loop)) s ls s'"
    and "list_all (\<lambda>l. \<not> reconfigures l) ls" and "quiet s"
  shows "\<exists>new. handled s' = handled s @ new \<and>
    (cur_state (aggregator s'), world s') =
      fold (fsm_delta act (moved_effect note (state_changed (aggregator s))) (sm_lookup (aggregator s))
        (\<lambda>t. table (aggregator s) t \<noteq> None)) (events_of new) (cur_state (aggregator s), world s)"
  using assms
proof (induction rule: run.induct)
  case (run_cons s l t ls u)
  then have "\<not> reconfigures l" by simp
  note step = quiet_step [OF run_cons.hyps(1) this run_cons.prems(2)]
  then have same: "sm_lookup (aggregator t) = sm_lookup (aggregator s)"
    by (simp add: sm_lookup_def fun_eq_iff)
  from step obtain new where new: "handled t = handled s @ new" "(cur_state (aggregator t), world t) =
        fold (fsm_delta act (moved_effect note (state_changed (aggregator s))) (sm_lookup (aggregator s))
          (\<lambda>t. table (aggregator s) t \<noteq> None)) (events_of new) (cur_state (aggregator s), world s)" by blast
  from run_cons step obtain more where "handled u = handled t @ more" "(cur_state (aggregator u), world u) =
      fold (fsm_delta act (moved_effect note (state_changed (aggregator t))) (sm_lookup (aggregator t))
        (\<lambda>x. table (aggregator t) x \<noteq> None)) (events_of more) (cur_state (aggregator t), world t)" by auto
  with new step same show ?case
    by (intro exI [of _ "new @ more"]) (simp add: events_of_def)
qed (auto simp: events_of_def intro!: exI [of _ "[]"])

theorem statement_task_runs_fsm_witness:
  "\<exists>s :: (8 word, unit, (8 word, int, nat, unit) state_machine, unit, nat list) event_task.
     (cur_state (aggregator s), world s) = (1, [10])"
proof -
  let ?sm = "sm_add 0 5 10 1 (sm_add 1 6 11 0 sm_default)\<lparr>cur_state := 0, cur_aggregator := Some 0\<rparr>
    :: (8 word, int, nat, unit) state_machine"
  let ?s0 = "make_task (statement_task_code plain_code no_hooks 0) Statement_Task ''machine'' ?sm []"
  let ?schedule = "[Send_Event 1 (request_plain [] 5), Receive_Message, Process_Message]"
  have ready: "quiet ?s0"
    by (simp add: quiet_def make_task_def task_base.extend_def ready_def sm_add_def sm_default_def)
  obtain r sm' w' where p: "sm_publish plain_code 5 (request_plain [] 5) (?sm, []) = (r, sm', w')"
    using prod_cases3 by blast
  obtain s where s: "task_schedule (statement_task_code plain_code no_hooks 0) ?s0 ?schedule = Some s"
      "handled s = [(make_content External (request_plain [] 5) None, r)]"
    using p by (simp add: task_eval statement_task_code_def)
  from statement_task_runs_fsm [OF task_schedule_run [OF s(1) [unfolded plain_code_def]] _ ready [unfolded plain_code_def]] s(2)
  have "(cur_state (aggregator s), world s) = (1, [10])"
    by (simp add: events_of_def make_content_def is_internal_def make_task_def task_base.extend_def fsm_delta_def
        sm_lookup_def sm_add_def sm_default_def agg_add_def request_plain_def kKeepState_def moved_effect_def)
  then show ?thesis by blast
qed

section \<open>A statement task is a state machine\<close>

text \<open>
  What the task owes for one message: the start command runs its hook, an event is published to the
  abstract machine.
\<close>

definition st_respond ::
  "('h \<Rightarrow> ('n::len word, 'v) request \<Rightarrow> 'w \<Rightarrow> ('v, bool) result \<times> 'w) \<Rightarrow> ('s \<Rightarrow> 's \<Rightarrow> 'w \<Rightarrow> ('v, unit) result \<times> 'w)
   \<Rightarrow> ('f \<Rightarrow> 'w \<Rightarrow> ('v, unit) result \<times> 'w) \<Rightarrow> 'f option
   \<Rightarrow> ('s::{one,uminus} \<times> 'n word \<rightharpoonup> ('h, 's) message_info) \<Rightarrow> ('s \<Rightarrow> bool)
   \<Rightarrow> ('n word, 'v) message_content \<Rightarrow> 's \<times> 'w \<Rightarrow> ('v, bool) result \<times> 's \<times> 'w"
where
  "st_respond act callback hooks hook lookup is_state c = (\<lambda>(s, w).
     if attribute c \<noteq> Internal then fsm_respond act callback lookup is_state (content_request c) (s, w)
     else case (if start_command (content_request c) then hook else None) of
       None \<Rightarrow> (Inr True, s, w)
     | Some k \<Rightarrow> (case hooks k w of
         (Inr _, w') \<Rightarrow> (Inr True, s, w')
       | (Inl e, w') \<Rightarrow> (Inl e, s, w')))"

lemma handle_content_event:
  "attribute c \<noteq> Internal \<Longrightarrow> handle_content (statement_task_code u hooks loop) hook c (sm, w) =
     sm_publish u (command (content_request c)) (content_request c) (sm, w)"
  by (simp add: handle_content.simps statement_task_code_def)

lemma handle_content_internal:
  "attribute c = Internal \<Longrightarrow> handle_content (statement_task_code u hooks loop) hook c (sm, w) =
     (case st_respond act callback hooks hook lookup is_state c (cur_state sm, w) of (r, s, w') \<Rightarrow> (r, sm, w')) \<and>
   fst (snd (st_respond act callback hooks hook lookup is_state c (s, w))) = s"
  by (auto simp: handle_content.simps statement_task_code_def st_respond_def split: option.splits prod.splits sum.splits)

interpretation stating: functional_refinement
  "handle_content (statement_task_code (passive_code act tell) hooks loop) hook"
  "st_respond act (callback_of tell cb) hooks hook lookup is_state" fsm_view
  "\<lambda>(sm, w). ready sm \<and> state_changed sm = cb \<and> sm_lookup sm = lookup \<and> (\<lambda>t. table sm t \<noteq> None) = is_state"
  for act :: "'h \<Rightarrow> ('n::len word, 'v) request \<Rightarrow> 'w \<Rightarrow> ('v, bool) result \<times> 'w"
    and tell :: "'k \<Rightarrow> 's::{one,uminus} \<Rightarrow> 's \<Rightarrow> 'w \<Rightarrow> ('v, unit) result \<times> 'w" and cb
    and hooks :: "'f \<Rightarrow> 'w \<Rightarrow> ('v, unit) result \<times> 'w" and loop hook lookup is_state
proof
  fix st st' :: "('n word, 's, 'h, 'k) state_machine \<times> 'w" and c :: "('n word, 'v) message_content" and r
  assume inv: "case st of (sm, w) \<Rightarrow>
      ready sm \<and> state_changed sm = cb \<and> sm_lookup sm = lookup \<and> (\<lambda>t. table sm t \<noteq> None) = is_state"
    and run: "handle_content (statement_task_code (passive_code act tell) hooks loop) hook c st = (r, st')"
  show "(case st' of (sm, w) \<Rightarrow>
      ready sm \<and> state_changed sm = cb \<and> sm_lookup sm = lookup \<and> (\<lambda>t. table sm t \<noteq> None) = is_state) \<and>
      st_respond act (callback_of tell cb) hooks hook lookup is_state c (fsm_view st) = (r, fsm_view st')"
  proof (cases "attribute c = Internal")
    case True
    with run inv show ?thesis
      using handle_content_internal [OF True, of "passive_code act tell" hooks loop hook "fst st" "snd st"
          act "callback_of tell cb" lookup is_state "cur_state (fst st)"]
      by (cases st) (auto simp: fsm_view_def split: prod.splits)
  next
    case False
    obtain sm w where st: "st = (sm, w)" by fastforce
    from run False have "sm_publish (passive_code act tell) (command (content_request c)) (content_request c) st = (r, st')"
      by (simp add: st handle_content_event)
    from answering.exec_spec [OF inv this] False show ?thesis
      by (simp add: st_respond_def st fsm_view_def)
  qed
qed

text \<open>The machine a table gives.\<close>

definition table_lookup :: "('c, 's, 'h) state_table \<Rightarrow> 's \<times> 'c \<Rightarrow> ('h, 's) message_info option" where
  "table_lookup tbl = (\<lambda>(s, cmd). case tbl s of None \<Rightarrow> None | Some events \<Rightarrow> events cmd)"

lemma st_create_machine:
  assumes "st_create (passive_code act tell) hooks loop name tbl s0 w = Inr st"
  shows "base st = make_task (statement_task_code (passive_code act tell) hooks loop) Statement_Task name
      (sm_default\<lparr>table := tbl, cur_state := s0, cur_aggregator := Some s0\<rparr>) w \<and> tbl s0 \<noteq> None"
proof (cases "tbl s0")
  case None
  then show ?thesis using assms by (simp add: st_create_def sm_create_def set_state_unknown throw_def)
next
  case (Some events)
  then show ?thesis
    using assms by (auto simp: st_create_def sm_create_def set_state_silent sm_default_def)
qed

text \<open>
  C1: a statement task is equivalent to the state machine of its table: for a task made by the
  constructor, with the callback and the hooks set before it is used, handlers and a callback that
  leave the machine alone, and whatever its clients' threads do, the answers and exceptions
  given, the state and the world are those of the abstract machine on the first messages posted, as many
  as were handled, one after the other, until the loop has ended.
\<close>

theorem statement_task_is_state_machine:
  fixes tbl :: "('n::len word, 's::{one,uminus}, 'h) state_table"
  assumes "st_create (passive_code act note) hooks loop name tbl s0 w0 = Inr st"
    and "run (task_step (statement_task_code (passive_code act note) hooks loop))
      (set_on_finish fin (set_on_start hook (base (st_set_state_changed cb st)))) ls s"
    and "list_all (\<lambda>l. \<not> reconfigures l) ls" and "\<not> loop_done s" and "\<not> terminated s"
  shows "(map snd (handled s), cur_state (aggregator s), world s) =
    exec_all (st_respond act (callback_of note cb) hooks hook (table_lookup tbl) (\<lambda>t. tbl t \<noteq> None))
      (take (length (handled s)) (posted s)) (s0, w0)"
proof -
  let ?code = "statement_task_code (passive_code act note) hooks loop"
  let ?sm = "(sm_default\<lparr>table := tbl, cur_state := s0, cur_aggregator := Some s0\<rparr>)\<lparr>state_changed := cb\<rparr>
    :: ('n word, 's, 'h, 'b) state_machine"
  have "set_on_finish fin (set_on_start hook (base (st_set_state_changed cb st))) =
      configured_task ?code Statement_Task name hook fin ?sm w0"
    using st_create_machine [OF assms(1)]
    by (simp add: st_set_state_changed_def configured_task_def make_task_def task_base.extend_def)
  from task_is_sequential_server [OF assms(2) [unfolded this] assms(3)] assms(4,5)
  have server: "(map snd (handled s), aggregator s, world s) =
      exec_all (handle_content ?code hook) (take (length (handled s)) (posted s)) (?sm, w0)"
    by (simp add: serve_def)
  have inv: "case (?sm, w0) of (sm, w) \<Rightarrow> ready sm \<and> state_changed sm = cb \<and> sm_lookup sm = table_lookup tbl \<and>
      (\<lambda>t. table sm t \<noteq> None) = (\<lambda>t. tbl t \<noteq> None)"
    using st_create_machine [OF assms(1)] by (simp add: ready_def sm_lookup_def table_lookup_def)
  from stating.exec_all_view [OF inv, of act "note" hooks loop hook "take (length (handled s)) (posted s)"] show ?thesis
    unfolding server [symmetric] by (simp add: fsm_view_def)
qed

theorem statement_task_is_state_machine_witness:
  "\<exists>s :: (8 word, unit, (8 word, int, nat, unit) state_machine, unit, nat list) event_task.
     map snd (handled s) = [Inr True, throw ''Event not found'' OutOfRange] \<and> cur_state (aggregator s) = 1 \<and> world s = [10]"
proof -
  let ?act = "\<lambda>(h :: nat) (req :: (8 word, unit) request) w. (Inr True :: unit exn + bool, w @ [h])"
  let ?note = "\<lambda>(cb :: unit) (s :: int) (t :: int) (w :: nat list). (Inr () :: unit exn + unit, w)"
  let ?tbl = "[0 \<mapsto> [5 \<mapsto> \<lparr>info_handler = 10, info_next_state = 1\<rparr>], 1 \<mapsto> Map.empty] :: (8 word, int, nat) state_table"
  let ?req = "request_plain [] 5 :: (8 word, unit) request"
  let ?code = "statement_task_code (passive_code ?act ?note) no_hooks 0"
  let ?schedule = "[Send_Event 1 ?req, Send_Event 1 ?req, Receive_Message, Process_Message, Receive_Message, Process_Message]"
  have "?tbl 0 \<noteq> None" by simp
  then obtain st where st: "st_create (passive_code ?act ?note) no_hooks 0 ''machine'' ?tbl 0 [] = Inr st"
    by (simp add: st_create_def sm_create_def sm_set_state_def sm_default_def)
  let ?start = "set_on_finish None (set_on_start None (base (st_set_state_changed None st)))"
  obtain sm where start: "?start = configured_task ?code Statement_Task ''machine'' None None sm []"
    using st_create_machine [OF st]
    by (simp add: st_set_state_changed_def configured_task_def set_on_start_def set_on_finish_def make_task_def task_base.extend_def)
  obtain r1 sm1 w1 where p1: "sm_publish (passive_code ?act ?note) 5 ?req (sm, []) = (r1, sm1, w1)"
    using prod_cases3 by blast
  obtain r2 sm2 w2 where p2: "sm_publish (passive_code ?act ?note) 5 ?req (sm1, w1) = (r2, sm2, w2)"
    using prod_cases3 by blast
  obtain s where s: "task_schedule ?code ?start ?schedule = Some s"
      "posted s = [make_content External ?req None, make_content External ?req None]"
      "length (handled s) = length (posted s)" "\<not> loop_done s" "\<not> terminated s"
    using p1 p2 by (simp only: start) (simp add: statement_task_code_def configured_task_def task_eval)
  have "(map snd (handled s), cur_state (aggregator s), world s) =
      exec_all (st_respond ?act (callback_of ?note None) no_hooks None (table_lookup ?tbl) (\<lambda>t. ?tbl t \<noteq> None))
        (take (length (handled s)) (posted s)) (0, [])"
    by (rule statement_task_is_state_machine [OF st task_schedule_run [OF s(1)] _ s(4,5)]) simp
  also have "\<dots> = ([Inr True, throw ''Event not found'' OutOfRange], 1, [10])"
    by (simp add: s(2,3) st_respond_def fsm_respond_def callback_of_def fsm_answer_def table_lookup_def make_content_def
        request_plain_def Let_def kKeepState_def)
  finally show ?thesis by (intro exI [of _ s]) simp
qed

end
