(* ===== verification/Event_Task_Manager.thy ===== *)
theory Event_Task_Manager
  imports Event_Task "HOL-Library.AList"
begin

text \<open>
  \<^verbatim>\<open>include/Task/EventTaskManager.hpp\<close>: tasks registered by name behind a
  \<^verbatim>\<open>std::shared_mutex\<close>. The table is an association list in the map's iteration order, which
  C++ leaves unspecified. The manager's threads run over the tasks' own steps: sending, and
  waiting inside \<^verbatim>\<open>rpc_event\<close>, hold the mutex shared, registering takes it exclusively.
\<close>

section \<open>The table\<close>

type_synonym 'p task_map = "(string \<times> 'p) list"

text \<open>A \<^verbatim>\<open>TaskPtr\<close> may be null.\<close>

definition register_task :: "string \<Rightarrow> 'p option \<Rightarrow> 'p task_map \<Rightarrow> ('v, 'p task_map) result" where
  "register_task name task tasks =
     (case task of
        None \<Rightarrow> throw ''register_task: task must not be null'' InvalidArgument
      | Some p \<Rightarrow> Inr (AList.update name p tasks))"

definition unregister_task :: "string \<Rightarrow> 'p task_map \<Rightarrow> 'p task_map" where
  "unregister_task name tasks = AList.delete name tasks"

definition has_task :: "string \<Rightarrow> 'p task_map \<Rightarrow> bool" where
  "has_task name tasks = (map_of tasks name \<noteq> None)"

definition task_names :: "'p task_map \<Rightarrow> string list" where
  "task_names tasks = map fst tasks"

definition find_or_throw :: "string \<Rightarrow> 'p task_map \<Rightarrow> ('v, 'p) result" where
  "find_or_throw name tasks =
     (case map_of tasks name of
        None \<Rightarrow> throw (''EventTaskManager: task not found: '' @ name) InvalidArgument
      | Some p \<Rightarrow> Inr p)"

definition get_task :: "string \<Rightarrow> 'p task_map \<Rightarrow> ('v, 'p) result" where
  "get_task name tasks = find_or_throw name tasks"

text \<open>The destructor gives all tasks back.\<close>

definition mgr_destroy :: "'p task_map \<Rightarrow> 'p task_map" where
  "mgr_destroy tasks = []"

lemma mgr_destroy_empty: "\<not> has_task name (mgr_destroy tasks) \<and> task_names (mgr_destroy tasks) = []"
  by (simp add: has_task_def task_names_def mgr_destroy_def)

text \<open>The last registration of a name wins, as \<^verbatim>\<open>insert_or_assign\<close> replaces.\<close>

interpretation tasks: assign_registry AList.update "map_of :: (string \<times> 'p) list \<Rightarrow> _"
  by unfold_locales (simp add: update_conv')

datatype 'p write_op = Register string 'p | Unregister string

fun write_tasks :: "'p write_op \<Rightarrow> 'p task_map \<Rightarrow> 'p task_map" where
  "write_tasks (Register name p) tasks = AList.update name p tasks"
| "write_tasks (Unregister name) tasks = unregister_task name tasks"

fun names_write :: "string \<Rightarrow> 'p write_op \<Rightarrow> bool" where
  "names_write n (Register name p) = (name = n)"
| "names_write n (Unregister name) = (name = n)"

fun written :: "'p write_op \<Rightarrow> 'p option" where
  "written (Register name p) = Some p"
| "written (Unregister name) = None"

lemma write_lookup:
  "map_of (write_tasks op tasks) n = (if names_write n op then written op else map_of tasks n)"
  by (cases op) (auto simp: update_conv' unregister_task_def delete_conv')

lemma write_distinct: "distinct (map fst tasks) \<Longrightarrow> distinct (map fst (write_tasks op tasks))"
  by (cases op) (simp_all add: distinct_update unregister_task_def distinct_delete)

lemma writes_distinct: "distinct (map fst tasks) \<Longrightarrow> distinct (map fst (fold write_tasks ops tasks))"
  by (induction ops arbitrary: tasks) (simp_all add: write_distinct)

lemma writes_lookup:
  "map_of (fold write_tasks ops tasks) n =
     (case filter (names_write n) (rev ops) of [] \<Rightarrow> map_of tasks n | op # _ \<Rightarrow> written op)"
  by (induction ops arbitrary: tasks) (auto simp: write_lookup split: list.split)

text \<open>
  After any sequence of registrations and removals, looking a name up gives the task of the
  last of them that names it, or throws \<^verbatim>\<open>task not found\<close> with the name when it was a removal
  or there was none; \<^verbatim>\<open>task_names\<close> lists each registered name once, and no other.
\<close>

theorem manager_last_write_wins:
  fixes ops :: "'p write_op list"
  shows "get_task n (fold write_tasks ops []) =
    (case filter (names_write n) (rev ops) of
       Register name p # _ \<Rightarrow> Inr p
     | _ \<Rightarrow> throw (''EventTaskManager: task not found: '' @ n) InvalidArgument) \<and>
    (n \<in> set (task_names (fold write_tasks ops [])) \<longleftrightarrow> has_task n (fold write_tasks ops [])) \<and>
    distinct (task_names (fold write_tasks ops []))"
  using writes_distinct [of "[]" ops] writes_lookup [of ops "[]" n]
  by (auto simp: get_task_def find_or_throw_def task_names_def has_task_def map_of_eq_None_iff
      intro: rev_image_eqI split: list.splits write_op.splits option.splits)

section \<open>The manager among threads\<close>

text \<open>
  \<open>readers\<close> maps the threads inside a blocking \<^verbatim>\<open>rpc_event\<close> of the manager, which keep the
  mutex shared, to the task they wait for; \<open>writers\<close> the threads waiting for the mutex to
  register or remove a task. \<open>store\<close> holds the tasks themselves.
\<close>

record ('p, 'c, 'v, 'a, 'k, 'w) manager =
  tasks :: "'p task_map"
  readers :: "tid \<Rightarrow> 'p option"
  writers :: "tid \<Rightarrow> 'p write_op option"
  store :: "'p \<Rightarrow> ('c, 'v, 'a, 'k, 'w) event_task"

datatype ('p, 'c, 'v, 'a, 'k) manager_action =
    Mgr_Write tid "'p write_op"
  | Mgr_Write_Done tid
  | Mgr_Send tid string "('c, 'v) request"
  | Mgr_Rpc tid string "('c, 'v) request" millis
  | Mgr_Rpc_End tid bool
  | Task_Step 'p "('c, 'v, 'a, 'k) task_action"

text \<open>A thread outside the manager.\<close>

definition free :: "tid \<Rightarrow> ('p, 'c, 'v, 'a, 'k, 'w) manager \<Rightarrow> bool" where
  "free t m \<longleftrightarrow> readers m t = None \<and> writers m t = None"

text \<open>The thread that performs an action of a task.\<close>

fun acting :: "tid \<Rightarrow> ('c, 'v, 'a, 'k) task_action \<Rightarrow> tid option" where
  "acting loop (Send_Event t req) = Some t"
| "acting loop (Rpc_Event t req ms) = Some t"
| "acting loop (Start t) = Some t"
| "acting loop (Stop t) = Some t"
| "acting loop (End_Wait t up) = Some t"
| "acting loop (End_Join t) = Some t"
| "acting loop (Set_On_Start hook) = None"
| "acting loop (Set_On_Finish hook) = None"
| "acting loop (Access a) = None"
| "acting loop Receive_Message = Some loop"
| "acting loop Process_Message = Some loop"
| "acting loop Finish_Loop = Some loop"

definition on_task ::
  "('p \<Rightarrow> ('n::len word, 'v, 'a, 'k, 'w) task_code) \<Rightarrow> 'p \<Rightarrow> ('n word, 'v, 'a, 'k) task_action
   \<Rightarrow> ('p, 'n word, 'v, 'a, 'k, 'w) manager \<Rightarrow> ('p, 'n word, 'v, 'a, 'k, 'w) manager option"
where
  "on_task code p l m =
     (case task_exec (code p) l (store m p) of
        None \<Rightarrow> None
      | Some s \<Rightarrow> Some (m\<lparr>store := (store m)(p := s)\<rparr>))"

text \<open>
  \<^verbatim>\<open>send_event\<close> and the begin of \<^verbatim>\<open>rpc_event\<close>: an unknown name throws, and changes
  nothing.
\<close>

definition mgr_send_event ::
  "('p \<Rightarrow> ('n::len word, 'v, 'a, 'k, 'w) task_code) \<Rightarrow> tid \<Rightarrow> string \<Rightarrow> ('n word, 'v) request
   \<Rightarrow> ('p, 'n word, 'v, 'a, 'k, 'w) manager \<Rightarrow> (('v, unit) result \<times> ('p, 'n word, 'v, 'a, 'k, 'w) manager) option"
where
  "mgr_send_event code t name req m =
     (case find_or_throw name (tasks m) of
        Inl e \<Rightarrow> Some (Inl e, m)
      | Inr p \<Rightarrow> (case on_task code p (Send_Event t req) m of None \<Rightarrow> None | Some m' \<Rightarrow> Some (Inr (), m')))"

definition mgr_rpc_event ::
  "('p \<Rightarrow> ('n::len word, 'v, 'a, 'k, 'w) task_code) \<Rightarrow> tid \<Rightarrow> string \<Rightarrow> ('n word, 'v) request \<Rightarrow> millis
   \<Rightarrow> ('p, 'n word, 'v, 'a, 'k, 'w) manager \<Rightarrow> (('v, unit) result \<times> ('p, 'n word, 'v, 'a, 'k, 'w) manager) option"
where
  "mgr_rpc_event code t name req timeout m =
     (case find_or_throw name (tasks m) of
        Inl e \<Rightarrow> Some (Inl e, m)
      | Inr p \<Rightarrow> (case on_task code p (Rpc_Event t req timeout) m of
                   None \<Rightarrow> None
                 | Some m' \<Rightarrow> Some (Inr (), m'\<lparr>readers := (readers m')(t \<mapsto> p)\<rparr>)))"

definition mgr_rpc_end ::
  "('p \<Rightarrow> ('n::len word, 'v, 'a, 'k, 'w) task_code) \<Rightarrow> tid \<Rightarrow> bool
   \<Rightarrow> ('p, 'n word, 'v, 'a, 'k, 'w) manager \<Rightarrow> ('p, 'n word, 'v, 'a, 'k, 'w) manager option"
where
  "mgr_rpc_end code t up m =
     (case readers m t of
        None \<Rightarrow> None
      | Some p \<Rightarrow> (case on_task code p (End_Wait t up) m of
                    None \<Rightarrow> None | Some m' \<Rightarrow> Some (m'\<lparr>readers := (readers m')(t := None)\<rparr>)))"

text \<open>The exclusive lock is granted once nobody holds the mutex shared.\<close>

definition mgr_write_done ::
  "tid \<Rightarrow> ('p, 'c, 'v, 'a, 'k, 'w) manager \<Rightarrow> ('p, 'c, 'v, 'a, 'k, 'w) manager option"
where
  "mgr_write_done t m =
     (case writers m t of
        None \<Rightarrow> None
      | Some op \<Rightarrow>
          if readers m = (\<lambda>_. None)
          then Some (m\<lparr>tasks := write_tasks op (tasks m), writers := (writers m)(t := None)\<rparr>) else None)"

text \<open>
  One step of a manager with its tasks. A handler that calls the manager runs on its task's loop
  thread, so the loop cannot go on while that thread is inside the manager.
\<close>

inductive manager_step ::
  "('p \<Rightarrow> ('n::len word, 'v, 'a, 'k, 'w) task_code) \<Rightarrow> ('p, 'n word, 'v, 'a, 'k, 'w) manager
   \<Rightarrow> ('p, 'n word, 'v, 'a, 'k) manager_action \<Rightarrow> ('p, 'n word, 'v, 'a, 'k, 'w) manager \<Rightarrow> bool"
  for code :: "'p \<Rightarrow> ('n::len word, 'v, 'a, 'k, 'w) task_code" where
  write_call: "free t m \<Longrightarrow> manager_step code m (Mgr_Write t op) (m\<lparr>writers := (writers m)(t \<mapsto> op)\<rparr>)"
| write_done: "mgr_write_done t m = Some m' \<Longrightarrow> manager_step code m (Mgr_Write_Done t) m'"
| send: "free t m \<Longrightarrow> mgr_send_event code t name req m = Some (r, m') \<Longrightarrow>
    manager_step code m (Mgr_Send t name req) m'"
| rpc: "free t m \<Longrightarrow> mgr_rpc_event code t name req ms m = Some (r, m') \<Longrightarrow>
    manager_step code m (Mgr_Rpc t name req ms) m'"
| rpc_end: "mgr_rpc_end code t up m = Some m' \<Longrightarrow> manager_step code m (Mgr_Rpc_End t up) m'"
| task: "(\<And>t. acting (loop_thread (code p)) l = Some t \<Longrightarrow> free t m) \<Longrightarrow> on_task code p l m = Some m' \<Longrightarrow>
    manager_step code m (Task_Step p l) m'"

inductive_cases manager_stepE: "manager_step code m l m'"

section \<open>Each task is still a task\<close>

text \<open>A step of the manager is a step of one task, or of none.\<close>

lemma task_of_store:
  "on_task code q l m = Some m' \<Longrightarrow> store m' p = store m p \<or> task_step (code p) (store m p) l (store m' p)"
  by (auto simp: on_task_def task_step_def split: option.splits)

lemma manager_step_store:
  assumes "manager_step code m l m'"
  shows "store m' p = store m p \<or> (\<exists>k. task_step (code p) (store m p) k (store m' p))"
  using assms
proof cases
  case (send t name req r)
  then show ?thesis
    using task_of_store [of code _ "Send_Event t req" m m' p]
    by (auto simp: mgr_send_event_def split: sum.splits option.splits)
next
  case (rpc t name req ms r)
  then show ?thesis
    by (auto simp: mgr_rpc_event_def split: sum.splits option.splits
        dest!: task_of_store [of code _ "Rpc_Event t req ms" m _ p])
next
  case (rpc_end t up)
  then obtain q m1 where "on_task code q (End_Wait t up) m = Some m1" "store m' = store m1"
    by (auto simp: mgr_rpc_end_def split: option.splits)
  then show ?thesis using task_of_store [of code q "End_Wait t up" m m1 p] by auto
next
  case (task q k)
  from task_of_store [OF task(3), of p] show ?thesis by blast
qed (auto simp: mgr_write_done_def split: option.splits if_splits)

interpretation manager_tasks: unconditional_invariant "manager_step code" "\<lambda>m. \<forall>p. task_inv (store m p)"
  for code :: "'p \<Rightarrow> ('n::len word, 'v, 'a, 'k, 'w) task_code"
  by unfold_locales (metis manager_step_store task.inv_step)

section \<open>Routing\<close>

text \<open>
  An event sent through the manager goes to the registered task and to no other: it is the
  last message posted there and nothing else of any task changes; an unknown name throws and
  changes nothing.
\<close>

theorem manager_routes_to_registered_task:
  fixes m :: "('p, 'n::len word, 'v, 'a, 'k, 'w) manager"
  assumes "mgr_send_event code t name req m = Some (r, m')"
  shows "(case map_of (tasks m) name of
     None \<Rightarrow> m' = m \<and> r = throw (''EventTaskManager: task not found: '' @ name) InvalidArgument
   | Some p \<Rightarrow> r = Inr () \<and> posted (store m' p) = posted (store m p) @ [make_content External req None] \<and>
       m' = m\<lparr>store := (store m)(p := (store m p)\<lparr>
         message_queue := message_queue (store m p) @ [make_content External req None],
         posted := posted (store m' p)\<rparr>)\<rparr>)"
  using assms
  by (auto simp: mgr_send_event_def find_or_throw_def on_task_def send_event_def post_eq throw_def
      split: option.splits if_splits)

definition counting_manager :: "(nat, 8 word, unit, unit, unit, nat) manager" where
  "counting_manager =
     \<lparr>tasks = [(''a'', 0), (''b'', 1)], readers = (\<lambda>_. None), writers = (\<lambda>_. None),
      store = (\<lambda>p. make_task (counting_code\<lparr>loop_thread := p\<rparr>) Message_Task ''t'' () 0)\<rparr>"

theorem manager_routes_to_registered_task_witness:
  "\<exists>m'. mgr_send_event (\<lambda>p. counting_code\<lparr>loop_thread := p\<rparr>) 7 ''b'' (request_plain [] 3) counting_manager = Some (Inr (), m') \<and>
     posted (store m' 1) = posted (store counting_manager 1) @ [make_content External (request_plain [] 3) None]"
proof -
  obtain r m' where m': "mgr_send_event (\<lambda>p. counting_code\<lparr>loop_thread := p\<rparr>) 7 ''b'' (request_plain [] 3)
      counting_manager = Some (r, m')"
    by (simp add: mgr_send_event_def find_or_throw_def on_task_def counting_manager_def task_eval)
  from manager_routes_to_registered_task [OF m'] m' show ?thesis by (simp add: counting_manager_def)
qed

text \<open>
  The registrations and removals a run of the manager's threads completes, in the order in which
  they got the mutex; \<open>ws\<close> are those under way at its start.
\<close>

primrec writes_done ::
  "(tid \<Rightarrow> 'p write_op option) \<Rightarrow> ('p, 'c, 'v, 'a, 'k) manager_action list \<Rightarrow> 'p write_op list"
where
  "writes_done ws [] = []"
| "writes_done ws (l # ls) =
     (case l of
        Mgr_Write t op \<Rightarrow> writes_done (ws(t \<mapsto> op)) ls
      | Mgr_Write_Done t \<Rightarrow> (case ws t of None \<Rightarrow> [] | Some op \<Rightarrow> [op]) @ writes_done (ws(t := None)) ls
      | _ \<Rightarrow> writes_done ws ls)"

lemma manager_step_table:
  assumes "manager_step code m l m'"
  shows "tasks m' = fold write_tasks (writes_done (writers m) [l]) (tasks m) \<and>
    writes_done (writers m) (l # ls) = writes_done (writers m) [l] @ writes_done (writers m') ls"
  using assms
proof cases
  case (send t name req r)
  then have "tasks m' = tasks m \<and> writers m' = writers m"
    by (auto simp: mgr_send_event_def on_task_def split: sum.splits option.splits)
  with send(1) show ?thesis by simp
next
  case (rpc t name req ms r)
  then have "tasks m' = tasks m \<and> writers m' = writers m"
    by (auto simp: mgr_rpc_event_def on_task_def split: sum.splits option.splits)
  with rpc(1) show ?thesis by simp
next
  case (rpc_end t up)
  then have "tasks m' = tasks m \<and> writers m' = writers m"
    by (auto simp: mgr_rpc_end_def on_task_def split: sum.splits option.splits)
  with rpc_end(1) show ?thesis by simp
next
  case (task q k)
  then have "tasks m' = tasks m \<and> writers m' = writers m" by (auto simp: on_task_def split: option.splits)
  with task(1) show ?thesis by simp
qed (auto simp: mgr_write_done_def split: option.splits if_splits)

lemma manager_run_table:
  "run (manager_step code) m ls m' \<Longrightarrow> tasks m' = fold write_tasks (writes_done (writers m) ls) (tasks m)"
proof (induction rule: run.induct)
  case (run_cons s l t ls u)
  note step = manager_step_table [OF run_cons.hyps(1), of ls]
  have "tasks u = fold write_tasks (writes_done (writers t) ls) (fold write_tasks (writes_done (writers s) [l]) (tasks s))"
    using run_cons.IH step by simp
  then show ?case using step by (metis comp_apply fold_append)
qed simp

text \<open>
  C28: In every run of threads that register, remove, send and call through a manager, a name stands for
  the task of the last completed registration or removal that names it, \<^verbatim>\<open>task_names\<close> lists
  the registered names once each, and an event sent at that moment is posted to that task and
  changes no other; where there is none it throws \<^verbatim>\<open>task not found\<close> with the name.
\<close>

theorem manager_routes_by_last_write:
  fixes m :: "('p, 'n::len word, 'v, 'a, 'k, 'w) manager"
  assumes "run (manager_step code) m0 ls m" and "tasks m0 = []" and "writers m0 = (\<lambda>_. None)"
  shows "(get_task n (tasks m) :: ('v, 'p) result) =
      (case filter (names_write n) (rev (writes_done (\<lambda>_. None) ls)) of
         Register name p # _ \<Rightarrow> Inr p
       | _ \<Rightarrow> throw (''EventTaskManager: task not found: '' @ n) InvalidArgument) \<and>
    (n \<in> set (task_names (tasks m)) \<longleftrightarrow> has_task n (tasks m)) \<and> distinct (task_names (tasks m)) \<and>
    (\<forall>t req r m'. mgr_send_event code t n req m = Some (r, m') \<longrightarrow>
       (case get_task n (tasks m) of
          Inl e \<Rightarrow> r = Inl e \<and> m' = m
        | Inr p \<Rightarrow> r = Inr () \<and> posted (store m' p) = posted (store m p) @ [make_content External req None] \<and>
            (\<forall>q. q \<noteq> p \<longrightarrow> store m' q = store m q)))"
proof -
  have table: "tasks m = fold write_tasks (writes_done (\<lambda>_. None) ls) []"
    using manager_run_table [OF assms(1)] assms(2,3) by simp
  have "\<forall>t req r m'. mgr_send_event code t n req m = Some (r, m') \<longrightarrow>
       (case get_task n (tasks m) of
          Inl e \<Rightarrow> r = Inl e \<and> m' = m
        | Inr p \<Rightarrow> r = Inr () \<and> posted (store m' p) = posted (store m p) @ [make_content External req None] \<and>
            (\<forall>q. q \<noteq> p \<longrightarrow> store m' q = store m q))"
    by (auto simp: get_task_def mgr_send_event_def find_or_throw_def on_task_def send_event_def post_eq throw_def
        split: option.splits if_splits)
  with manager_last_write_wins [of n "writes_done (\<lambda>_. None) ls"] show ?thesis unfolding table by blast
qed

theorem manager_routes_by_last_write_witness:
  "\<exists>m. run (manager_step (\<lambda>p. counting_code\<lparr>loop_thread := p\<rparr>)) (counting_manager\<lparr>tasks := []\<rparr>)
     [Mgr_Write 5 (Register ''a'' 0), Mgr_Write 6 (Register ''a'' 1), Mgr_Write_Done 6, Mgr_Write_Done 5] m \<and>
     get_task ''a'' (tasks m) = (Inr 0 :: (unit, nat) result) \<and> task_names (tasks m) = [''a'']"
proof -
  let ?code = "\<lambda>p. counting_code\<lparr>loop_thread := p\<rparr>"
  let ?m0 = "counting_manager\<lparr>tasks := []\<rparr>"
  let ?m1 = "?m0\<lparr>writers := (writers ?m0)(5 \<mapsto> Register ''a'' 0)\<rparr>"
  let ?m2 = "?m1\<lparr>writers := (writers ?m1)(6 \<mapsto> Register ''a'' 1)\<rparr>"
  obtain m3 where m3: "mgr_write_done 6 ?m2 = Some m3" by (simp add: mgr_write_done_def counting_manager_def)
  obtain m where m: "mgr_write_done 5 m3 = Some m" "task_names (tasks m) = [''a'']"
    using m3 by (auto simp: mgr_write_done_def counting_manager_def task_names_def)
  have "run (manager_step ?code) ?m0
     [Mgr_Write 5 (Register ''a'' 0), Mgr_Write 6 (Register ''a'' 1), Mgr_Write_Done 6, Mgr_Write_Done 5] m"
    unfolding run_Cons_iff
    using manager_step.write_call [of 5 ?m0 ?code "Register ''a'' 0"] manager_step.write_call [of 6 ?m1 ?code "Register ''a'' 1"]
      manager_step.write_done [OF m3, of ?code] manager_step.write_done [OF m(1), of ?code]
    by (fastforce simp: free_def counting_manager_def)
  from this manager_routes_by_last_write [OF this, of "''a''"] m(2) show ?thesis
    by (intro exI [of _ m]) (simp add: counting_manager_def)
qed

section \<open>Waiting inside the manager\<close>

text \<open>
  A thread waits without limit for a task whose handler, called on the task's loop thread, wants
  the exclusive lock.
\<close>

definition handler_wants_lock ::
  "('p \<Rightarrow> ('n::len word, 'v, 'a, 'k, 'w) task_code) \<Rightarrow> tid \<Rightarrow> 'p
   \<Rightarrow> ('p, 'n word, 'v, 'a, 'k, 'w) manager \<Rightarrow> bool"
where
  "handler_wants_lock code t p m \<longleftrightarrow>
     readers m t = Some p \<and> writers m (loop_thread (code p)) \<noteq> None \<and>
     (case clients (store m p) t of
        Waiting call sd ms c \<Rightarrow>
          ms = kWaitForever \<and> wait_for_response (responses (store m p)) sd ms False = None
      | _ \<Rightarrow> False)"

lemma stuck_on_task:
  assumes "handler_wants_lock code t p m" and "task_exec (code p) l (store m p) = Some s'"
    and "l \<noteq> Process_Message"
  shows "clients s' t = clients (store m p) t \<and> responses s' = responses (store m p) \<and>
    handled s' = handled (store m p)"
proof -
  obtain call sd c where "clients (store m p) t = Waiting call sd kWaitForever c"
      "wait_for_response (responses (store m p)) sd kWaitForever False = None"
    using assms(1) by (auto simp: handler_wants_lock_def split: client.splits)
  with waiting_stays only_process_answers assms(2,3) show ?thesis
    unfolding task_step_def by metis
qed

lemma on_task_store:
  "on_task code q l m = Some m' \<Longrightarrow>
     readers m' = readers m \<and> writers m' = writers m \<and> tasks m' = tasks m \<and>
     (\<exists>s. task_exec (code q) l (store m q) = Some s \<and> store m' = (store m)(q := s))"
  by (auto simp: on_task_def split: option.splits)

lemma stuck_on_any_task:
  assumes "handler_wants_lock code t p m" and "on_task code q l m = Some m'"
    and "q = p \<Longrightarrow> l \<noteq> Process_Message"
  shows "clients (store m' p) t = clients (store m p) t \<and> responses (store m' p) = responses (store m p) \<and>
    handled (store m' p) = handled (store m p)"
  using on_task_store [OF assms(2)] stuck_on_task [OF assms(1)] assms(3) by fastforce

lemma blocked_wait:
  assumes "handler_wants_lock code t p m"
  shows "on_task code p (End_Wait t up) m = None"
  using assms
  by (auto simp: handler_wants_lock_def on_task_def end_wait_def wait_for_response_def
      split: client.splits option.splits if_splits)

lemma handler_wants_lock_cong:
  assumes "handler_wants_lock code t p m" and "readers m' t = readers m t"
    and "writers m' (loop_thread (code p)) = writers m (loop_thread (code p))"
    and "clients (store m' p) t = clients (store m p) t \<and> responses (store m' p) = responses (store m p) \<and>
      handled (store m' p) = handled (store m p)"
  shows "handler_wants_lock code t p m' \<and> handled (store m' p) = handled (store m p)"
  using assms by (simp add: handler_wants_lock_def split: client.splits)

lemma handler_wants_lock_step:
  assumes st: "manager_step code m l m'" and w: "handler_wants_lock code t p m"
  shows "handler_wants_lock code t p m' \<and> handled (store m' p) = handled (store m p) \<and> tasks m' = tasks m"
proof -
  have busy: "\<not> free t m" "\<not> free (loop_thread (code p)) m" "readers m \<noteq> (\<lambda>_. None)"
    using w by (auto simp: handler_wants_lock_def free_def)
  note cong = handler_wants_lock_cong [OF w]
  have frame: "handler_wants_lock code t p m2 \<and> handled (store m2 p) = handled (store m p) \<and> tasks m2 = tasks m"
    if "on_task code q a m = Some m1" "q = p \<Longrightarrow> a \<noteq> Process_Message" "readers m2 t = readers m t"
      "writers m2 = writers m" "tasks m2 = tasks m" "store m2 = store m1" for q a m1 m2
    using cong [of m2] stuck_on_any_task [OF w that(1,2)] that(3-6) by simp
  from st show ?thesis
  proof (cases rule: manager_step.cases)
    case (write_call u op)
    then have "u \<noteq> loop_thread (code p)" using busy by blast
    with write_call cong [of m'] show ?thesis by simp
  next
    case (write_done u)
    with busy show ?thesis by (auto simp: mgr_write_done_def split: option.splits if_splits)
  next
    case (send u name req r)
    then consider "m' = m" | q where "on_task code q (Send_Event u req) m = Some m'"
      by (auto simp: mgr_send_event_def split: option.splits sum.splits)
    then show ?thesis
    proof cases
      case (2 q)
      then show ?thesis using frame [OF 2, of m'] on_task_store [OF 2] by simp
    qed (use w in simp)
  next
    case (rpc u name req ms r)
    then consider "m' = m" | q m1 where "on_task code q (Rpc_Event u req ms) m = Some m1"
        "m' = m1\<lparr>readers := (readers m1)(u \<mapsto> q)\<rparr>"
      by (auto simp: mgr_rpc_event_def split: option.splits sum.splits)
    then show ?thesis
    proof cases
      case (2 q m1)
      have "u \<noteq> t" using rpc busy by blast
      then show ?thesis using frame [OF 2(1), of m'] on_task_store [OF 2(1)] 2(2) by simp
    qed (use w in simp)
  next
    case (rpc_end u up)
    then obtain q m1 where q: "readers m u = Some q" "on_task code q (End_Wait u up) m = Some m1"
        "m' = m1\<lparr>readers := (readers m1)(u := None)\<rparr>"
      by (auto simp: mgr_rpc_end_def split: option.splits)
    have "u \<noteq> t" using q blocked_wait [OF w] w by (auto simp: handler_wants_lock_def)
    then show ?thesis using frame [OF q(2), of m'] on_task_store [OF q(2)] q(3) by simp
  next
    case (task q a)
    have "a \<noteq> Process_Message" if "q = p" using task(2) [of "loop_thread (code p)"] busy that by auto
    then show ?thesis using frame [OF task(3), of m'] on_task_store [OF task(3)] by simp
  qed
qed

lemma handler_wants_lock_inv:
  "manager_step code m l m' \<Longrightarrow>
   handler_wants_lock code t p m \<and> handled (store m p) = hs \<and> tasks m = ts \<Longrightarrow>
   handler_wants_lock code t p m' \<and> handled (store m' p) = hs \<and> tasks m' = ts"
  using handler_wants_lock_step by metis

interpretation manager_stuck: unconditional_invariant "manager_step code"
  "\<lambda>m. handler_wants_lock code t p m \<and> handled (store m p) = hs \<and> tasks m = ts"
  for code :: "'p \<Rightarrow> ('n::len word, 'v, 'a, 'k, 'w) task_code" and t p hs ts
  by unfold_locales (rule handler_wants_lock_inv)

text \<open>
  C23: when a thread waits in the manager's \<^verbatim>\<open>rpc_event\<close> without a time limit and the handler
  of the task registers or removes a task at the same manager, both wait for ever: the handler
  never returns, the call never ends, and no registration of any thread ever succeeds again.
\<close>

theorem manager_rpc_registration_deadlock:
  assumes "handler_wants_lock code t p m" and "reaches (manager_step code) m m'"
  shows "readers m' t = Some p \<and> writers m' (loop_thread (code p)) \<noteq> None \<and>
    handled (store m' p) = handled (store m p) \<and> tasks m' = tasks m"
  using manager_stuck.inv_reaches [OF assms(2), of t p "handled (store m p)" "tasks m"] assms(1)
  by (simp add: handler_wants_lock_def)

theorem manager_rpc_registration_deadlock_witness:
  "\<exists>m. reaches (manager_step (\<lambda>p. counting_code\<lparr>loop_thread := p\<rparr>)) counting_manager m \<and>
     (\<forall>m'. reaches (manager_step (\<lambda>p. counting_code\<lparr>loop_thread := p\<rparr>)) m m' \<longrightarrow>
        readers m' 7 = Some 1 \<and> tasks m' = [(''a'', 0), (''b'', 1)])"
proof -
  let ?code = "\<lambda>p. counting_code\<lparr>loop_thread := p\<rparr>"
  let ?step = "manager_step ?code"
  obtain r m1 m2 where m1: "mgr_rpc_event ?code 7 ''b'' (request_plain [] 3) 0 counting_manager = Some (r, m1)"
        "readers m1 1 = None" "writers m1 1 = None"
      and m2: "on_task ?code 1 Receive_Message m1 = Some m2" "readers m2 = (\<lambda>_. None)(7 \<mapsto> 1)"
        "writers m2 = (\<lambda>_. None)" "tasks m2 = [(''a'', 0), (''b'', 1)]" "responses (store m2 1) = (\<lambda>_. None)"
        "clients (store m2 1) 7 = Waiting Calling \<lparr>sender_response = Some 0, sent_flag = True\<rparr> kWaitForever
           (make_content External (request_plain [] 3) (Some 0))"
    by (simp add: mgr_rpc_event_def find_or_throw_def on_task_def counting_manager_def counting_code_def task_eval)
  have s1: "?step counting_manager (Mgr_Rpc 7 ''b'' (request_plain [] 3) 0) m1"
    by (rule manager_step.rpc [OF _ m1(1)]) (simp add: free_def counting_manager_def)
  have s2: "?step m1 (Task_Step 1 Receive_Message) m2"
    by (rule manager_step.task [OF _ m2(1)]) (use m1 in \<open>auto simp: free_def\<close>)
  let ?m3 = "m2\<lparr>writers := (writers m2)(1 \<mapsto> Unregister ''a'')\<rparr>"
  have s3: "?step m2 (Mgr_Write 1 (Unregister ''a'')) ?m3"
    by (rule manager_step.write_call) (simp add: free_def m2)
  have "handler_wants_lock ?code 7 1 ?m3 \<and> tasks ?m3 = [(''a'', 0), (''b'', 1)]"
    by (simp add: handler_wants_lock_def m2 wait_for_response_def kWaitForever_def del: One_nat_def)
  with manager_rpc_registration_deadlock [of ?code 7 1 ?m3] have
    "\<forall>m'. reaches ?step ?m3 m' \<longrightarrow> readers m' 7 = Some 1 \<and> tasks m' = [(''a'', 0), (''b'', 1)]" by metis
  moreover have "reaches ?step counting_manager ?m3"
    by (rule reachesI, rule run_cons, rule s1, rule run_cons, rule s2, rule run_cons, rule s3, rule run_nil)
  ultimately show ?thesis by blast
qed

end
