(* ===== verification/Managed_Tasks.thy ===== *)
theory Managed_Tasks
  imports Event_Task_Manager Task_Server
begin

text \<open>
  What the tasks behind an \<^verbatim>\<open>EventTaskManager\<close> (\<^verbatim>\<open>include/Task/EventTaskManager.hpp\<close>)
  do in a run of the manager: each task's part of it is a run of that task alone, so that what is
  proved of the runs of one task holds behind a manager.
\<close>

section \<open>A task's part of a run\<close>

text \<open>Somebody changes a task's hooks, or its aggregator from outside its loop.\<close>

fun mgr_reconfigures :: "('p, 'c, 'v, 'a, 'k) manager_action \<Rightarrow> bool" where
  "mgr_reconfigures (Task_Step p l) = reconfigures l"
| "mgr_reconfigures l = False"

lemma manager_step_on_task:
  assumes "manager_step code m l m'"
  shows "store m' = store m \<or> (\<exists>q k m1. on_task code q k m = Some m1 \<and> store m' = store m1 \<and>
    (reconfigures k \<longrightarrow> mgr_reconfigures l))"
  using assms
proof cases
  case (send t name req r)
  then show ?thesis
    by (fastforce simp: mgr_send_event_def split: sum.splits option.splits intro: exI [of _ "Send_Event t req"])
next
  case (rpc t name req ms r)
  then show ?thesis
    by (fastforce simp: mgr_rpc_event_def split: sum.splits option.splits intro: exI [of _ "Rpc_Event t req ms"])
next
  case (rpc_end t up)
  then show ?thesis
    by (fastforce simp: mgr_rpc_end_def split: option.splits intro: exI [of _ "End_Wait t up"])
next
  case (task q k)
  then show ?thesis by auto
qed (auto simp: mgr_write_done_def split: option.splits if_splits)

lemma task_part:
  assumes "run (manager_step code) m ls m'"
  shows "\<exists>ks. run (task_step (code p)) (store m p) ks (store m' p) \<and>
    (list_all (\<lambda>l. \<not> mgr_reconfigures l) ls \<longrightarrow> list_all (\<lambda>k. \<not> reconfigures k) ks)"
  using assms
proof (induction rule: run.induct)
  case (run_nil s)
  show ?case by (intro exI [of _ "[]"]) (simp add: run.run_nil)
next
  case (run_cons s l t ls u)
  then obtain ks where ks: "run (task_step (code p)) (store t p) ks (store u p)"
      "list_all (\<lambda>l. \<not> mgr_reconfigures l) ls \<longrightarrow> list_all (\<lambda>k. \<not> reconfigures k) ks" by blast
  from manager_step_on_task [OF run_cons.hyps(1)] show ?case
  proof
    assume "store t = store s"
    with ks show ?thesis by auto
  next
    assume "\<exists>q k m1. on_task code q k s = Some m1 \<and> store t = store m1 \<and> (reconfigures k \<longrightarrow> mgr_reconfigures l)"
    then obtain q k m1 where k: "on_task code q k s = Some m1" "store t = store m1" "reconfigures k \<longrightarrow> mgr_reconfigures l"
      by blast
    from task_of_store [OF k(1), of p] show ?thesis
    proof
      assume "store m1 p = store s p"
      with ks k(2) show ?thesis by auto
    next
      assume "task_step (code p) (store s p) k (store m1 p)"
      with ks k(2,3) show ?thesis by (intro exI [of _ "k # ks"]) (auto intro: run.run_cons)
    qed
  qed
qed

lemma task_part_reachable:
  "reaches (manager_step code) m m' \<Longrightarrow> reaches (task_step (code p)) (store m p) (store m' p)"
  using task_part [of code m _ m' p] unfolding reaches_def by blast

end
