(* ===== verification/Task_Pool.thy ===== *)
theory Task_Pool
  imports Monitor Task_Base
begin

text \<open>
  \<^verbatim>\<open>include/Task/TaskPool.hpp\<close> and \<^verbatim>\<open>lib/Task/TaskPool.cpp\<close>: worker threads that take
  tasks from a queue. The queue, the flag \<^verbatim>\<open>stop_\<close> and the count of running tasks are a class of
  monitors (the two atomics are used without the mutex); the worker's loop is a program over
  its operations. \<^verbatim>\<open>stop\<close> sets the flag and notifies without the mutex, so the class does
  not keep the discipline of \<open>Monitor\<close>: \<open>pool_stop_loses_wakeup\<close> gives the run in which a
  worker sleeps through it.
\<close>

section \<open>Histories\<close>

text \<open>
  What holds of the state and the history of a class of monitors because every body keeps it,
  whatever the discipline.
\<close>

locale history_invariant =
  fixes c :: "('o, 's, 'r) monitor_class"
    and P :: "'s \<Rightarrow> ('o, 'r) event list \<Rightarrow> bool"
  assumes body_keeps: "P s h \<Longrightarrow> P (effect c op s) (h @ [Done t op (outcome c op s)])"
    and timeout_keeps: "P s h \<Longrightarrow> P s (h @ [Timed_Out t op r])"
begin

lemma kept_step: "monitor_step c m l m' \<Longrightarrow> P (shared m) (history m) \<Longrightarrow> P (shared m') (history m')"
  by (cases rule: monitor_step.cases) (auto simp: body_keeps timeout_keeps)

lemma kept_replay: "replay c s es = Some s' \<Longrightarrow> P s h \<Longrightarrow> P s' (h @ es)"
proof (induction es arbitrary: s h)
  case (Cons e es)
  show ?case
  proof (cases e)
    case (Done t op r)
    with Cons.prems Cons.IH [of "effect c op s" "h @ [e]"] body_keeps [of s h op t] show ?thesis
      by (auto split: if_splits)
  next
    case (Timed_Out t op r)
    with Cons.prems Cons.IH [of s "h @ [e]"] timeout_keeps [of s h t op r] show ?thesis
      by (auto split: if_splits)
  qed
qed simp

end

section \<open>The pool's state and operations\<close>

text \<open>A \<^verbatim>\<open>std::function\<close> may be empty: a task is \<open>None\<close> then.\<close>

record 'j pool_state =
  pool_tasks :: "'j option list"
  pool_stop :: bool
  pool_running :: nat

definition pool_state_init :: "'j pool_state" where
  "pool_state_init = \<lparr>pool_tasks = [], pool_stop = False, pool_running = 0\<rparr>"

definition pool_enqueue :: "'j option \<Rightarrow> 'j pool_state \<Rightarrow> 'j pool_state" where
  "pool_enqueue task s = s\<lparr>pool_tasks := pool_tasks s @ [task]\<rparr>"

definition pool_may_take :: "'j pool_state \<Rightarrow> bool" where
  "pool_may_take s = (pool_tasks s \<noteq> [] \<or> pool_stop s)"

definition wait_for_new_task :: "'j pool_state \<Rightarrow> 'j option \<times> 'j pool_state" where
  "wait_for_new_task s =
     (case pool_tasks s of
        [] \<Rightarrow> (None, s)
      | task # rest \<Rightarrow> (task, s\<lparr>pool_tasks := rest\<rparr>))"

definition count_waiting_tasks :: "'j pool_state \<Rightarrow> nat" where
  "count_waiting_tasks s = length (pool_tasks s)"

definition count_running_tasks :: "'j pool_state \<Rightarrow> nat" where
  "count_running_tasks s = pool_running s"

definition clear_waiting_tasks :: "'j pool_state \<Rightarrow> 'j pool_state" where
  "clear_waiting_tasks s = s\<lparr>pool_tasks := []\<rparr>"

definition pool_is_empty :: "'j pool_state \<Rightarrow> bool" where
  "pool_is_empty s = (pool_tasks s = [])"

text \<open>
  \<open>Set_Stop\<close> is the first half of \<^verbatim>\<open>stop\<close>; \<open>Read_Stop\<close>, \<open>Task_Begins\<close> and \<open>Task_Ends\<close>
  are the worker's uses of the atomics.
\<close>

datatype 'j pool_op =
    Enqueue "'j option"
  | Wait_For_New_Task
  | Set_Stop
  | Count_Waiting
  | Count_Running
  | Clear_Waiting
  | Is_Pool_Empty
  | Read_Stop
  | Task_Begins
  | Task_Ends

datatype 'j pool_result = Nothing | Taken "'j option" | Number nat | Truth bool

fun pool_waits :: "'j pool_op \<Rightarrow> 'j pool_state \<Rightarrow> bool" where
  "pool_waits Wait_For_New_Task s = pool_may_take s"
| "pool_waits op s = True"

fun pool_locked :: "'j pool_op \<Rightarrow> bool" where
  "pool_locked Set_Stop = False"
| "pool_locked Count_Running = False"
| "pool_locked Read_Stop = False"
| "pool_locked Task_Begins = False"
| "pool_locked Task_Ends = False"
| "pool_locked op = True"

fun pool_effect :: "'j pool_op \<Rightarrow> 'j pool_state \<Rightarrow> 'j pool_state" where
  "pool_effect (Enqueue task) s = pool_enqueue task s"
| "pool_effect Wait_For_New_Task s = snd (wait_for_new_task s)"
| "pool_effect Set_Stop s = s\<lparr>pool_stop := True\<rparr>"
| "pool_effect Clear_Waiting s = clear_waiting_tasks s"
| "pool_effect Task_Begins s = s\<lparr>pool_running := Suc (pool_running s)\<rparr>"
| "pool_effect Task_Ends s = s\<lparr>pool_running := pool_running s - 1\<rparr>"
| "pool_effect op s = s"

fun pool_outcome :: "'j pool_op \<Rightarrow> 'j pool_state \<Rightarrow> 'j pool_result" where
  "pool_outcome Wait_For_New_Task s = Taken (fst (wait_for_new_task s))"
| "pool_outcome Count_Waiting s = Number (count_waiting_tasks s)"
| "pool_outcome Count_Running s = Number (count_running_tasks s)"
| "pool_outcome Is_Pool_Empty s = Truth (pool_is_empty s)"
| "pool_outcome Read_Stop s = Truth (pool_stop s)"
| "pool_outcome op s = Nothing"

fun pool_signal :: "'j pool_op \<Rightarrow> signal" where
  "pool_signal (Enqueue task) = Signal_Locked"
| "pool_signal Set_Stop = Signal_Unlocked"
| "pool_signal op = No_Signal"

definition pool_class :: "('j pool_op, 'j pool_state, 'j pool_result) monitor_class" where
  "pool_class =
     \<lparr>waits_for = pool_waits, is_timed = (\<lambda>op. False), uses_lock = pool_locked, effect = pool_effect,
      outcome = pool_outcome, timeout_outcome = (\<lambda>op s. Nothing), signal_of = pool_signal\<rparr>"

type_synonym 'j pool_monitor = "('j pool_op, 'j pool_state, 'j pool_result) monitor"

lemma pool_class_simps [simp]:
  "waits_for pool_class = pool_waits"
  "is_timed pool_class = (\<lambda>op. False)"
  "uses_lock pool_class = pool_locked"
  "effect pool_class = pool_effect"
  "outcome pool_class = pool_outcome"
  "timeout_outcome pool_class = (\<lambda>op s. Nothing)"
  "signal_of pool_class = pool_signal"
  by (simp_all add: pool_class_def)

lemmas pool_defs [op_defs] = pool_enqueue_def pool_may_take_def wait_for_new_task_def count_waiting_tasks_def
  count_running_tasks_def clear_waiting_tasks_def pool_is_empty_def

section \<open>The worker's loop\<close>

text \<open>
  \<open>Checking\<close> has the task \<^verbatim>\<open>wait_for_new_task\<close> returned and evaluates \<^verbatim>\<open>stop_ \&\& !task\<close>;
  \<open>Running\<close> is inside \<^verbatim>\<open>task()\<close>.
\<close>

datatype 'j worker = Fetching | Checking "'j option" | Beginning 'j | Running 'j | Exited

fun worker_op :: "'j worker \<Rightarrow> 'j pool_op option" where
  "worker_op Fetching = Some Wait_For_New_Task"
| "worker_op (Checking task) = Some Read_Stop"
| "worker_op (Beginning j) = Some Task_Begins"
| "worker_op (Running j) = Some Task_Ends"
| "worker_op Exited = None"

fun worker_next :: "'j worker \<Rightarrow> 'j pool_state \<Rightarrow> 'j worker" where
  "worker_next Fetching s = Checking (fst (wait_for_new_task s))"
| "worker_next (Checking None) s = (if pool_stop s then Exited else Fetching)"
| "worker_next (Checking (Some j)) s = Beginning j"
| "worker_next (Beginning j) s = Running j"
| "worker_next (Running j) s = Fetching"
| "worker_next Exited s = Exited"

text \<open>The operations other threads call.\<close>

fun client_op :: "'j pool_op \<Rightarrow> bool" where
  "client_op Wait_For_New_Task = False"
| "client_op Read_Stop = False"
| "client_op Task_Begins = False"
| "client_op Task_Ends = False"
| "client_op op = True"

text \<open>
  The constructor spawns the threads \<open>0, ..., concurrency - 1\<close>; \<open>joined\<close> says that a
  \<^verbatim>\<open>stop\<close> has joined them all and cleared \<^verbatim>\<open>workers_\<close>. A task that throws ends the program,
  and is not a step.
\<close>

record 'j pool = task_base +
  concurrency :: nat
  sync :: "'j pool_monitor"
  worker_at :: "tid \<Rightarrow> 'j worker"
  joined :: bool

definition make_pool :: "string \<Rightarrow> nat \<Rightarrow> 'j pool" where
  "make_pool name n =
     task_base.extend (make_task_base Pool_Task name)
       \<lparr>concurrency = n, sync = monitor_init pool_state_init,
        worker_at = (\<lambda>t. if t < n then Fetching else Exited), joined = False\<rparr>"

text \<open>
  The default number of workers: the processors in the thread's affinity mask. When the system call
  fails (\<open>None\<close>) the mask stays empty and the pool has no worker at all.
\<close>

definition get_concurrency :: "nat set option \<Rightarrow> nat" where
  "get_concurrency affinity = (case affinity of None \<Rightarrow> 0 | Some cpus \<Rightarrow> card cpus)"

datatype 'j pool_action = Client tid "'j pool_op action" | Worker tid "'j pool_op action" | Join_All

inductive pool_step :: "'j pool \<Rightarrow> 'j pool_action \<Rightarrow> 'j pool \<Rightarrow> bool" where
  client: "concurrency p \<le> t \<Longrightarrow> (\<And>op. a = Call op \<Longrightarrow> client_op op) \<Longrightarrow>
    monitor_step pool_class (sync p) (t, a) m \<Longrightarrow> pool_step p (Client t a) (p\<lparr>sync := m\<rparr>)"
| worker: "t < concurrency p \<Longrightarrow> (\<And>op. a = Call op \<Longrightarrow> worker_op (worker_at p t) = Some op) \<Longrightarrow>
    monitor_step pool_class (sync p) (t, a) m \<Longrightarrow>
    pool_step p (Worker t a)
      (p\<lparr>sync := m,
         worker_at := (if a = Act then (worker_at p)(t := worker_next (worker_at p t) (shared (sync p)))
                       else worker_at p)\<rparr>)"
| join: "(\<And>t. t < concurrency p \<Longrightarrow> worker_at p t = Exited) \<Longrightarrow> pool_stop (shared (sync p)) \<Longrightarrow>
    pool_step p Join_All (p\<lparr>joined := True\<rparr>)"

inductive_cases pool_stepE: "pool_step p l p'"

lemma pool_step_sync:
  assumes "pool_step p l p'"
  shows "sync p' = sync p \<or> (\<exists>t a. monitor_step pool_class (sync p) (t, a) (sync p'))"
  using assms by (cases rule: pool_step.cases) auto

text \<open>The steps as a function, for concrete runs.\<close>

lemma concurrency_fixed: "run pool_step p ls q \<Longrightarrow> concurrency q = concurrency p"
  by (induction rule: run.induct) (auto elim!: pool_stepE)

lemma pool_without_workers:
  "reaches pool_step (make_pool name (get_concurrency None)) p \<Longrightarrow> \<not> pool_step p (Worker t a) q"
  by (auto elim!: pool_stepE dest!: concurrency_fixed
      simp: reaches_def make_pool_def get_concurrency_def task_base.extend_def)

definition pool_exec :: "'j pool \<Rightarrow> 'j pool_action \<Rightarrow> 'j pool option" where
  "pool_exec p l =
     (case l of
        Client t a \<Rightarrow>
          if concurrency p \<le> t \<and> (case a of Call op \<Rightarrow> client_op op | _ \<Rightarrow> True)
          then (case monitor_exec pool_class (sync p) (t, a) of
                  None \<Rightarrow> None | Some m \<Rightarrow> Some (p\<lparr>sync := m\<rparr>))
          else None
      | Worker t a \<Rightarrow>
          if t < concurrency p \<and> (case a of Call op \<Rightarrow> worker_op (worker_at p t) = Some op | _ \<Rightarrow> True)
          then (case monitor_exec pool_class (sync p) (t, a) of
                  None \<Rightarrow> None
                | Some m \<Rightarrow> Some (p\<lparr>sync := m,
                    worker_at := (if a = Act then (worker_at p)(t := worker_next (worker_at p t) (shared (sync p)))
                                  else worker_at p)\<rparr>))
          else None
      | Join_All \<Rightarrow>
          if list_all (\<lambda>t. worker_at p t = Exited) [0..<concurrency p] \<and> pool_stop (shared (sync p))
          then Some (p\<lparr>joined := True\<rparr>) else None)"

primrec pool_schedule :: "'j pool \<Rightarrow> 'j pool_action list \<Rightarrow> 'j pool option" where
  "pool_schedule p [] = Some p"
| "pool_schedule p (l # ls) = (case pool_exec p l of None \<Rightarrow> None | Some p' \<Rightarrow> pool_schedule p' ls)"

lemma pool_exec_step:
  assumes "pool_exec p l = Some p'"
  shows "pool_step p l p'"
proof (cases l)
  case (Client t a)
  with assms show ?thesis
    by (auto simp: pool_exec_def monitor_exec_iff split: if_splits option.splits intro!: pool_step.client)
next
  case (Worker t a)
  with assms obtain m where m: "t < concurrency p" "case a of Call op \<Rightarrow> worker_op (worker_at p t) = Some op | _ \<Rightarrow> True"
      "monitor_exec pool_class (sync p) (t, a) = Some m"
    and p': "p' = p\<lparr>sync := m, worker_at := (if a = Act then (worker_at p)(t := worker_next (worker_at p t) (shared (sync p)))
                                  else worker_at p)\<rparr>"
    unfolding pool_exec_def by (fastforce split: if_split_asm option.split_asm)
  show ?thesis unfolding Worker p'
    by (rule pool_step.worker) (use m in \<open>auto simp: monitor_exec_iff\<close>)
next
  case Join_All
  with assms show ?thesis
    by (auto simp: pool_exec_def list_all_iff split: if_splits intro!: pool_step.join)
qed

lemma pool_schedule_reaches: "pool_schedule p ls = Some p' \<Longrightarrow> reaches pool_step p p'"
proof (induction ls arbitrary: p)
  case (Cons l ls)
  then show ?case
    by (auto split: option.splits intro: reaches_trans [OF reachesI [OF run_single [of pool_step]]] dest: pool_exec_step)
qed simp

lemmas pool_eval = op_defs pool_exec_def monitor_exec_def make_pool_def task_base.extend_def pool_state_init_def
  monitor_init_def go_def commit_def wake_all_def upt_rec

section \<open>First in, first out\<close>

fun enqueued_by :: "('j pool_op, 'j pool_result) event \<Rightarrow> 'j list" where
  "enqueued_by (Done t (Enqueue (Some j)) r) = [j]"
| "enqueued_by e = []"

fun taken_by :: "('j pool_op, 'j pool_result) event \<Rightarrow> 'j list" where
  "taken_by (Done t op (Taken (Some j))) = [j]"
| "taken_by e = []"

fun clears :: "('j pool_op, 'j pool_result) event \<Rightarrow> bool" where
  "clears (Done t Clear_Waiting r) = True"
| "clears e = False"

fun enqueues_empty :: "('j pool_op, 'j pool_result) event \<Rightarrow> bool" where
  "enqueues_empty (Done t (Enqueue None) r) = True"
| "enqueues_empty e = False"

definition enqueued :: "('j pool_op, 'j pool_result) event list \<Rightarrow> 'j list" where
  "enqueued h = concat (map enqueued_by h)"

definition fetched :: "('j pool_op, 'j pool_result) event list \<Rightarrow> 'j list" where
  "fetched h = concat (map taken_by h)"

text \<open>The tasks of a queue, the empty ones left out.\<close>

definition real_tasks :: "'j option list \<Rightarrow> 'j list" where
  "real_tasks q = concat (map (\<lambda>t. case t of None \<Rightarrow> [] | Some j \<Rightarrow> [j]) q)"

definition pool_flow :: "'j pool_state \<Rightarrow> ('j pool_op, 'j pool_result) event list \<Rightarrow> bool" where
  "pool_flow s h \<longleftrightarrow>
     (list_ex clears h \<or> enqueued h = fetched h @ real_tasks (pool_tasks s)) \<and>
     (list_ex enqueues_empty h \<or> list_all (\<lambda>t. t \<noteq> None) (pool_tasks s))"

interpretation pool_hist: history_invariant pool_class pool_flow
proof
  fix s h op t
  assume "pool_flow s h"
  then show "pool_flow (effect pool_class op s) (h @ [Done t op (outcome pool_class op s)])"
    by (cases op) (auto simp: pool_flow_def op_defs enqueued_def fetched_def real_tasks_def
        split: list.splits option.splits)
qed (auto simp: pool_flow_def enqueued_def fetched_def)

lemma pool_flow_step:
  "pool_step p l p' \<Longrightarrow> pool_flow (shared (sync p)) (history (sync p)) \<Longrightarrow>
   pool_flow (shared (sync p')) (history (sync p'))"
  using pool_step_sync pool_hist.kept_step by metis

interpretation pool_order: unconditional_invariant pool_step
  "\<lambda>p. pool_flow (shared (sync p)) (history (sync p))"
  by unfold_locales (rule pool_flow_step)

lemma pool_flow_reachable:
  "reaches pool_step (make_pool name n) p \<Longrightarrow> pool_flow (shared (sync p)) (history (sync p))"
  by (erule pool_order.inv_reaches)
    (simp add: make_pool_def task_base.extend_def pool_flow_def pool_state_init_def enqueued_def fetched_def real_tasks_def)

text \<open>
  While nobody clears the queue, the tasks the workers have taken, in that order, followed by
  those still waiting, are the tasks enqueued, in order: each is taken once, first come first served.
\<close>

theorem pool_fifo:
  assumes "reaches pool_step (make_pool name n) p" and "\<not> list_ex clears (history (sync p))"
  shows "enqueued (history (sync p)) = fetched (history (sync p)) @ real_tasks (pool_tasks (shared (sync p)))"
  using pool_flow_reachable [OF assms(1)] assms(2) by (simp add: pool_flow_def)

theorem pool_fifo_witness:
  "\<exists>p :: nat pool. enqueued (history (sync p)) = [7, 8] \<and> fetched (history (sync p)) @ real_tasks (pool_tasks (shared (sync p))) = [7, 8]
     \<and> fetched (history (sync p)) \<noteq> []"
proof -
  let ?enqueue = "\<lambda>j. [Client 5 (Call (Enqueue (Some j))), Client 5 Acquire, Client 5 Test, Client 5 Act, Client 5 Notify, Client 5 Leave]"
  let ?schedule = "?enqueue 7 @ ?enqueue 8 @ [Worker 0 (Call Wait_For_New_Task), Worker 0 Acquire, Worker 0 Test, Worker 0 Act]"
  obtain p where p: "pool_schedule (make_pool ''pool'' 1) ?schedule = Some p"
      and h: "enqueued (history (sync p)) = [7 :: nat, 8]" "fetched (history (sync p)) \<noteq> []" "\<not> list_ex clears (history (sync p))"
    by (simp add: pool_eval enqueued_def fetched_def)
  from pool_fifo [OF pool_schedule_reaches [OF p] h(3)] h show ?thesis by (auto intro!: exI [of _ p])
qed

section \<open>A worker leaves only a drained queue\<close>

text \<open>A worker that came back empty-handed has left nothing behind.\<close>

definition drained :: "('j pool_op, 'j pool_result) event list \<Rightarrow> bool" where
  "drained h \<longleftrightarrow>
     (\<forall>es t fs. h = es @ Done t Wait_For_New_Task (Taken None) # fs \<longrightarrow>
        list_ex clears es \<or> list_ex enqueues_empty es \<or> enqueued es = fetched es)"

lemma drained_snoc:
  "drained (h @ [e]) \<longleftrightarrow> drained h \<and>
     (\<forall>t. e = Done t Wait_For_New_Task (Taken None) \<longrightarrow>
        list_ex clears h \<or> list_ex enqueues_empty h \<or> enqueued h = fetched h)"
  unfolding drained_def
proof (intro iffI conjI allI impI)
  fix es t fs
  assume d: "(\<forall>es t fs. h = es @ Done t Wait_For_New_Task (Taken None) # fs \<longrightarrow>
        list_ex clears es \<or> list_ex enqueues_empty es \<or> enqueued es = fetched es) \<and>
     (\<forall>t. e = Done t Wait_For_New_Task (Taken None) \<longrightarrow>
        list_ex clears h \<or> list_ex enqueues_empty h \<or> enqueued h = fetched h)"
    and h: "h @ [e] = es @ Done t Wait_For_New_Task (Taken None) # fs"
  show "list_ex clears es \<or> list_ex enqueues_empty es \<or> enqueued es = fetched es"
    by (cases fs rule: rev_cases) (use d h in auto)
qed auto

interpretation pool_drained: history_invariant "pool_class :: ('j pool_op, 'j pool_state, 'j pool_result) monitor_class" "\<lambda>s h. pool_flow s h \<and> drained h"
proof
  fix s :: "'j pool_state" and h :: "('j pool_op, 'j pool_result) event list" and op :: "'j pool_op" and t
  assume inv: "pool_flow s h \<and> drained h"
  have "list_ex clears h \<or> list_ex enqueues_empty h \<or> enqueued h = fetched h"
    if "op = Wait_For_New_Task" "fst (wait_for_new_task s) = None"
    using inv that by (cases "pool_tasks s") (auto simp: pool_flow_def real_tasks_def op_defs)
  then show "pool_flow (effect pool_class op s) (h @ [Done t op (outcome pool_class op s)]) \<and>
      drained (h @ [Done t op (outcome pool_class op s)])"
    using inv pool_hist.body_keeps [of s h op t] by (auto simp: drained_snoc)
next
  fix s :: "'j pool_state" and h :: "('j pool_op, 'j pool_result) event list" and op :: "'j pool_op" and t r
  assume inv: "pool_flow s h \<and> drained h"
  then have "pool_flow s (h @ [Timed_Out t op r])" by (blast intro: pool_hist.timeout_keeps)
  with inv show "pool_flow s (h @ [Timed_Out t op r]) \<and> drained (h @ [Timed_Out t op r])"
    by (simp add: drained_snoc)
qed

section \<open>The workers' places\<close>

text \<open>The operation a thread is inside of and has not yet performed.\<close>

fun pending :: "'o pc \<Rightarrow> 'o option" where
  "pending (Entering op x) = Some op"
| "pending (Testing op x) = Some op"
| "pending (Parking op) = Some op"
| "pending (Parked op) = Some op"
| "pending (Acting op) = Some op"
| "pending (Raw op) = Some op"
| "pending p = None"

lemma pending_wake [simp]: "pending (wake p) = pending p"
  by (cases p) auto

lemma pending_step:
  assumes "monitor_step c m (t, a) m'"
  shows "(u \<noteq> t \<longrightarrow> pending (pcs m' u) = pending (pcs m u)) \<and>
    (case a of
       Call op \<Rightarrow> pending (pcs m' t) = Some op \<and> shared m' = shared m \<and> history m' = history m
     | Act \<Rightarrow> pending (pcs m' t) = None \<and>
         (\<exists>op. pending (pcs m t) = Some op \<and> shared m' = effect c op (shared m) \<and>
            history m' = history m @ [Done t op (outcome c op (shared m))])
     | _ \<Rightarrow> pending (pcs m' t) \<in> {None, pending (pcs m t)} \<and> shared m' = shared m \<and>
         (\<exists>es. history m' = history m @ es))"
  using assms by (cases rule: monitor_step.cases) (auto simp: wake_all_def)

fun is_busy :: "'j worker \<Rightarrow> bool" where
  "is_busy (Running j) = True"
| "is_busy w = False"

text \<open>
  Each thread performs the operation its program is at; the count of running tasks is the
  number of workers inside a task; a worker without a task has fetched an empty one.
\<close>

definition busy_workers :: "'j pool \<Rightarrow> tid set" where
  "busy_workers p = {t. t < concurrency p \<and> is_busy (worker_at p t)}"

definition at_its_place :: "'j pool \<Rightarrow> bool" where
  "at_its_place p \<longleftrightarrow>
     (\<forall>t op. pending (pcs (sync p) t) = Some op \<longrightarrow>
        (if t < concurrency p then worker_op (worker_at p t) = Some op else client_op op))"

definition left_properly :: "'j pool \<Rightarrow> bool" where
  "left_properly p \<longleftrightarrow>
     (\<forall>t < concurrency p. worker_at p t = Checking None \<or> worker_at p t = Exited \<longrightarrow>
        Done t Wait_For_New_Task (Taken None) \<in> set (history (sync p))) \<and>
     (\<forall>t < concurrency p. worker_at p t = Exited \<longrightarrow> pool_stop (shared (sync p)))"

definition workers_inv :: "'j pool \<Rightarrow> bool" where
  "workers_inv p \<longleftrightarrow>
     at_its_place p \<and> left_properly p \<and> pool_running (shared (sync p)) = card (busy_workers p)"

lemma finite_busy [simp]: "finite (busy_workers p)"
  unfolding busy_workers_def by simp

lemma workers_inv_init: "workers_inv (make_pool name n)"
  by (auto simp: workers_inv_def at_its_place_def left_properly_def busy_workers_def make_pool_def task_base.extend_def pool_state_init_def)

text \<open>A worker performs one operation of its loop.\<close>

lemma worker_left:
  "worker_op w = Some op \<Longrightarrow> worker_next w s = Checking None \<or> worker_next w s = Exited \<Longrightarrow>
     w = Checking None \<or> (op = Wait_For_New_Task \<and> pool_outcome op s = Taken None)"
  by (cases "(w, s)" rule: worker_next.cases) (auto split: if_splits)

lemma worker_exits: "worker_op w = Some op \<Longrightarrow> worker_next w s = Exited \<Longrightarrow> pool_stop s"
  by (cases "(w, s)" rule: worker_next.cases) (auto split: if_splits)

lemma worker_keeps_stop: "worker_op w = Some op \<Longrightarrow> pool_stop (pool_effect op s) = pool_stop s"
  by (cases w) (auto simp: wait_for_new_task_def split: list.splits)

lemma checking_not_busy [simp]: "\<not> is_busy (worker_next (Checking task) s)"
  by (cases task) simp_all

lemma busy_update:
  "busy_workers (p\<lparr>sync := m, worker_at := (worker_at p)(t := w)\<rparr>) =
     (if t < concurrency p \<and> is_busy w then insert t (busy_workers p) else busy_workers p - {t})"
  by (auto simp: busy_workers_def)

lemma workers_inv_act:
  assumes inv: "workers_inv p" and t: "t < concurrency p"
    and st: "monitor_step pool_class (sync p) (t, Act) m"
  shows "workers_inv (p\<lparr>sync := m, worker_at := (worker_at p)(t := worker_next (worker_at p t) (shared (sync p)))\<rparr>)"
    (is "workers_inv ?p'")
proof -
  let ?w = "worker_at p t" and ?s = "shared (sync p)"
  from pending_step [OF st] obtain op where op: "pending (pcs (sync p) t) = Some op"
      "shared m = pool_effect op ?s" "history m = history (sync p) @ [Done t op (pool_outcome op ?s)]"
      "pending (pcs m t) = None" and others: "\<And>u. u \<noteq> t \<Longrightarrow> pending (pcs m u) = pending (pcs (sync p) u)"
    by auto
  from inv op(1) t have w: "worker_op ?w = Some op"
    by (auto simp: workers_inv_def at_its_place_def)
  note facts = worker_left [OF w, of ?s] worker_exits [OF w, of ?s] worker_keeps_stop [OF w, of ?s]
  have "at_its_place ?p'"
    using inv op others unfolding workers_inv_def at_its_place_def by (auto split: if_splits)
  moreover have "left_properly ?p'"
    using inv facts op(2,3) t unfolding workers_inv_def left_properly_def by (auto split: if_splits)
  moreover have "pool_running (shared m) = card (busy_workers ?p')"
  proof -
    have run: "pool_running ?s = card (busy_workers p)" using inv by (simp add: workers_inv_def)
    have mem: "t \<in> busy_workers p \<longleftrightarrow> is_busy ?w" using t by (simp add: busy_workers_def)
    show ?thesis
      unfolding busy_update op(2)
      using w run mem t by (cases ?w)
        (auto simp: op_defs card_Diff_singleton split: list.splits option.splits if_splits)
  qed
  ultimately show ?thesis by (simp add: workers_inv_def)
qed

lemma workers_inv_other:
  assumes inv: "workers_inv p" and st: "monitor_step pool_class (sync p) (t, a) m"
    and place: "\<And>op. a = Call op \<Longrightarrow> if t < concurrency p then worker_op (worker_at p t) = Some op else client_op op"
    and a: "a = Act \<Longrightarrow> concurrency p \<le> t"
  shows "workers_inv (p\<lparr>sync := m\<rparr>)"
proof -
  note ps = pending_step [OF st]
  have "pool_running (shared m) = pool_running (shared (sync p)) \<and> (pool_stop (shared (sync p)) \<longrightarrow> pool_stop (shared m))
      \<and> set (history (sync p)) \<subseteq> set (history m)"
  proof (cases "a = Act")
    case True
    from ps True obtain op where op: "pending (pcs (sync p) t) = Some op" "shared m = pool_effect op (shared (sync p))"
        "history m = history (sync p) @ [Done t op (pool_outcome op (shared (sync p)))]" by auto
    then have "client_op op" using inv a [OF True] by (auto simp: workers_inv_def at_its_place_def)
    with op show ?thesis by (cases op) (auto simp: op_defs)
  next
    case False
    with ps [of t] show ?thesis by (cases a) auto
  qed
  moreover have "at_its_place (p\<lparr>sync := m\<rparr>)"
    unfolding at_its_place_def
  proof (intro allI impI)
    fix u op
    assume u: "pending (pcs (sync (p\<lparr>sync := m\<rparr>)) u) = Some op"
    then have "pending (pcs (sync p) u) = Some op \<or> (u = t \<and> a = Call op)"
      using ps by (cases a; cases "u = t") auto
    then show "if u < concurrency (p\<lparr>sync := m\<rparr>) then worker_op (worker_at (p\<lparr>sync := m\<rparr>) u) = Some op else client_op op"
      using place inv by (auto simp: workers_inv_def at_its_place_def)
  qed
  ultimately show ?thesis
    using inv by (auto simp: workers_inv_def left_properly_def busy_workers_def)
qed

lemma workers_inv_step:
  assumes "pool_step p l p'" and "workers_inv p"
  shows "workers_inv p'"
  using assms(1)
proof (cases rule: pool_step.cases)
  case (client t a m)
  then show ?thesis using workers_inv_other [OF assms(2), of t a m] by auto
next
  case (worker t a m)
  then show ?thesis using workers_inv_other [OF assms(2), of t a m] workers_inv_act [OF assms(2), of t m] by auto
next
  case join
  have "workers_inv (p\<lparr>joined := True\<rparr>) = workers_inv p"
    by (simp add: workers_inv_def at_its_place_def left_properly_def busy_workers_def)
  with join assms(2) show ?thesis by simp
qed

interpretation pool_workers: unconditional_invariant pool_step workers_inv
  by unfold_locales (rule workers_inv_step)

lemma workers_inv_reachable: "reaches pool_step (make_pool name n) p \<Longrightarrow> workers_inv p"
  using pool_workers.inv_reaches workers_inv_init by blast

text \<open>
  \<^verbatim>\<open>running_tasks_\<close> is at every moment the number of workers inside a task.
\<close>

theorem pool_counts_running_tasks:
  assumes "reaches pool_step (make_pool name n) p"
  shows "count_running_tasks (shared (sync p)) = card (busy_workers p)"
  using workers_inv_reachable [OF assms] by (simp add: workers_inv_def op_defs)

theorem pool_counts_running_tasks_witness:
  "\<exists>p :: nat pool. count_running_tasks (shared (sync p)) = 1 \<and> card (busy_workers p) = 1"
proof -
  let ?schedule = "[Client 5 (Call (Enqueue (Some 7))), Client 5 Acquire, Client 5 Test, Client 5 Act, Client 5 Notify, Client 5 Leave,
    Worker 0 (Call Wait_For_New_Task), Worker 0 Acquire, Worker 0 Test, Worker 0 Act, Worker 0 Leave,
    Worker 0 (Call Read_Stop), Worker 0 Act, Worker 0 (Call Task_Begins), Worker 0 Act]"
  obtain p where p: "pool_schedule (make_pool ''pool'' 1) ?schedule = Some p"
      and h: "count_running_tasks (shared (sync p :: nat pool_monitor)) = 1"
    by (simp add: pool_eval)
  from pool_counts_running_tasks [OF pool_schedule_reaches [OF p]] h show ?thesis by auto
qed

lemma pool_drained_step:
  "pool_step p l p' \<Longrightarrow> pool_flow (shared (sync p)) (history (sync p)) \<and> drained (history (sync p)) \<Longrightarrow>
   pool_flow (shared (sync p')) (history (sync p')) \<and> drained (history (sync p'))"
  using pool_step_sync pool_drained.kept_step by metis

interpretation pool_leaves: unconditional_invariant pool_step
  "\<lambda>p. pool_flow (shared (sync p)) (history (sync p)) \<and> drained (history (sync p))"
  by unfold_locales (rule pool_drained_step)

lemma drained_reachable: "reaches pool_step (make_pool name n) p \<Longrightarrow> drained (history (sync p))"
  using pool_leaves.inv_reaches pool_flow_reachable
  by (force simp: make_pool_def task_base.extend_def pool_flow_def pool_state_init_def enqueued_def fetched_def real_tasks_def drained_def)

text \<open>
  \<^verbatim>\<open>stop\<close> drains the queue: a worker only returns once the pool is stopping and at a moment
  at which every task enqueued so far had been taken, provided nobody clears the queue or
  enqueues an empty function.
\<close>

theorem pool_worker_leaves_drained_queue:
  assumes "reaches pool_step (make_pool name n) p" and "t < concurrency p" and "worker_at p t = Exited"
    and "\<not> list_ex clears (history (sync p))" and "\<not> list_ex enqueues_empty (history (sync p))"
  shows "pool_stop (shared (sync p)) \<and>
    (\<exists>es fs. history (sync p) = es @ Done t Wait_For_New_Task (Taken None) # fs \<and> enqueued es = fetched es)"
proof -
  have "left_properly p" using workers_inv_reachable [OF assms(1)] by (simp add: workers_inv_def)
  with assms(2,3) have "pool_stop (shared (sync p))" "Done t Wait_For_New_Task (Taken None) \<in> set (history (sync p))"
    by (auto simp: left_properly_def)
  moreover from this(2) obtain es fs where "history (sync p) = es @ Done t Wait_For_New_Task (Taken None) # fs"
    by (meson split_list)
  moreover from this have "enqueued es = fetched es"
    using drained_reachable [OF assms(1)] assms(4,5) unfolding drained_def by fastforce
  ultimately show ?thesis by blast
qed

theorem pool_worker_leaves_drained_queue_witness:
  "\<exists>(p :: nat pool) es fs. history (sync p) = es @ Done 0 Wait_For_New_Task (Taken None) # fs \<and>
     enqueued es = [7] \<and> fetched es = [7]"
proof -
  let ?enqueue = "[Client 5 (Call (Enqueue (Some 7))), Client 5 Acquire, Client 5 Test, Client 5 Act, Client 5 Notify, Client 5 Leave]"
  let ?take = "[Worker 0 (Call Wait_For_New_Task), Worker 0 Acquire, Worker 0 Test, Worker 0 Act, Worker 0 Leave, Worker 0 (Call Read_Stop), Worker 0 Act]"
  let ?schedule = "?enqueue @ [Client 5 (Call Set_Stop), Client 5 Act, Client 5 Notify] @ ?take
    @ [Worker 0 (Call Task_Begins), Worker 0 Act, Worker 0 (Call Task_Ends), Worker 0 Act] @ ?take"
  obtain p where p: "pool_schedule (make_pool ''pool'' 1) ?schedule = Some p"
      and h: "worker_at p 0 = Exited" "0 < concurrency p" "\<not> list_ex clears (history (sync p))"
        "\<not> list_ex enqueues_empty (history (sync p :: nat pool_monitor))" "enqueued (butlast (butlast (butlast (butlast (history (sync p)))))) = [7]"
        "\<forall>es fs. history (sync p) = es @ Done 0 Wait_For_New_Task (Taken None) # fs \<longrightarrow> enqueued es = [7]"
    by (simp add: pool_eval enqueued_def Cons_eq_append_conv)
  from pool_worker_leaves_drained_queue [OF pool_schedule_reaches [OF p] h(2,1,3,4)] h(6)
  show ?thesis by metis
qed

section \<open>stop\<close>

text \<open>
  C16: \<^verbatim>\<open>stop\<close> can be lost. In the run of one worker and one thread calling \<^verbatim>\<open>stop\<close> in
  which the worker finds the queue empty and the flag unset, the other thread then sets the flag and
  notifies nobody, and the worker blocks: no thread can go on by itself, the worker sleeps though
  the pool is stopping, and the \<^verbatim>\<open>join\<close> in \<^verbatim>\<open>stop\<close> waits for it.
\<close>

theorem pool_stop_loses_wakeup:
  "\<exists>p :: 'j pool. reaches pool_step (make_pool ''pool'' 1) p \<and> pool_stop (shared (sync p)) \<and>
     worker_at p 0 = Fetching \<and> pcs (sync p) 0 = Parked Wait_For_New_Task \<and>
     pool_may_take (shared (sync p)) \<and> (\<forall>t. \<not> can_move pool_class (sync p) t)"
proof -
  let ?schedule = "[Worker 0 (Call Wait_For_New_Task), Worker 0 Acquire, Worker 0 Test,
    Client 1 (Call Set_Stop), Client 1 Act, Client 1 Notify, Worker 0 Park]"
  obtain p :: "'j pool" where p: "pool_schedule (make_pool ''pool'' 1) ?schedule = Some p"
      and s: "pool_stop (shared (sync p))" "worker_at p 0 = Fetching"
        "pcs (sync p) = (\<lambda>t. Idle)(0 := Parked Wait_For_New_Task)"
    by (simp add: pool_eval fun_eq_iff)
  have "settled (sync p)" by (simp add: settled_def s)
  with pool_schedule_reaches [OF p] s settled_cannot_move [of "sync p"] show ?thesis
    by (auto simp: pool_may_take_def)
qed

end
