(* ===== verification/Pool_Progress.thy ===== *)
theory Pool_Progress
  imports Task_Pool
begin

text \<open>
  The pool (\<^verbatim>\<open>include/Task/TaskPool.hpp\<close>, \<^verbatim>\<open>lib/Task/TaskPool.cpp\<close>) while nobody has called
  \<^verbatim>\<open>stop\<close>. Without \<^verbatim>\<open>stop\<close> the pool keeps the discipline of \<open>Monitor\<close>, and no
  task is left behind: the counterpart of \<open>pool_stop_loses_wakeup\<close>.
\<close>

section \<open>The pool without stop\<close>

text \<open>The class in which setting the flag has no effect; it agrees with the pool's until the flag is set.\<close>

definition unstopped_class :: "('j pool_op, 'j pool_state, 'j pool_result) monitor_class" where
  "unstopped_class = pool_class\<lparr>effect := \<lambda>op s. if op = Set_Stop then s else pool_effect op s\<rparr>"

lemma unstopped_class_simps [simp]:
  "waits_for unstopped_class = pool_waits"
  "is_timed unstopped_class = (\<lambda>op. False)"
  "uses_lock unstopped_class = pool_locked"
  "effect unstopped_class op s = (if op = Set_Stop then s else pool_effect op s)"
  "outcome unstopped_class = pool_outcome"
  "timeout_outcome unstopped_class = (\<lambda>op s. Nothing)"
  "signal_of unstopped_class = pool_signal"
  by (simp_all add: unstopped_class_def)

interpretation unstopped: disciplined_monitor unstopped_class
proof
  fix op p :: "'j pool_op" and s :: "'j pool_state"
  assume "waits_for unstopped_class op s" "\<not> waits_for unstopped_class p s"
    "waits_for unstopped_class p (effect unstopped_class op s)"
  then show "signal_of unstopped_class op \<noteq> No_Signal"
    by (cases p; cases op) (auto simp: op_defs split: list.splits)
next
  fix op p :: "'j pool_op" and s :: "'j pool_state"
  assume "\<not> uses_lock unstopped_class op"
  then show "waits_for unstopped_class p (effect unstopped_class op s) = waits_for unstopped_class p s"
    by (cases p; cases op) (auto simp: pool_may_take_def)
qed

lemma stop_stays: "pool_stop s \<Longrightarrow> pool_stop (pool_effect op s)"
  by (cases op) (auto simp: op_defs split: list.splits)

lemma stop_set_or_same: "pool_stop (pool_effect op s) \<or> pool_effect op s = effect unstopped_class op s"
  by (cases op) auto

lemma unstopped_step:
  assumes "monitor_step pool_class m l m'" and running: "\<not> pool_stop (shared m')"
  shows "\<not> pool_stop (shared m) \<and> monitor_step unstopped_class m l m'"
  using assms(1)
proof (cases rule: monitor_step.cases)
  case (act t op)
  then have "effect unstopped_class op (shared m) = pool_effect op (shared m)"
    using stop_set_or_same [of op "shared m"] running by auto
  then have "commit pool_class t op m = commit unstopped_class t op m" by (simp add: commit_def)
  with act running show ?thesis
    using monitor_step.act [of m t op unstopped_class] stop_stays [of "shared m" op] by (auto split: if_splits)
next
  case (act_raw t op)
  then have "effect unstopped_class op (shared m) = pool_effect op (shared m)"
    using stop_set_or_same [of op "shared m"] running by auto
  then have "commit pool_class t op m = commit unstopped_class t op m" by (simp add: commit_def)
  with act_raw running show ?thesis
    using monitor_step.act_raw [of m t op unstopped_class] stop_stays [of "shared m" op] by (auto split: if_splits)
next
  case (leave t op)
  then show ?thesis using running monitor_step.leave [of m t op unstopped_class] by auto
next
  case (expire t op)
  then show ?thesis using running monitor_step.expire [of m t op unstopped_class] by auto
qed (use running in \<open>auto intro: monitor_step.intros\<close>)

definition unstopped_ok :: "'j pool \<Rightarrow> bool" where
  "unstopped_ok p \<longleftrightarrow> pool_stop (shared (sync p)) \<or> monitor_ok unstopped_class pool_state_init (sync p)"

interpretation unstopped_pool: unconditional_invariant pool_step unstopped_ok
proof
  fix p p' :: "'j pool" and l
  assume st: "pool_step p l p'" and ok: "unstopped_ok p"
  from pool_step_sync [OF st] show "unstopped_ok p'"
  proof
    assume "sync p' = sync p"
    with ok show ?thesis by (simp add: unstopped_ok_def)
  next
    assume "\<exists>t a. monitor_step pool_class (sync p) (t, a) (sync p')"
    then obtain t a where m: "monitor_step pool_class (sync p) (t, a) (sync p')" by blast
    from unstopped_step [OF m] ok show ?thesis
      unfolding unstopped_ok_def using unstopped.monitor_ok_step by blast
  qed
qed

lemma unstopped_reachable: "reaches pool_step (make_pool name n) p \<Longrightarrow> unstopped_ok p"
  by (erule unstopped_pool.inv_reaches) (simp add: unstopped_ok_def make_pool_def task_base.extend_def monitor_ok_init)

interpretation pool_locks: unconditional_invariant pool_step "\<lambda>p. lock_consistent (sync p)"
  by unfold_locales (metis lock_consistent_step pool_step_sync)

lemma lock_reachable: "reaches pool_step (make_pool name n) p \<Longrightarrow> lock_consistent (sync p)"
  by (erule pool_locks.inv_reaches) (simp add: make_pool_def task_base.extend_def lock_consistent_init)

section \<open>A pool at rest\<close>

text \<open>
  No thread inside an operation can go on by itself, and no worker is between two operations
  with another one to call.
\<close>

definition at_rest :: "'j pool \<Rightarrow> bool" where
  "at_rest p \<longleftrightarrow>
     (\<forall>t. \<not> can_move pool_class (sync p) t) \<and>
     (\<forall>t < concurrency p. pcs (sync p) t = Idle \<longrightarrow> worker_op (worker_at p t) = None)"

lemma resting_worker:
  assumes r: "reaches pool_step (make_pool name n) p" and run: "\<not> pool_stop (shared (sync p))"
    and rest: "at_rest p" and t: "t < concurrency p"
  shows "worker_at p t = Fetching \<and> \<not> pool_may_take (shared (sync p))"
proof -
  have places: "at_its_place p" "left_properly p"
    using workers_inv_reachable [OF r] by (simp_all add: workers_inv_def)
  have settled: "settled (sync p)"
    using unsettled_can_move [OF lock_reachable [OF r]] rest unfolding at_rest_def by blast
  have awake: "\<not> about_to_notify unstopped_class (pcs (sync p) v)" for v
    using settled [unfolded settled_def, rule_format, of v] by auto
  have "pcs (sync p) t \<noteq> Idle"
  proof
    assume "pcs (sync p) t = Idle"
    with rest t have "worker_at p t = Exited" unfolding at_rest_def by (cases "worker_at p t") auto
    with places(2) t run show False by (auto simp: left_properly_def)
  qed
  then obtain op where op: "pcs (sync p) t = Parked op"
    using settled unfolding settled_def by blast
  have "no_lost_wakeup unstopped_class (sync p)"
    using unstopped_reachable [OF r] run by (simp add: unstopped_ok_def monitor_ok_def)
  with op awake have "\<not> pool_waits op (shared (sync p))" unfolding no_lost_wakeup_def by auto
  moreover from this have "op = Wait_For_New_Task" by (cases op) auto
  moreover have "worker_op (worker_at p t) = Some op" using places(1) op t by (simp add: at_its_place_def)
  ultimately show ?thesis by (cases "worker_at p t") auto
qed

text \<open>
  C15: a pool with a worker leaves no task behind: when nobody has called \<^verbatim>\<open>stop\<close> and no thread can
  go on by itself, the queue is empty, every worker sleeps in \<^verbatim>\<open>wait_for_new_task\<close>, no task
  is running, and (unless the queue was cleared) every task ever enqueued has been taken, in order.
\<close>

theorem pool_no_task_left_behind:
  assumes "reaches pool_step (make_pool name n) p" and "0 < n" and "\<not> pool_stop (shared (sync p))" and "at_rest p"
  shows "pool_is_empty (shared (sync p)) \<and> (\<forall>t < n. worker_at p t = Fetching) \<and>
    count_running_tasks (shared (sync p)) = 0 \<and>
    (\<not> list_ex clears (history (sync p)) \<longrightarrow> enqueued (history (sync p)) = fetched (history (sync p)))"
proof -
  have n: "concurrency p = n"
    using concurrency_fixed assms(1) by (fastforce simp: reaches_def make_pool_def task_base.extend_def)
  note rest = resting_worker [OF assms(1,3,4)]
  have empty: "pool_tasks (shared (sync p)) = []" using rest [of 0] assms(2) n by (simp add: pool_may_take_def)
  moreover have "busy_workers p = {}"
    using rest unfolding busy_workers_def by auto
  ultimately show ?thesis
    using rest n workers_inv_reachable [OF assms(1)] pool_flow_reachable [OF assms(1)]
    by (auto simp: workers_inv_def pool_flow_def real_tasks_def count_running_tasks_def pool_is_empty_def)
qed

theorem pool_no_task_left_behind_witness:
  "\<exists>p :: nat pool. worker_at p 0 = Fetching \<and> enqueued (history (sync p)) = [7] \<and> fetched (history (sync p)) = [7]"
proof -
  let ?schedule = "[Client 5 (Call (Enqueue (Some 7))), Client 5 Acquire, Client 5 Test, Client 5 Act, Client 5 Notify, Client 5 Leave,
    Worker 0 (Call Wait_For_New_Task), Worker 0 Acquire, Worker 0 Test, Worker 0 Act, Worker 0 Leave,
    Worker 0 (Call Read_Stop), Worker 0 Act, Worker 0 (Call Task_Begins), Worker 0 Act, Worker 0 (Call Task_Ends), Worker 0 Act,
    Worker 0 (Call Wait_For_New_Task), Worker 0 Acquire, Worker 0 Test, Worker 0 Park]"
  obtain p :: "nat pool" where p: "pool_schedule (make_pool ''pool'' 1) ?schedule = Some p"
      and h: "\<not> pool_stop (shared (sync p))" "enqueued (history (sync p)) = [7]" "\<not> list_ex clears (history (sync p))"
        "pcs (sync p) = (\<lambda>t. Idle)(0 := Parked Wait_For_New_Task)" "concurrency p = 1"
    by (simp add: pool_eval enqueued_def fun_eq_iff)
  have "settled (sync p)" by (simp add: settled_def h(4))
  then have "at_rest p" using settled_cannot_move h(4,5) by (auto simp: at_rest_def)
  from pool_no_task_left_behind [OF pool_schedule_reaches [OF p] zero_less_one h(1) this] h(2,3)
  show ?thesis by (intro exI [of _ p]) simp
qed

end
