(* ===== verification/Pool_Stop.thy ===== *)
theory Pool_Stop
  imports Task_Pool "HOL-Library.Multiset"
begin

text \<open>
  What \<^verbatim>\<open>TaskPool::stop\<close> (\<^verbatim>\<open>lib/Task/TaskPool.cpp\<close>) promises when it returns: every
  task enqueued before it has been run, once. The pool's histories are sequential, although its
  wakeups can be lost.
\<close>

section \<open>The pool's histories are sequential\<close>

interpretation pool_stable: stable_monitor pool_class
proof
  fix op p :: "'j pool_op" and s :: "'j pool_state"
  assume "\<not> uses_lock pool_class op" "waits_for pool_class p s"
  then show "waits_for pool_class p (effect pool_class op s)"
    by (cases p; cases op) (auto simp: pool_may_take_def)
qed simp

interpretation pool_sequential: unconditional_invariant pool_step
  "\<lambda>p :: 'j pool. stable_ok pool_class pool_state_init (sync p)"
  by unfold_locales (metis pool_stable.stable_ok_step pool_step_sync)

lemma pool_replays:
  "reaches pool_step (make_pool name n) p \<Longrightarrow>
     replay pool_class pool_state_init (history (sync p)) = Some (shared (sync p))"
  using pool_sequential.inv_reaches [of "make_pool name n" p]
  by (simp add: stable_ok_def make_pool_def task_base.extend_def stable_ok_init [unfolded stable_ok_def])

fun sets_stop :: "('j pool_op, 'j pool_result) event \<Rightarrow> bool" where
  "sets_stop (Done t Set_Stop r) = True"
| "sets_stop e = False"

fun enqueues :: "('j pool_op, 'j pool_result) event \<Rightarrow> bool" where
  "enqueues (Done t (Enqueue task) r) = True"
| "enqueues e = False"

text \<open>Somebody enqueues after the flag has been set.\<close>

fun enqueues_late :: "('j pool_op, 'j pool_result) event list \<Rightarrow> bool" where
  "enqueues_late [] = False"
| "enqueues_late (e # es) = (if sets_stop e then list_ex enqueues es else enqueues_late es)"

lemma enqueues_lateI: "list_ex sets_stop es \<Longrightarrow> list_ex enqueues fs \<Longrightarrow> enqueues_late (es @ fs)"
  by (induction es) auto

lemma enqueued_nothing: "\<not> list_ex enqueues es \<Longrightarrow> enqueued es = []"
proof (induction es)
  case (Cons e es)
  then show ?case by (cases e rule: enqueued_by.cases) (auto simp: enqueued_def)
qed (simp add: enqueued_def)

lemma replay_stop: "replay pool_class s h = Some s' \<Longrightarrow> pool_stop s' \<longleftrightarrow> pool_stop s \<or> list_ex sets_stop h"
proof (induction h arbitrary: s)
  case (Cons e h)
  show ?case
  proof (cases e)
    case (Done t op r)
    with Cons.prems Cons.IH [of "pool_effect op s"] show ?thesis
      by (cases op) (auto simp: op_defs split: if_splits list.splits)
  next
    case (Timed_Out t op r)
    with Cons.prems Cons.IH [of s] show ?thesis by (auto split: if_splits)
  qed
qed simp

text \<open>A worker comes back empty-handed only from a stopping pool, and from an empty queue.\<close>

lemma empty_handed:
  assumes "replay pool_class pool_state_init (es @ Done t Wait_For_New_Task (Taken None) # fs) = Some s"
    and "\<not> list_ex enqueues_empty es"
  shows "list_ex sets_stop es \<and> (list_ex clears es \<or> enqueued es = fetched es)"
proof -
  obtain s1 where s1: "replay pool_class pool_state_init es = Some s1"
    and here: "pool_may_take s1" "fst (wait_for_new_task s1) = None"
    using assms(1) by (auto simp: replay_append split: option.splits if_splits)
  have "pool_flow pool_state_init []"
    by (simp add: pool_flow_def pool_state_init_def enqueued_def fetched_def real_tasks_def)
  from pool_hist.kept_replay [OF s1 this] have flow: "pool_flow s1 es" by simp
  then have none: "pool_tasks s1 = []"
    using here(2) assms(2) by (auto simp: pool_flow_def wait_for_new_task_def split: list.splits)
  with here(1) have "pool_stop s1" by (simp add: pool_may_take_def)
  with replay_stop [OF s1] flow none show ?thesis
    by (auto simp: pool_flow_def real_tasks_def pool_state_init_def)
qed

section \<open>What has been run\<close>

text \<open>
  The task a thread fetched last, and the tasks run to their end, read off a history whose
  newest event comes first.
\<close>

fun fetch_of :: "('j pool_op, 'j pool_result) event \<Rightarrow> (tid \<times> 'j option) option" where
  "fetch_of (Done t Wait_For_New_Task (Taken task)) = Some (t, task)"
| "fetch_of e = None"

fun end_of :: "('j pool_op, 'j pool_result) event \<Rightarrow> tid option" where
  "end_of (Done t Task_Ends r) = Some t"
| "end_of e = None"

primrec last_fetch :: "tid \<Rightarrow> ('j pool_op, 'j pool_result) event list \<Rightarrow> 'j option" where
  "last_fetch t [] = None"
| "last_fetch t (e # es) =
     (case fetch_of e of
        Some (u, task) \<Rightarrow> if u = t then task else last_fetch t es
      | None \<Rightarrow> last_fetch t es)"

primrec executed_rev :: "('j pool_op, 'j pool_result) event list \<Rightarrow> 'j list" where
  "executed_rev [] = []"
| "executed_rev (e # es) =
     (case end_of e of
        None \<Rightarrow> executed_rev es
      | Some t \<Rightarrow> (case last_fetch t es of None \<Rightarrow> [] | Some j \<Rightarrow> [j]) @ executed_rev es)"

definition executed :: "('j pool_op, 'j pool_result) event list \<Rightarrow> 'j list" where
  "executed h = rev (executed_rev (rev h))"

text \<open>The task a worker has in hand.\<close>

fun hand :: "'j worker \<Rightarrow> 'j option" where
  "hand (Checking task) = task"
| "hand (Beginning j) = Some j"
| "hand (Running j) = Some j"
| "hand w = None"

definition in_hands :: "'j pool \<Rightarrow> 'j multiset" where
  "in_hands p = (\<Sum>t<concurrency p. case hand (worker_at p t) of None \<Rightarrow> {#} | Some j \<Rightarrow> {#j#})"

definition hands_inv :: "'j pool \<Rightarrow> bool" where
  "hands_inv p \<longleftrightarrow>
     (\<forall>t < concurrency p. hand (worker_at p t) \<noteq> None \<longrightarrow> last_fetch t (rev (history (sync p))) = hand (worker_at p t)) \<and>
     mset (fetched (history (sync p))) = mset (executed (history (sync p))) + in_hands p"

abbreviation bag :: "'j option \<Rightarrow> 'j multiset" where
  "bag x \<equiv> (case x of None \<Rightarrow> {#} | Some j \<Rightarrow> {#j#})"

lemma executed_snoc:
  "mset (executed (h @ [e])) =
     mset (executed h) + (case end_of e of None \<Rightarrow> {#} | Some t \<Rightarrow> bag (last_fetch t (rev h)))"
  by (simp add: executed_def split: option.split)

lemma fetched_snoc: "fetched (h @ [e]) = fetched h @ taken_by e"
  by (simp add: fetched_def)

lemma in_hands_update:
  assumes "t < concurrency p"
  shows "in_hands (p\<lparr>sync := m, worker_at := (worker_at p)(t := w)\<rparr>) + bag (hand (worker_at p t)) =
    in_hands p + bag (hand w)"
proof -
  have mem: "t \<in> {..<concurrency p}" using assms by simp
  have "(\<Sum>u\<in>{..<concurrency p} - {t}. bag (hand (((worker_at p)(t := w)) u))) =
      (\<Sum>u\<in>{..<concurrency p} - {t}. bag (hand (worker_at p u)))"
    by (rule sum.cong) auto
  then show ?thesis
    unfolding in_hands_def using sum.remove [OF _ mem, of "\<lambda>u. bag (hand (worker_at p u))"]
      sum.remove [OF _ mem, of "\<lambda>u. bag (hand (((worker_at p)(t := w)) u))"]
    by (simp add: ac_simps)
qed

text \<open>One operation of a worker moves one task at most: into its hand, or out of it.\<close>

lemma worker_moves:
  assumes "worker_op w = Some op" and "hand w \<noteq> None \<Longrightarrow> last_fetch t h = hand w"
    and "e = Done t op (pool_outcome op s)"
  shows "hand (worker_next w s) \<noteq> None \<longrightarrow> last_fetch t (e # h) = hand (worker_next w s)"
    and "mset (taken_by e) + bag (hand w) =
      (case end_of e of None \<Rightarrow> {#} | Some u \<Rightarrow> bag (last_fetch u h)) + bag (hand (worker_next w s))"
    and "u \<noteq> t \<Longrightarrow> last_fetch u (e # h) = last_fetch u h"
  using assms by (cases "(w, s)" rule: worker_next.cases; auto split: option.split)+

lemma hands_inv_act:
  assumes inv: "hands_inv p" and places: "at_its_place p" and t: "t < concurrency p"
    and st: "monitor_step pool_class (sync p) (t, Act) m"
  shows "hands_inv (p\<lparr>sync := m, worker_at := (worker_at p)(t := worker_next (worker_at p t) (shared (sync p)))\<rparr>)"
proof -
  let ?w = "worker_at p t" and ?s = "shared (sync p)" and ?h = "rev (history (sync p))"
  from pending_step [OF st] obtain op where op: "pending (pcs (sync p) t) = Some op"
      "history m = history (sync p) @ [Done t op (pool_outcome op ?s)]"
    by auto
  have w: "worker_op ?w = Some op" using places op(1) t by (auto simp: at_its_place_def)
  have held: "hand ?w \<noteq> None \<Longrightarrow> last_fetch t ?h = hand ?w" using inv t by (simp add: hands_inv_def)
  note moves = worker_moves [OF w held refl, where s = ?s]
  have "mset (fetched (history m)) + bag (hand ?w) =
      mset (executed (history m)) + (in_hands p + bag (hand (worker_next ?w ?s)))"
    using inv moves(2) by (simp add: op(2) fetched_snoc executed_snoc hands_inv_def ac_simps)
  also have "\<dots> = mset (executed (history m)) +
      in_hands (p\<lparr>sync := m, worker_at := (worker_at p)(t := worker_next ?w ?s)\<rparr>) + bag (hand ?w)"
    using in_hands_update [OF t, where m = m and w = "worker_next ?w ?s"] by (simp add: ac_simps)
  finally have "mset (fetched (history m)) = mset (executed (history m)) +
      in_hands (p\<lparr>sync := m, worker_at := (worker_at p)(t := worker_next ?w ?s)\<rparr>)" by simp
  moreover have "last_fetch u (rev (history m)) = hand (((worker_at p)(t := worker_next ?w ?s)) u)"
    if "u < concurrency p" "hand (((worker_at p)(t := worker_next ?w ?s)) u) \<noteq> None" for u
    using that inv moves(1) moves(3) [of u] by (cases "u = t") (auto simp: op(2) hands_inv_def simp del: last_fetch.simps)
  ultimately show ?thesis unfolding hands_inv_def by simp
qed

text \<open>All other steps leave the record of fetched and ended tasks alone.\<close>

fun silent :: "('j pool_op, 'j pool_result) event \<Rightarrow> bool" where
  "silent (Timed_Out t op r) = (r = Nothing)"
| "silent (Done t op r) = (client_op op \<and> (\<forall>task. r \<noteq> Taken task))"

lemma silent_nothing: "silent e \<Longrightarrow> taken_by e = [] \<and> end_of e = None \<and> fetch_of e = None"
  by (cases e rule: taken_by.cases; cases e rule: end_of.cases; cases e rule: fetch_of.cases) auto

lemma unheard_step:
  assumes "monitor_step pool_class m (t, a) m'" and "a = Act \<Longrightarrow> (\<forall>op. pending (pcs m t) = Some op \<longrightarrow> client_op op)"
  shows "history m' = history m \<or> (\<exists>e. history m' = history m @ [e] \<and> silent e)"
proof -
  have "client_op op \<Longrightarrow> pool_outcome op s \<noteq> Taken task" for op :: "'a pool_op" and s :: "'a pool_state" and task
    by (cases op) auto
  with assms show ?thesis by (cases rule: monitor_step.cases) auto
qed

lemma hands_inv_quiet:
  assumes inv: "hands_inv p" and "history m = history (sync p) \<or> (\<exists>e. history m = history (sync p) @ [e] \<and> silent e)"
  shows "hands_inv (p\<lparr>sync := m\<rparr>)"
  using assms(2)
proof
  assume "history m = history (sync p)"
  with inv show ?thesis by (simp add: hands_inv_def in_hands_def)
next
  assume "\<exists>e. history m = history (sync p) @ [e] \<and> silent e"
  then obtain e where e: "history m = history (sync p) @ [e]" "silent e" by blast
  have nothing: "taken_by e = []" "end_of e = None" "fetch_of e = None"
    using silent_nothing [OF e(2)] by blast+
  with inv show ?thesis
    by (simp add: hands_inv_def in_hands_def e(1) fetched_snoc executed_snoc)
qed

interpretation pool_hands: unconditional_invariant pool_step "\<lambda>p. workers_inv p \<and> hands_inv p"
proof
  fix p p' :: "'j pool" and l
  assume st: "pool_step p l p'" and inv: "workers_inv p \<and> hands_inv p"
  then have places: "at_its_place p" by (simp add: workers_inv_def)
  have "hands_inv p'"
    using st
  proof (cases rule: pool_step.cases)
    case (client t a m)
    have "client_op op" if "pending (pcs (sync p) t) = Some op" for op
      using places that client(3) by (auto simp: at_its_place_def)
    with unheard_step [OF client(5)] hands_inv_quiet inv client(2) show ?thesis by blast
  next
    case (worker t a m)
    show ?thesis
    proof (cases "a = Act")
      case True
      with hands_inv_act [OF _ places worker(3), of m] inv worker show ?thesis by simp
    next
      case False
      have "hands_inv (p\<lparr>sync := m\<rparr>)"
        using unheard_step [OF worker(5)] hands_inv_quiet inv False by blast
      with False worker(2) show ?thesis by simp
    qed
  next
    case join
    with inv show ?thesis by (simp add: hands_inv_def in_hands_def)
  qed
  with workers_inv_step [OF st] inv show "workers_inv p' \<and> hands_inv p'" by blast
qed

lemma hands_reachable: "reaches pool_step (make_pool name n) p \<Longrightarrow> hands_inv p"
  using pool_hands.inv_reaches [of "make_pool name n" p] workers_inv_init
  by (auto simp: hands_inv_def in_hands_def make_pool_def task_base.extend_def fetched_def executed_def)

section \<open>When stop has returned\<close>

definition all_joined :: "'j pool \<Rightarrow> bool" where
  "all_joined p \<longleftrightarrow> (joined p \<longrightarrow> (\<forall>t < concurrency p. worker_at p t = Exited))"

interpretation pool_joined: unconditional_invariant pool_step "\<lambda>p. workers_inv p \<and> all_joined p"
proof
  fix p p' :: "'j pool" and l
  assume st: "pool_step p l p'" and inv: "workers_inv p \<and> all_joined p"
  have "all_joined p'"
    using st by (cases rule: pool_step.cases) (use inv in \<open>auto simp: all_joined_def\<close>)
  with workers_inv_step [OF st] inv show "workers_inv p' \<and> all_joined p'" by blast
qed

lemma joined_reachable:
  assumes "reaches pool_step (make_pool name n) p" and "joined p"
  shows "concurrency p = n" and "t < n \<Longrightarrow> worker_at p t = Exited"
proof -
  show n: "concurrency p = n"
    using concurrency_fixed assms(1) by (fastforce simp: reaches_def make_pool_def task_base.extend_def)
  have "all_joined p"
    using pool_joined.inv_reaches [OF assms(1)] workers_inv_init
    by (auto simp: all_joined_def make_pool_def task_base.extend_def)
  with n assms(2) show "t < n \<Longrightarrow> worker_at p t = Exited" by (simp add: all_joined_def)
qed

text \<open>
  C13: When \<^verbatim>\<open>stop\<close> has returned (its loop has joined every worker of a pool that has one), no task is
  waiting and none is running, the workers took the tasks in the order in which they were enqueued,
  and the tasks run to their end are exactly the tasks enqueued, each once; provided nobody cleared
  the queue, enqueued an empty function, or enqueued after the flag was set.
\<close>

theorem pool_stop_runs_everything:
  assumes "reaches pool_step (make_pool name n) p" and "0 < n" and "joined p"
    and "\<not> list_ex clears (history (sync p))" and "\<not> list_ex enqueues_empty (history (sync p))"
    and "\<not> enqueues_late (history (sync p))"
  shows "pool_is_empty (shared (sync p)) \<and> count_running_tasks (shared (sync p)) = 0 \<and>
    fetched (history (sync p)) = enqueued (history (sync p)) \<and>
    mset (executed (history (sync p))) = mset (enqueued (history (sync p)))"
proof -
  let ?h = "history (sync p)"
  note exited = joined_reachable [OF assms(1,3)]
  note places = workers_inv_reachable [OF assms(1)]
  have "Done 0 Wait_For_New_Task (Taken None) \<in> set ?h"
    using places exited(1) exited(2) [of 0] assms(2) by (simp add: workers_inv_def left_properly_def)
  then obtain es fs where h: "?h = es @ Done 0 Wait_For_New_Task (Taken None) # fs" by (meson split_list)
  have quiet: "\<not> list_ex clears es" "\<not> list_ex enqueues_empty es" using assms(4,5) h by simp_all
  with empty_handed [of es 0 fs] pool_replays [OF assms(1)] h
  have before: "list_ex sets_stop es" "enqueued es = fetched es" by auto
  with assms(6) h have "\<not> list_ex enqueues fs"
    using enqueues_lateI [of es "Done 0 Wait_For_New_Task (Taken None) # fs"] by auto
  then have "enqueued fs = []"
    by (rule enqueued_nothing)
  with before have "enqueued ?h = fetched es" by (simp add: h enqueued_def)
  moreover have flow: "pool_flow (shared (sync p)) ?h" by (rule pool_flow_reachable [OF assms(1)])
  then have "enqueued ?h = fetched ?h @ real_tasks (pool_tasks (shared (sync p)))"
    using assms(4) by (simp add: pool_flow_def)
  moreover have "fetched ?h = fetched es @ fetched fs" by (simp add: h fetched_def)
  ultimately have all: "fetched ?h = enqueued ?h" "real_tasks (pool_tasks (shared (sync p))) = []" by simp_all
  have "pool_tasks (shared (sync p)) = []"
    using flow all(2) assms(5) by (cases "pool_tasks (shared (sync p))") (auto simp: pool_flow_def real_tasks_def)
  moreover have "in_hands p = {#}" "busy_workers p = {}"
    using exited by (auto simp: in_hands_def busy_workers_def)
  ultimately show ?thesis
    using all(1) hands_reachable [OF assms(1)] places
    by (simp add: hands_inv_def workers_inv_def pool_is_empty_def count_running_tasks_def)
qed

theorem pool_stop_runs_everything_witness:
  "\<exists>p :: nat pool. joined p \<and> enqueued (history (sync p)) = [7] \<and> mset (executed (history (sync p))) = {#7#}"
proof -
  let ?enqueue = "[Client 5 (Call (Enqueue (Some 7))), Client 5 Acquire, Client 5 Test, Client 5 Act, Client 5 Notify, Client 5 Leave]"
  let ?fetch = "[Worker 0 (Call Wait_For_New_Task), Worker 0 Acquire, Worker 0 Test, Worker 0 Act, Worker 0 Leave, Worker 0 (Call Read_Stop), Worker 0 Act]"
  let ?schedule = "?enqueue @ [Client 5 (Call Set_Stop), Client 5 Act, Client 5 Notify] @ ?fetch @
    [Worker 0 (Call Task_Begins), Worker 0 Act, Worker 0 (Call Task_Ends), Worker 0 Act] @ ?fetch @ [Join_All]"
  obtain p where p: "pool_schedule (make_pool ''pool'' 1) ?schedule = Some p"
      and h: "joined p" "\<not> list_ex clears (history (sync p))" "\<not> list_ex enqueues_empty (history (sync p :: nat pool_monitor))"
        "\<not> enqueues_late (history (sync p))" "enqueued (history (sync p)) = [7]"
    by (simp add: pool_eval enqueued_def)
  from pool_stop_runs_everything [OF pool_schedule_reaches [OF p] zero_less_one h(1-4)] h(1,5)
  show ?thesis by (intro exI [of _ p]) simp
qed

end
