(* ===== verification/Background_Worker.thy ===== *)
theory Background_Worker
  imports Errors Task_Base
begin

text \<open>
  \<^verbatim>\<open>include/Task/BackGroundWorker.hpp\<close> and \<^verbatim>\<open>lib/Task/BackGroundWorker.cpp\<close>: one
  thread that sleeps until it is told to run the task, runs it and reports its completion. A
  step is one access to the shared flags, or one call of client code: the accesses made with the
  mutex (\<^verbatim>\<open>run_task_async\<close>, the destructor, the test in \<^verbatim>\<open>sleep\<close>) and those on the
  atomics are equally indivisible. Waking up is one step, possible whenever the predicate holds:
  what makes it true is done under the mutex with a notification.
\<close>

section \<open>Arguments of the handlers\<close>

record 'v do_task_args =
  cancel_flag :: bool
  task_result :: "'v any"

definition do_task_args_init :: "'v do_task_args" where
  "do_task_args_init = \<lparr>cancel_flag = False, task_result = None\<rparr>"

definition set_cancel :: "bool \<Rightarrow> 'v do_task_args \<Rightarrow> 'v do_task_args" where
  "set_cancel cancel args = args\<lparr>cancel_flag := cancel\<rparr>"

definition get_cancel :: "'v do_task_args \<Rightarrow> bool" where
  "get_cancel args = cancel_flag args"

definition set_result :: "'v any \<Rightarrow> 'v do_task_args \<Rightarrow> 'v do_task_args" where
  "set_result result args = args\<lparr>task_result := result\<rparr>"

definition get_result :: "'v do_task_args \<Rightarrow> 'v any" where
  "get_result args = task_result args"

text \<open>The completion arguments refer to the result inside the task's arguments.\<close>

record 'v completed_args =
  completed_cancelled :: bool
  completed_result :: "'v any"
  completed_error :: error_code

definition make_completed_args :: "bool \<Rightarrow> 'v any \<Rightarrow> error_code \<Rightarrow> 'v completed_args" where
  "make_completed_args cancelled result error =
     \<lparr>completed_cancelled = cancelled, completed_result = result, completed_error = error\<rparr>"

definition completed_result_as :: "type_name \<Rightarrow> 'v completed_args \<Rightarrow> ('v, 'v) result" where
  "completed_result_as ty args = any_cast ty (completed_result args)"

record progress_args =
  progress_percent :: "8 word"

section \<open>The worker\<close>

text \<open>
  Where the worker's thread is: in \<^verbatim>\<open>sleep\<close>; before \<^verbatim>\<open>if (stop_)\<close>; inside the task;
  inside \<^verbatim>\<open>task_completed_\<close>; storing the flags one by one; past the loop. \<open>Crashed\<close> is a
  program ended by an exception no \<^verbatim>\<open>catch\<close> takes.
\<close>

datatype flag_store = Clear_Running | Clear_Cancellation | Clear_Progress

datatype ('v, 't) phase =
    Sleeping
  | Checking_Stop
  | In_Task 't "'v do_task_args"
  | In_Handler "'v completed_args"
  | Resetting "flag_store list"
  | Ended
  | Crashed

text \<open>\<open>completions\<close> is a ghost: the arguments of the completions so far.\<close>

record ('v, 't, 'h, 'w) background_worker = task_base +
  running :: bool
  stop_requested :: bool
  cancel_pending :: bool
  progress :: "8 word"
  task_completed :: "'h option"
  progress_changed :: "'h option"
  phase_of :: "('v, 't) phase"
  bw_world :: 'w
  completions :: "'v completed_args list"

text \<open>
  Client code. The task runs in as many steps as it likes, from \<open>task_begins\<close> on; in each it may
  read the cancellation flag through the worker, change its arguments and act on the world, and
  what it does to the worker by calling its methods are steps of their own. It ends by returning or
  throwing. Handlers act on the world.
\<close>

datatype ('v, 't) task_progress = Goes_On 't | Finished "('v, unit) result"

record ('v, 't, 'h, 'w) worker_code =
  task_begins :: 't
  do_task :: "'t \<Rightarrow> bool \<Rightarrow> 'v do_task_args \<Rightarrow> 'w \<Rightarrow> ('v, 't) task_progress \<times> 'v do_task_args \<times> 'w"
  on_completed :: "'h \<Rightarrow> 'v completed_args \<Rightarrow> 'w \<Rightarrow> ('v, unit) result \<times> 'w"
  on_progress :: "'h \<Rightarrow> progress_args \<Rightarrow> 'w \<Rightarrow> ('v, unit) result \<times> 'w"

definition make_worker :: "tid \<Rightarrow> string \<Rightarrow> 'w \<Rightarrow> ('v, 't, 'h, 'w) background_worker" where
  "make_worker loop name w =
     task_base.extend ((make_task_base Background_Task name)\<lparr>thread := Some loop\<rparr>)
       \<lparr>running = False, stop_requested = False, cancel_pending = False, progress = 0,
        task_completed = None, progress_changed = None, phase_of = Sleeping, bw_world = w, completions = []\<rparr>"

definition run_task_async :: "('v, 't, 'h, 'w) background_worker \<Rightarrow> ('v, 't, 'h, 'w) background_worker" where
  "run_task_async s = s\<lparr>running := True\<rparr>"

definition cancellation_pending :: "('v, 't, 'h, 'w) background_worker \<Rightarrow> bool" where
  "cancellation_pending s = cancel_pending s"

definition cancel_async :: "('v, 't, 'h, 'w) background_worker \<Rightarrow> ('v, 't, 'h, 'w) background_worker" where
  "cancel_async s = s\<lparr>cancel_pending := True\<rparr>"

definition reports_progress ::
  "('v, 't, 'h, 'w) worker_code \<Rightarrow> 8 word \<Rightarrow> ('v, 't, 'h, 'w) background_worker
   \<Rightarrow> ('v, unit) result \<times> ('v, 't, 'h, 'w) background_worker"
where
  "reports_progress code percent s =
     (case progress_changed s of
        None \<Rightarrow> (Inr (), s)
      | Some h \<Rightarrow>
          (case on_progress code h \<lparr>progress_percent = percent\<rparr> (bw_world s) of
             (r, w) \<Rightarrow> (r, s\<lparr>bw_world := w\<rparr>)))"

definition is_busy :: "('v, 't, 'h, 'w) background_worker \<Rightarrow> bool" where
  "is_busy s = running s"

text \<open>The destructor's part under the mutex, and its \<^verbatim>\<open>join\<close>, which returns once the thread is over.\<close>

definition request_stop :: "('v, 't, 'h, 'w) background_worker \<Rightarrow> ('v, 't, 'h, 'w) background_worker" where
  "request_stop s = s\<lparr>stop_requested := True\<rparr>"

definition join_worker :: "('v, 't, 'h, 'w) background_worker \<Rightarrow> ('v, 't, 'h, 'w) background_worker option" where
  "join_worker s =
     (if stop_requested s \<and> (phase_of s = Ended \<or> thread s = None) then Some (s\<lparr>thread := None\<rparr>) else None)"

definition worker_wakes :: "('v, 't, 'h, 'w) background_worker \<Rightarrow> ('v, 't, 'h, 'w) background_worker option" where
  "worker_wakes s =
     (if phase_of s = Sleeping \<and> (running s \<or> stop_requested s)
      then Some (s\<lparr>phase_of := Checking_Stop\<rparr>) else None)"

definition worker_checks ::
  "('v, 't, 'h, 'w) worker_code \<Rightarrow> ('v, 't, 'h, 'w) background_worker \<Rightarrow> ('v, 't, 'h, 'w) background_worker option"
where
  "worker_checks code s =
     (if phase_of s = Checking_Stop
      then Some (s\<lparr>phase_of := if stop_requested s then Ended else In_Task (task_begins code) do_task_args_init\<rparr>)
      else None)"

text \<open>
  \<^verbatim>\<open>on_task_completed\<close>: the flags are stored in a different order with a handler and without.
\<close>

definition enter_completion ::
  "'v do_task_args \<Rightarrow> error_code \<Rightarrow> ('v, 't, 'h, 'w) background_worker \<Rightarrow> ('v, 't, 'h, 'w) background_worker"
where
  "enter_completion args error s =
     (case task_completed s of
        None \<Rightarrow> s\<lparr>phase_of := Resetting [Clear_Running, Clear_Cancellation, Clear_Progress]\<rparr>
      | Some h \<Rightarrow> s\<lparr>phase_of := In_Handler (make_completed_args (get_cancel args) (get_result args) error)\<rparr>)"

definition on_do_task ::
  "('v, 't, 'h, 'w) worker_code \<Rightarrow> ('v, 't, 'h, 'w) background_worker \<Rightarrow> ('v, 't, 'h, 'w) background_worker option"
where
  "on_do_task code s =
     (case phase_of s of
        In_Task t args0 \<Rightarrow>
          Some (case do_task code t (cancellation_pending s) args0 (bw_world s) of
             (Goes_On t', args, w) \<Rightarrow> s\<lparr>phase_of := In_Task t' args, bw_world := w\<rparr>
           | (Finished (Inr _), args, w) \<Rightarrow> enter_completion args Success (s\<lparr>bw_world := w\<rparr>)
           | (Finished (Inl (Framework_Exception e)), args, w) \<Rightarrow>
               enter_completion args (get_code e) (s\<lparr>bw_world := w\<rparr>)
           | (Finished (Inl (System_Exception e)), args, w) \<Rightarrow>
               enter_completion args (get_code e) (s\<lparr>bw_world := w\<rparr>)
           | (Finished (Inl _), args, w) \<Rightarrow> s\<lparr>phase_of := Crashed, bw_world := w\<rparr>)
      | _ \<Rightarrow> None)"

definition on_task_completed ::
  "('v, 't, 'h, 'w) worker_code \<Rightarrow> ('v, 't, 'h, 'w) background_worker \<Rightarrow> ('v, 't, 'h, 'w) background_worker option"
where
  "on_task_completed code s =
     (case phase_of s of
        In_Handler args \<Rightarrow>
          Some (case task_completed s of
             None \<Rightarrow> s\<lparr>phase_of := Crashed\<rparr>
           | Some h \<Rightarrow>
               (case on_completed code h args (bw_world s) of
                  (Inr _, w) \<Rightarrow> s\<lparr>phase_of := Resetting [Clear_Cancellation, Clear_Running, Clear_Progress],
                    bw_world := w, completions := completions s @ [args]\<rparr>
                | (Inl _, w) \<Rightarrow> s\<lparr>phase_of := Crashed, bw_world := w\<rparr>))
      | _ \<Rightarrow> None)"

fun store_flag :: "flag_store \<Rightarrow> ('v, 't, 'h, 'w) background_worker \<Rightarrow> ('v, 't, 'h, 'w) background_worker" where
  "store_flag Clear_Running s = s\<lparr>running := False\<rparr>"
| "store_flag Clear_Cancellation s = s\<lparr>cancel_pending := False\<rparr>"
| "store_flag Clear_Progress s = s\<lparr>progress := 0\<rparr>"

definition worker_resets :: "('v, 't, 'h, 'w) background_worker \<Rightarrow> ('v, 't, 'h, 'w) background_worker option" where
  "worker_resets s =
     (case phase_of s of
        Resetting (f # fs) \<Rightarrow>
          Some ((store_flag f s)\<lparr>phase_of := if fs = [] then Sleeping else Resetting fs\<rparr>)
      | _ \<Rightarrow> None)"

lemmas worker_defs [op_defs] = run_task_async_def cancel_async_def request_stop_def join_worker_def worker_wakes_def
  worker_checks_def on_do_task_def on_task_completed_def worker_resets_def enter_completion_def

section \<open>Steps\<close>

datatype 'h worker_action =
    Run_Task_Async
  | Cancel_Async
  | Request_Stop
  | Join_Worker
  | Report_Progress "8 word"
  | Set_Completed "'h option"
  | Set_Progress_Changed "'h option"
  | Wakes
  | Checks
  | Does_Task
  | Completes
  | Resets

definition worker_exec ::
  "('v, 't, 'h, 'w) worker_code \<Rightarrow> 'h worker_action \<Rightarrow> ('v, 't, 'h, 'w) background_worker
   \<Rightarrow> ('v, 't, 'h, 'w) background_worker option"
where
  "worker_exec code l s =
     (case l of
        Run_Task_Async \<Rightarrow> Some (run_task_async s)
      | Cancel_Async \<Rightarrow> Some (cancel_async s)
      | Request_Stop \<Rightarrow> Some (request_stop s)
      | Join_Worker \<Rightarrow> join_worker s
      | Report_Progress percent \<Rightarrow> Some (snd (reports_progress code percent s))
      | Set_Completed h \<Rightarrow> Some (s\<lparr>task_completed := h\<rparr>)
      | Set_Progress_Changed h \<Rightarrow> Some (s\<lparr>progress_changed := h\<rparr>)
      | Wakes \<Rightarrow> worker_wakes s
      | Checks \<Rightarrow> worker_checks code s
      | Does_Task \<Rightarrow> on_do_task code s
      | Completes \<Rightarrow> on_task_completed code s
      | Resets \<Rightarrow> worker_resets s)"

definition worker_step ::
  "('v, 't, 'h, 'w) worker_code \<Rightarrow> ('v, 't, 'h, 'w) background_worker \<Rightarrow> 'h worker_action
   \<Rightarrow> ('v, 't, 'h, 'w) background_worker \<Rightarrow> bool"
where
  "worker_step code s l s' \<longleftrightarrow> worker_exec code l s = Some s'"

primrec worker_schedule ::
  "('v, 't, 'h, 'w) worker_code \<Rightarrow> ('v, 't, 'h, 'w) background_worker \<Rightarrow> 'h worker_action list
   \<Rightarrow> ('v, 't, 'h, 'w) background_worker option"
where
  "worker_schedule code s [] = Some s"
| "worker_schedule code s (l # ls) =
     (case worker_exec code l s of None \<Rightarrow> None | Some s' \<Rightarrow> worker_schedule code s' ls)"

lemma worker_schedule_run: "worker_schedule code s ls = Some s' \<Longrightarrow> run (worker_step code) s ls s'"
  by (induction ls arbitrary: s) (auto simp: worker_step_def split: option.splits)

lemma worker_schedule_reaches: "worker_schedule code s ls = Some s' \<Longrightarrow> reaches (worker_step code) s s'"
  by (blast intro: reachesI worker_schedule_run)

lemmas worker_eval = op_defs worker_exec_def make_worker_def task_base.extend_def reports_progress_def make_completed_args_def
  get_cancel_def get_result_def set_cancel_def set_result_def do_task_args_init_def cancellation_pending_def

section \<open>Requests while the worker is busy\<close>

text \<open>The worker is between waking up for a run and taking the request back.\<close>

fun serving :: "('v, 't) phase \<Rightarrow> bool" where
  "serving (In_Task t args) = True"
| "serving (In_Handler args) = True"
| "serving (Resetting fs) = (Clear_Running \<in> set fs)"
| "serving p = False"

definition busy_inv :: "('v, 't, 'h, 'w) background_worker \<Rightarrow> bool" where
  "busy_inv s \<longleftrightarrow>
     (serving (phase_of s) \<longrightarrow> running s) \<and>
     (phase_of s = Checking_Stop \<longrightarrow> running s \<or> stop_requested s) \<and>
     (case phase_of s of Resetting fs \<Rightarrow> distinct fs | _ \<Rightarrow> True)"

lemma busy_inv_step:
  assumes "worker_step code s l s'" and "busy_inv s"
  shows "busy_inv s'"
proof (cases l)
  case Resets
  then obtain f fs where "phase_of s = Resetting (f # fs)"
      "s' = (store_flag f s)\<lparr>phase_of := if fs = [] then Sleeping else Resetting fs\<rparr>"
    using assms(1) by (auto simp: worker_step_def worker_exec_def worker_resets_def split: phase.splits list.splits)
  with assms(2) show ?thesis by (cases f) (auto simp: busy_inv_def)
next
  case Completes
  then show ?thesis using assms
    by (auto simp: worker_step_def worker_exec_def on_task_completed_def busy_inv_def
        split: phase.splits option.splits prod.splits sum.splits)
next
  case Does_Task
  then show ?thesis using assms
    by (auto simp: worker_step_def worker_exec_def on_do_task_def enter_completion_def busy_inv_def
        split: if_splits option.splits prod.splits sum.splits exn.splits phase.splits task_progress.splits)
qed (use assms in \<open>auto simp: worker_step_def worker_exec_def op_defs reports_progress_def busy_inv_def
      split: if_splits option.splits prod.splits phase.splits\<close>)

interpretation worker_busy: unconditional_invariant "worker_step code" busy_inv
  for code :: "('v, 't, 'h, 'w) worker_code"
  by unfold_locales (rule busy_inv_step)

lemma busy_inv_reachable: "reaches (worker_step code) (make_worker loop name w) s \<Longrightarrow> busy_inv s"
  by (erule worker_busy.inv_reaches) (simp add: busy_inv_def make_worker_def task_base.extend_def)

text \<open>The present run is under way, or the request that started it has been taken back.\<close>

definition request_served :: "('v, 't, 'h, 'w) background_worker \<Rightarrow> bool" where
  "request_served s \<longleftrightarrow> busy_inv s \<and> (serving (phase_of s) \<or> \<not> running s \<or> phase_of s \<in> {Ended, Crashed})"

definition idle :: "('v, 't, 'h, 'w) background_worker \<Rightarrow> bool" where
  "idle s \<longleftrightarrow> busy_inv s \<and> \<not> running s \<and> phase_of s \<in> {Sleeping, Checking_Stop, Ended}"

lemma request_served_step:
  assumes "worker_step code s l s'" and "l \<noteq> Run_Task_Async" and "request_served s"
  shows "request_served s'"
proof -
  have "serving (phase_of s') \<or> \<not> running s' \<or> phase_of s' \<in> {Ended, Crashed}"
  proof (cases l)
    case Resets
    then obtain f fs where "phase_of s = Resetting (f # fs)"
        "s' = (store_flag f s)\<lparr>phase_of := if fs = [] then Sleeping else Resetting fs\<rparr>"
      using assms(1) by (auto simp: worker_step_def worker_exec_def worker_resets_def split: phase.splits list.splits)
    with assms(3) show ?thesis by (cases f) (auto simp: request_served_def)
  next
    case Does_Task
    then show ?thesis using assms
      by (auto simp: worker_step_def worker_exec_def on_do_task_def enter_completion_def request_served_def
          split: if_splits option.splits prod.splits sum.splits exn.splits phase.splits task_progress.splits)
  next
    case Completes
    then show ?thesis using assms
      by (auto simp: worker_step_def worker_exec_def on_task_completed_def request_served_def
          split: phase.splits option.splits prod.splits sum.splits)
  qed (use assms in \<open>auto simp: worker_step_def worker_exec_def op_defs reports_progress_def request_served_def busy_inv_def
        split: if_splits option.splits prod.splits phase.splits\<close>)
  with busy_inv_step [OF assms(1)] assms(3) show ?thesis by (simp add: request_served_def)
qed

lemma idle_step: "worker_step code s l s' \<Longrightarrow> l \<noteq> Run_Task_Async \<Longrightarrow> idle s \<Longrightarrow> idle s'"
  using busy_inv_step [of code s l s'] unfolding idle_def worker_step_def worker_exec_def
  by (cases l) (auto simp: op_defs reports_progress_def busy_inv_def
      split: if_splits option.splits prod.splits phase.splits)

interpretation worker_served: step_invariant "worker_step code" "\<lambda>l. l \<noteq> Run_Task_Async" request_served
  for code :: "('v, 't, 'h, 'w) worker_code"
  by unfold_locales (rule request_served_step)

interpretation worker_idle: step_invariant "worker_step code" "\<lambda>l. l \<noteq> Run_Task_Async" idle
  for code :: "('v, 't, 'h, 'w) worker_code"
  by unfold_locales (rule idle_step)

text \<open>A task of two steps that counts them, and that takes note of a cancellation in the second.\<close>

definition plain_worker :: "(nat, bool, unit, nat) worker_code" where
  "plain_worker =
     \<lparr>task_begins = False,
      do_task = (\<lambda>t cancelled args n.
        if t then (Finished (Inr ()), set_cancel cancelled args, Suc n) else (Goes_On True, args, Suc n)),
      on_completed = (\<lambda>h args n. (Inr (), n)), on_progress = (\<lambda>h args n. (Inr (), n))\<rparr>"

text \<open>
  C35: a run requested while the worker is inside the task or the completion handler is lost: the
  request changes nothing, and once the present run is over the worker starts no other until it is
  asked again. \<^verbatim>\<open>is_busy\<close> is true all the while.
\<close>

theorem worker_loses_request_while_busy:
  assumes "reaches (worker_step code) (make_worker loop name w) s" and "serving (phase_of s)"
    and "run (worker_step code) (run_task_async s) ls s1" and "Run_Task_Async \<notin> set ls" and "phase_of s1 = Sleeping"
    and "run (worker_step code) s1 ms s2" and "Run_Task_Async \<notin> set ms"
  shows "run_task_async s = s \<and> is_busy s \<and> phase_of s2 \<in> {Sleeping, Checking_Stop, Ended}"
proof -
  have inv: "busy_inv s" by (rule busy_inv_reachable [OF assms(1)])
  then have same: "run_task_async s = s" and "is_busy s"
    using assms(2) by (cases s; simp add: busy_inv_def run_task_async_def is_busy_def)+
  have "request_served s" using inv assms(2) by (simp add: request_served_def)
  then have "request_served s1"
    using worker_served.inv_run [OF assms(3)] assms(4) by (auto simp: same)
  then have "idle s1" using assms(5) by (auto simp: request_served_def idle_def)
  then have "idle s2" using worker_idle.inv_run [OF assms(6)] assms(7) by auto
  with same \<open>is_busy s\<close> show ?thesis by (auto simp: idle_def)
qed

theorem worker_loses_request_while_busy_witness:
  "\<exists>(s :: (nat, bool, unit, nat) background_worker) s2. phase_of s = In_Task True do_task_args_init \<and> run_task_async s = s \<and>
     run (worker_step plain_worker) (run_task_async s) [Does_Task, Resets, Resets, Resets, Request_Stop, Wakes] s2 \<and>
     phase_of s2 \<in> {Sleeping, Checking_Stop, Ended}"
proof -
  obtain s where s: "worker_schedule plain_worker (make_worker 3 ''worker'' 0) [Run_Task_Async, Wakes, Checks, Does_Task] = Some s"
      "phase_of s = In_Task True do_task_args_init"
    by (simp add: worker_eval plain_worker_def)
  obtain s1 where s1: "worker_schedule plain_worker (run_task_async s) [Does_Task, Resets, Resets, Resets] = Some s1"
      "phase_of s1 = Sleeping"
    using s(1) by (auto simp: worker_eval plain_worker_def)
  obtain s2 where s2: "worker_schedule plain_worker s1 [Request_Stop, Wakes] = Some s2"
    using s1(2) by (simp add: worker_eval)
  note runs = worker_schedule_run [OF s1(1)] worker_schedule_run [OF s2]
  have "run_task_async s = s \<and> is_busy s \<and> phase_of s2 \<in> {Sleeping, Checking_Stop, Ended}"
    by (rule worker_loses_request_while_busy [OF worker_schedule_reaches [OF s(1)] _ runs(1) _ s1(2) runs(2)])
      (simp_all add: s(2))
  with s(2) run_append [OF runs] show ?thesis unfolding append_Cons append_Nil by blast
qed

section \<open>Cancelling\<close>

text \<open>
  A cancellation requested while the worker sleeps stays pending: the next run starts as
  already cancelled, unless the flag was cleared by the end of an earlier run.
\<close>

theorem worker_cancel_while_idle_hits_next_run:
  assumes "phase_of s = Sleeping" and "\<not> stop_requested s"
    and "worker_schedule code s [Cancel_Async, Run_Task_Async, Wakes, Checks, Does_Task] = Some s'"
  shows "\<exists>r args w. do_task code (task_begins code) True do_task_args_init (bw_world s) = (r, args, w) \<and> bw_world s' = w"
  using assms
  by (cases "do_task code (task_begins code) True do_task_args_init (bw_world s)")
    (auto simp: worker_eval split: sum.splits exn.splits option.splits task_progress.splits)

theorem worker_cancel_while_idle_hits_next_run_witness:
  "\<exists>s'. worker_schedule plain_worker (make_worker 3 ''worker'' 0) [Cancel_Async, Run_Task_Async, Wakes, Checks, Does_Task] = Some s' \<and>
     bw_world s' = 1"
proof -
  obtain s' where s': "worker_schedule plain_worker (make_worker 3 ''worker'' 0) [Cancel_Async, Run_Task_Async, Wakes, Checks, Does_Task] = Some s'"
    by (simp add: worker_eval plain_worker_def)
  have "\<exists>r args w. do_task plain_worker (task_begins plain_worker) True do_task_args_init 0 = (r, args, w) \<and> bw_world s' = w"
    using worker_cancel_while_idle_hits_next_run [OF _ _ s'] by (simp add: make_worker_def task_base.extend_def)
  with s' show ?thesis by (simp add: plain_worker_def)
qed

text \<open>A cancellation requested during a run stays visible to the task until the run is over.\<close>

lemma cancellation_stays:
  "worker_step code s l s' \<Longrightarrow> l \<noteq> Resets \<Longrightarrow> cancel_pending s \<Longrightarrow> cancel_pending s'"
  unfolding worker_step_def worker_exec_def
  by (cases l) (auto simp: op_defs reports_progress_def
      split: if_splits option.splits prod.splits phase.splits sum.splits exn.splits task_progress.splits)

interpretation cancelling: step_invariant "worker_step code" "\<lambda>l. l \<noteq> Resets" cancel_pending
  for code :: "('v, 't, 'h, 'w) worker_code"
  by unfold_locales (rule cancellation_stays)

section \<open>Destruction\<close>

text \<open>Once the destructor has set the flag, a sleeping worker starts no further run.\<close>

definition leaving :: "('v, 't, 'h, 'w) background_worker \<Rightarrow> bool" where
  "leaving s \<longleftrightarrow> stop_requested s \<and> phase_of s \<in> {Sleeping, Checking_Stop, Ended}"

lemma leaving_step: "worker_step code s l s' \<Longrightarrow> leaving s \<Longrightarrow> leaving s' \<and> completions s' = completions s"
  unfolding worker_step_def worker_exec_def
  by (cases l) (auto simp: op_defs leaving_def reports_progress_def
      split: if_splits option.splits prod.splits phase.splits)

interpretation worker_leaving: unconditional_invariant "worker_step code"
  "\<lambda>s. leaving s \<and> completions s = cs" for code :: "('v, 't, 'h, 'w) worker_code" and cs
  by unfold_locales (use leaving_step in blast)

text \<open>
  When the destructor sets the flag while the worker sleeps, or is about to test the flag, no
  task is started any more, not even one already requested; a worker that has not ended has a step
  to take, so the \<^verbatim>\<open>join\<close> returns.
\<close>

theorem worker_destructor_drops_pending_run:
  assumes "phase_of s = Sleeping" and "reaches (worker_step code) (request_stop s) s'"
  shows "phase_of s' \<in> {Sleeping, Checking_Stop, Ended} \<and> completions s' = completions s \<and>
    (case phase_of s' of
       Sleeping \<Rightarrow> worker_wakes s' = Some (s'\<lparr>phase_of := Checking_Stop\<rparr>)
     | Checking_Stop \<Rightarrow> worker_checks code s' = Some (s'\<lparr>phase_of := Ended\<rparr>)
     | Ended \<Rightarrow> join_worker s' = Some (s'\<lparr>thread := None\<rparr>)
     | _ \<Rightarrow> True)"
proof -
  have "leaving (request_stop s) \<and> completions (request_stop s) = completions s"
    using assms(1) by (simp add: leaving_def request_stop_def)
  from worker_leaving.inv_reaches [OF assms(2) this] show ?thesis
    by (auto simp: leaving_def op_defs)
qed

theorem worker_destructor_drops_pending_run_witness:
  "\<exists>s' :: (nat, bool, unit, nat) background_worker. running s' \<and> phase_of s' \<in> {Sleeping, Checking_Stop, Ended} \<and> bw_world s' = 0"
proof -
  let ?s = "run_task_async (make_worker 3 ''worker'' 0) :: (nat, bool, unit, nat) background_worker"
  obtain s' where s': "worker_schedule plain_worker (request_stop ?s) [Wakes, Checks] = Some s'" "running s'" "bw_world s' = 0"
    by (simp add: worker_eval)
  have "phase_of ?s = Sleeping" by (simp add: worker_eval)
  from worker_destructor_drops_pending_run [OF this worker_schedule_reaches [OF s'(1)]] s'(2,3) show ?thesis by blast
qed

section \<open>Errors of the task\<close>

text \<open>
  C33: what the completion handler is told: the task's cancel flag and result, with \<^verbatim>\<open>Success\<close>
  when the task returned and the code of a framework exception it threw; any other exception, and any
  exception of the handler, ends the program. Afterwards the three flags are cleared and the worker
  sleeps again.
\<close>

theorem worker_reports_completion:
  assumes "phase_of s = In_Task t args0" and "task_completed s = Some h"
    and "do_task code t (cancel_pending s) args0 (bw_world s) = (Finished r, args, w)"
    and "on_completed code h (make_completed_args (get_cancel args) (get_result args)
           (case r of Inr _ \<Rightarrow> Success | Inl (Framework_Exception e) \<Rightarrow> get_code e
              | Inl (System_Exception e) \<Rightarrow> get_code e | Inl _ \<Rightarrow> Unknown)) w = (q, w')"
  shows "worker_schedule code s [Does_Task, Completes, Resets, Resets, Resets] =
    (case r of
       Inl (Std_Out_Of_Range m) \<Rightarrow> None | Inl Bad_Any_Cast \<Rightarrow> None | Inl (Other_Exception m) \<Rightarrow> None
     | _ \<Rightarrow> (case q of
           Inl e \<Rightarrow> None
         | Inr _ \<Rightarrow> Some (s\<lparr>phase_of := Sleeping, bw_world := w', running := False, cancel_pending := False, progress := 0,
             completions := completions s @ [make_completed_args (get_cancel args) (get_result args)
               (case r of Inr _ \<Rightarrow> Success | Inl (Framework_Exception e) \<Rightarrow> get_code e
              | Inl (System_Exception e) \<Rightarrow> get_code e | Inl _ \<Rightarrow> Unknown)]\<rparr>)))"
  using assms
  by (cases s) (auto simp: op_defs worker_exec_def cancellation_pending_def split: sum.splits exn.splits)

theorem worker_reports_completion_witness:
  "\<exists>s'. worker_schedule plain_worker ((make_worker 3 ''worker'' 0)\<lparr>phase_of := In_Task True do_task_args_init, task_completed := Some ()\<rparr>)
      [Does_Task, Completes, Resets, Resets, Resets] = Some s' \<and>
    completions s' = [make_completed_args False None Success]"
  by (subst worker_reports_completion
      [where t = True and ?args0.0 = do_task_args_init and r = "Inr ()" and args = "set_cancel False do_task_args_init" and w = 1 and q = "Inr ()" and w' = 1 and h = "()"])
    (simp_all add: plain_worker_def worker_eval)

end
