(* ===== verification/Worker_Stop.thy ===== *)
theory Worker_Stop
  imports Background_Worker
begin

text \<open>
  The destructor of a \<^verbatim>\<open>BackGroundWorker\<close> (\<^verbatim>\<open>lib/Task/BackGroundWorker.cpp\<close>)
  returns, whatever the worker is doing when it is called, provided the task comes to an end.
\<close>

section \<open>The worker's way to the end\<close>

text \<open>A task that ends: every step that goes on lowers \<open>m\<close>.\<close>

definition task_ends :: "('t \<Rightarrow> nat) \<Rightarrow> ('v, 't, 'h, 'w) worker_code \<Rightarrow> bool" where
  "task_ends m code \<longleftrightarrow>
     (\<forall>t cancelled args w t' args' w'. do_task code t cancelled args w = (Goes_On t', args', w') \<longrightarrow> m t' < m t)"

text \<open>The steps the worker's thread still takes once the flag is set.\<close>

fun steps_to_end :: "('t \<Rightarrow> nat) \<Rightarrow> ('v, 't) phase \<Rightarrow> nat" where
  "steps_to_end m Sleeping = 2"
| "steps_to_end m Checking_Stop = 1"
| "steps_to_end m (In_Task t args) = m t + 7"
| "steps_to_end m (In_Handler args) = 6"
| "steps_to_end m (Resetting fs) = length fs + 2"
| "steps_to_end m p = 0"

fun thread_label :: "'h worker_action \<Rightarrow> bool" where
  "thread_label Wakes = True"
| "thread_label Checks = True"
| "thread_label Does_Task = True"
| "thread_label Completes = True"
| "thread_label Resets = True"
| "thread_label l = False"

lemma store_flag_frame [simp]:
  "stop_requested (store_flag f s) = stop_requested s" "thread (store_flag f s) = thread s"
  by (cases f; simp)+

lemma steps_to_end_step:
  assumes st: "worker_step code s l s'" and stop: "stop_requested s" and ends: "task_ends m code"
  shows "stop_requested s' \<and> steps_to_end m (phase_of s') + (if thread_label l then 1 else 0) \<le> steps_to_end m (phase_of s)"
proof (cases l)
  case Does_Task
  then obtain t args0 where t: "phase_of s = In_Task t args0"
    using st by (auto simp: worker_step_def worker_exec_def on_do_task_def split: phase.splits)
  obtain r args w where run: "do_task code t (cancellation_pending s) args0 (bw_world s) = (r, args, w)"
    using prod_cases3 by blast
  show ?thesis
  proof (cases r)
    case (Goes_On t')
    with ends run have "m t' < m t" unfolding task_ends_def by blast
    with Does_Task st t run Goes_On stop show ?thesis
      by (auto simp: worker_step_def worker_exec_def on_do_task_def)
  next
    case (Finished q)
    with Does_Task st t run stop show ?thesis
      by (auto simp: worker_step_def worker_exec_def on_do_task_def enter_completion_def
          split: option.splits sum.splits exn.splits)
  qed
next
  case Completes
  with st stop show ?thesis
    by (auto simp: worker_step_def worker_exec_def on_task_completed_def split: phase.splits option.splits prod.splits sum.splits)
qed (use st stop in \<open>auto simp: worker_step_def worker_exec_def op_defs reports_progress_def
      split: if_splits option.splits prod.splits phase.splits list.splits\<close>)

interpretation worker_ending: ending_thread "worker_step code" "\<lambda>_. True" thread_label
  "\<lambda>s. stop_requested s \<and> task_ends m code" "\<lambda>s. steps_to_end m (phase_of s)"
  for code :: "('v, 't, 'h, 'w) worker_code" and m
  using steps_to_end_step by unfold_locales blast

text \<open>The thread always has a flag left to store when it stores flags, and three at most.\<close>

definition flags_left :: "('v, 't, 'h, 'w) background_worker \<Rightarrow> bool" where
  "flags_left s \<longleftrightarrow> (case phase_of s of Resetting fs \<Rightarrow> fs \<noteq> [] \<and> length fs \<le> 3 | _ \<Rightarrow> True)"

lemma flags_left_step: "worker_step code s l s' \<Longrightarrow> flags_left s \<Longrightarrow> flags_left s'"
  unfolding worker_step_def worker_exec_def flags_left_def
  by (cases l) (auto simp: op_defs reports_progress_def
      split: if_splits option.splits prod.splits phase.splits list.splits sum.splits exn.splits task_progress.splits)

interpretation worker_flags: unconditional_invariant "worker_step code" flags_left
  for code :: "('v, 't, 'h, 'w) worker_code"
  by unfold_locales (rule flags_left_step)

lemma worker_can_move:
  assumes "flags_left s" and "stop_requested s"
  shows "join_worker s \<noteq> None \<or> phase_of s = Crashed \<or> (\<exists>l s'. thread_label l \<and> worker_step code s l s')"
proof -
  have stepI: "worker_exec code l s = Some s' \<Longrightarrow> thread_label l \<Longrightarrow> ?thesis" for l s'
    unfolding worker_step_def by blast
  show ?thesis
  proof (cases "phase_of s")
    case Sleeping
    with assms(2) show ?thesis by (intro stepI [of Wakes]) (auto simp: worker_exec_def op_defs)
  next
    case Checking_Stop
    then show ?thesis by (intro stepI [of Checks]) (auto simp: worker_exec_def op_defs)
  next
    case (In_Task t args)
    then show ?thesis by (intro stepI [of Does_Task]) (auto simp: worker_exec_def on_do_task_def)
  next
    case (In_Handler args)
    then show ?thesis by (intro stepI [of Completes]) (auto simp: worker_exec_def on_task_completed_def)
  next
    case (Resetting fs)
    with assms(1) obtain f gs where "fs = f # gs" by (cases fs) (auto simp: flags_left_def)
    with Resetting show ?thesis by (intro stepI [of Resets]) (auto simp: worker_exec_def worker_resets_def)
  qed (use assms(2) in \<open>simp_all add: join_worker_def\<close>)
qed

section \<open>The destructor returns\<close>

text \<open>
  C14: From the moment the destructor has set the flag, whatever other threads do with the worker, its
  thread takes at most seven steps more than the task has left (six outside the task); and until the
  \<^verbatim>\<open>join\<close> can return the thread has a step to take, unless an exception has ended the program.
\<close>

theorem worker_destructor_returns:
  assumes "reaches (worker_step code) (make_worker loop name w) s" and "task_ends m code"
    and "run (worker_step code) (request_stop s) ls s'"
  shows "length (filter thread_label ls) \<le> (case phase_of s of In_Task t args \<Rightarrow> m t + 7 | _ \<Rightarrow> 6) \<and>
    (join_worker s' \<noteq> None \<or> phase_of s' = Crashed \<or> (\<exists>l s''. thread_label l \<and> worker_step code s' l s''))"
proof -
  have "flags_left s"
    by (rule worker_flags.inv_reaches [OF assms(1)]) (simp add: flags_left_def make_worker_def task_base.extend_def)
  then have flags: "flags_left (request_stop s)" "steps_to_end m (phase_of (request_stop s)) \<le>
      (case phase_of s of In_Task t args \<Rightarrow> m t + 7 | _ \<Rightarrow> 6)"
    by (auto simp: flags_left_def request_stop_def split: phase.split)
  have stop: "stop_requested (request_stop s)" by (simp add: request_stop_def)
  with worker_ending.left_run [OF assms(3), of m] assms(2) flags(2)
  have "stop_requested s'" "length (filter thread_label ls) \<le> (case phase_of s of In_Task t args \<Rightarrow> m t + 7 | _ \<Rightarrow> 6)"
    by (auto simp: list_all_iff)
  with worker_can_move worker_flags.inv_reaches [OF reachesI [OF assms(3)] flags(1)] show ?thesis by blast
qed

theorem worker_destructor_returns_witness:
  "\<exists>(s :: (nat, bool, unit, nat) background_worker) ls s'. phase_of s = In_Task False do_task_args_init \<and>
     run (worker_step plain_worker) (request_stop s) ls s' \<and> join_worker s' \<noteq> None \<and>
     length (filter thread_label ls) = 7 \<and> 7 \<le> (case phase_of s of In_Task t args \<Rightarrow> (if t then 0 else 1) + 7 | _ \<Rightarrow> (6 :: nat))"
proof -
  let ?m = "\<lambda>t :: bool. if t then 0 else 1 :: nat"
  let ?ls = "[Does_Task, Does_Task, Resets, Resets, Resets, Wakes, Checks]"
  obtain s where s: "worker_schedule plain_worker (make_worker 3 ''worker'' 0) [Run_Task_Async, Wakes, Checks] = Some s"
      "phase_of s = In_Task False do_task_args_init"
    by (simp add: worker_eval plain_worker_def)
  obtain s' where s': "worker_schedule plain_worker (request_stop s) ?ls = Some s'" "join_worker s' \<noteq> None"
    using s(1) by (auto simp: worker_eval plain_worker_def)
  have "task_ends ?m plain_worker" by (auto simp: task_ends_def plain_worker_def split: if_splits)
  from worker_destructor_returns [OF worker_schedule_reaches [OF s(1)] this worker_schedule_run [OF s'(1)]] s' s(2)
  show ?thesis by (intro exI [of _ s] exI [of _ ?ls] exI [of _ s']) (simp add: worker_schedule_run [OF s'(1)])
qed

end
