(* ===== verification/Timer_Model.thy ===== *)
theory Timer_Model
  imports Prelude
begin

text \<open>
  \<^verbatim>\<open>include/Timer.hpp\<close> and \<^verbatim>\<open>lib/Timer/Timer.cpp\<close>: a timer thread that sleeps, runs the
  listeners and, with \<^verbatim>\<open>auto_restart\<close>, goes round again. Listeners are known by identifiers
  \<open>'f\<close>; running one is a step of the timer thread. The timer's methods are called by one thread at
  a time; \<^verbatim>\<open>join\<close> makes a method wait until the timer thread is over.
\<close>

section \<open>The timer\<close>

text \<open>
  Where the timer thread is: before it copies the listeners, in \<^verbatim>\<open>sleep_for\<close>, before the test of
  \<^verbatim>\<open>active_\<close>, between listeners (with those still to run), before the test of
  \<^verbatim>\<open>restart_\<close>, and over but not yet joined. \<open>No_Thread\<close> is a thread that is not joinable.
\<close>

datatype 'f timer_phase =
    No_Thread
  | Copying
  | In_Sleep "'f list"
  | Testing_Active "'f list"
  | Invoking "'f list" "'f list"
  | Testing_Restart "'f list"
  | Thread_Over

text \<open>\<open>fired\<close> is a ghost: the listeners run since the last \<^verbatim>\<open>start\<close> that started a thread.\<close>

record 'f timer =
  time :: millis
  restart :: bool
  active :: bool
  timer_thread :: "'f timer_phase"
  event_handlers :: "'f list"
  fired :: "'f list"

definition make_timer :: "millis \<Rightarrow> 'f timer" where
  "make_timer ms =
     \<lparr>time = ms, restart = False, active = False, timer_thread = No_Thread, event_handlers = [], fired = []\<rparr>"

definition auto_restart :: "bool \<Rightarrow> 'f timer \<Rightarrow> 'f timer" where
  "auto_restart val s = s\<lparr>restart := val\<rparr>"

definition add_listener :: "'f \<Rightarrow> 'f timer \<Rightarrow> 'f timer" where
  "add_listener f s = s\<lparr>event_handlers := event_handlers s @ [f]\<rparr>"

text \<open>\<open>None\<close> while the thread of an earlier start has to be waited for.\<close>

definition timer_start :: "'f timer \<Rightarrow> 'f timer option" where
  "timer_start s =
     (if active s then Some s
      else if timer_thread s = No_Thread \<or> timer_thread s = Thread_Over
      then Some (s\<lparr>active := True, timer_thread := Copying, fired := []\<rparr>)
      else None)"

definition timer_stop :: "'f timer \<Rightarrow> 'f timer" where
  "timer_stop s = (if active s then s\<lparr>active := False\<rparr> else s)"

text \<open>\<^verbatim>\<open>wait_for_stop\<close> stops, then joins.\<close>

definition wait_for_stop_ends :: "'f timer \<Rightarrow> 'f timer option" where
  "wait_for_stop_ends s =
     (if timer_thread s = No_Thread \<or> timer_thread s = Thread_Over
      then Some (s\<lparr>timer_thread := No_Thread\<rparr>) else None)"

text \<open>The destructor is \<^verbatim>\<open>wait_for_stop\<close>: these are its two halves.\<close>

definition timer_destructor_begins :: "'f timer \<Rightarrow> 'f timer" where
  "timer_destructor_begins s = timer_stop s"

definition timer_destructor_ends :: "'f timer \<Rightarrow> 'f timer option" where
  "timer_destructor_ends s = wait_for_stop_ends s"

fun thread_step :: "'f timer \<Rightarrow> 'f timer_phase \<Rightarrow> 'f timer option" where
  "thread_step s Copying = Some (s\<lparr>timer_thread := In_Sleep (event_handlers s)\<rparr>)"
| "thread_step s (In_Sleep hs) = Some (s\<lparr>timer_thread := Testing_Active hs\<rparr>)"
| "thread_step s (Testing_Active hs) =
     Some (s\<lparr>timer_thread := if active s then Invoking hs hs else Thread_Over\<rparr>)"
| "thread_step s (Invoking hs (f # fs)) = Some (s\<lparr>timer_thread := Invoking hs fs, fired := fired s @ [f]\<rparr>)"
| "thread_step s (Invoking hs []) = Some (s\<lparr>timer_thread := Testing_Restart hs\<rparr>)"
| "thread_step s (Testing_Restart hs) =
     Some (s\<lparr>timer_thread := if restart s then In_Sleep hs else Thread_Over\<rparr>)"
| "thread_step s p = None"

datatype 'f timer_action =
    Auto_Restart bool | Add_Listener 'f | Start_Timer | Stop_Timer | Wait_Ends | Thread

fun timer_exec :: "'f timer_action \<Rightarrow> 'f timer \<Rightarrow> 'f timer option" where
  "timer_exec (Auto_Restart val) s = Some (auto_restart val s)"
| "timer_exec (Add_Listener f) s = Some (add_listener f s)"
| "timer_exec Start_Timer s = timer_start s"
| "timer_exec Stop_Timer s = Some (timer_stop s)"
| "timer_exec Wait_Ends s = wait_for_stop_ends s"
| "timer_exec Thread s = thread_step s (timer_thread s)"

definition timer_step :: "'f timer \<Rightarrow> 'f timer_action \<Rightarrow> 'f timer \<Rightarrow> bool" where
  "timer_step s l s' \<longleftrightarrow> timer_exec l s = Some s'"

primrec timer_schedule :: "'f timer \<Rightarrow> 'f timer_action list \<Rightarrow> 'f timer option" where
  "timer_schedule s [] = Some s"
| "timer_schedule s (l # ls) = (case timer_exec l s of None \<Rightarrow> None | Some s' \<Rightarrow> timer_schedule s' ls)"

lemma timer_schedule_run: "timer_schedule s ls = Some s' \<Longrightarrow> run timer_step s ls s'"
  by (induction ls arbitrary: s) (auto simp: timer_step_def split: option.splits)

lemmas timer_defs [op_defs] = auto_restart_def add_listener_def timer_start_def timer_stop_def
  wait_for_stop_ends_def timer_step_def

section \<open>Rounds\<close>

text \<open>What has run since the start: whole rounds of the listeners copied then, and a part of one.\<close>

definition rounds_of :: "'f list \<Rightarrow> 'f list \<Rightarrow> bool" where
  "rounds_of hs fs \<longleftrightarrow> (\<exists>k. fs = concat (replicate k hs))"

lemma rounds_of_Nil [simp]: "rounds_of hs []"
  unfolding rounds_of_def by (rule exI [of _ 0]) simp

lemma rounds_of_snoc: "rounds_of hs fs \<Longrightarrow> rounds_of hs (fs @ hs)"
  unfolding rounds_of_def by (metis concat_append concat_replicate_trivial replicate_Suc replicate_append_same concat.simps append_Nil2)

text \<open>
  Two functions of what was done with a timer, from its making: the listeners registered, in order,
  and those registered at the moment the timer thread last copied them.
\<close>

fun listeners :: "'f timer_action list \<Rightarrow> 'f list" where
  "listeners [] = []"
| "listeners (Add_Listener f # ls) = f # listeners ls"
| "listeners (l # ls) = listeners ls"

fun copied :: "'f timer \<Rightarrow> 'f timer_action list \<Rightarrow> 'f list \<Rightarrow> 'f list" where
  "copied s [] hs = hs"
| "copied s (l # ls) hs =
     (case timer_exec l s of
        None \<Rightarrow> hs
      | Some s' \<Rightarrow> copied s' ls (if l = Thread \<and> timer_thread s = Copying then event_handlers s else hs))"

lemma listeners_append: "listeners (ls @ ms) = listeners ls @ listeners ms"
  by (induction ls rule: listeners.induct) simp_all

lemma copied_snoc:
  "run timer_step s ls t \<Longrightarrow> timer_step t l u \<Longrightarrow>
   copied s (ls @ [l]) hs = (if l = Thread \<and> timer_thread t = Copying then event_handlers t else copied s ls hs)"
  by (induction s ls t arbitrary: hs rule: run.induct) (auto simp: timer_step_def)

lemma event_handlers_step:
  "timer_step s l s' \<Longrightarrow> event_handlers s' = event_handlers s @ listeners [l]"
  by (cases l; cases "(s, timer_thread s)" rule: thread_step.cases) (auto simp: op_defs split: if_splits)

lemma event_handlers_run: "run timer_step s ls s' \<Longrightarrow> event_handlers s' = event_handlers s @ listeners ls"
proof (induction rule: run.induct)
  case (run_cons s l t ls u)
  with event_handlers_step [of s l t] listeners_append [of "[l]" ls] show ?case by simp
qed simp

text \<open>\<open>hs\<close> are the listeners copied last, \<open>fs\<close> what has run since the start.\<close>

fun round_ok :: "'f list \<Rightarrow> 'f list \<Rightarrow> 'f timer_phase \<Rightarrow> bool" where
  "round_ok hs fs Copying = (fs = [])"
| "round_ok hs fs (In_Sleep hs') = (hs' = hs \<and> rounds_of hs fs)"
| "round_ok hs fs (Testing_Active hs') = (hs' = hs \<and> rounds_of hs fs)"
| "round_ok hs fs (Invoking hs' rest) =
     (hs' = hs \<and> (\<exists>before. hs = before @ rest \<and> (\<exists>whole. rounds_of hs whole \<and> fs = whole @ before)))"
| "round_ok hs fs (Testing_Restart hs') = (hs' = hs \<and> rounds_of hs fs)"
| "round_ok hs fs Thread_Over = rounds_of hs fs"
| "round_ok hs fs No_Thread = rounds_of hs fs"

lemma round_ok_thread:
  "thread_step s p = Some s' \<Longrightarrow> round_ok hs (fired s) p \<Longrightarrow>
   round_ok (if p = Copying then event_handlers s else hs) (fired s') (timer_thread s')"
proof (induction s p rule: thread_step.induct)
  case (4 s hs' f fs)
  from 4(2) obtain before whole where "hs' = hs" "hs = (before @ [f]) @ fs" "rounds_of hs whole" "fired s = whole @ before"
    by auto
  moreover from this(4) have "fired s @ [f] = whole @ (before @ [f])" by simp
  ultimately have "round_ok hs (fired s @ [f]) (Invoking hs' fs)" unfolding round_ok.simps by blast
  moreover from 4(1) have "s' = s\<lparr>timer_thread := Invoking hs' fs, fired := fired s @ [f]\<rparr>" by simp
  ultimately show ?case by (simp del: round_ok.simps)
qed (auto intro: rounds_of_snoc split: if_splits)

lemma round_ok_step:
  "timer_step s l s' \<Longrightarrow> round_ok hs (fired s) (timer_thread s) \<Longrightarrow>
   round_ok (if l = Thread \<and> timer_thread s = Copying then event_handlers s else hs) (fired s') (timer_thread s')"
  using round_ok_thread [of s "timer_thread s" s' hs]
  by (cases l) (auto simp: op_defs split: if_splits)

lemma round_ok_run:
  assumes "run timer_step (make_timer ms) ls s"
  shows "round_ok (copied (make_timer ms) ls []) (fired s) (timer_thread s)"
  using assms
proof (induction ls arbitrary: s rule: rev_induct)
  case Nil
  then show ?case by (auto simp: make_timer_def)
next
  case (snoc l ls)
  then obtain t where t: "run timer_step (make_timer ms) ls t" "timer_step t l s"
    by (auto simp: run_append_iff)
  from round_ok_step [OF t(2) snoc.IH [OF t(1)]] copied_snoc [OF t] show ?case by simp
qed

text \<open>
  C36: whatever is done with a timer, it keeps exactly the listeners registered, in order, and its
  thread runs whole rounds of exactly those that were registered when it started to sleep after the
  last start, each round in the order of registration: before a test of \<^verbatim>\<open>active_\<close> or
  \<^verbatim>\<open>restart_\<close>, and when the thread is over, a number of rounds, in between a number of rounds
  and the first listeners of one more. Listeners added later are kept but not run.
\<close>

theorem timer_fires_whole_rounds:
  assumes "run timer_step (make_timer ms) ls s"
  shows "event_handlers s = listeners ls \<and>
    (let hs = copied (make_timer ms) ls [] in
     case timer_thread s of
       Copying \<Rightarrow> fired s = []
     | In_Sleep hs' \<Rightarrow> hs' = hs \<and> rounds_of hs (fired s)
     | Testing_Active hs' \<Rightarrow> hs' = hs \<and> rounds_of hs (fired s)
     | Invoking hs' rest \<Rightarrow> hs' = hs \<and> (\<exists>whole before. hs = before @ rest \<and> rounds_of hs whole \<and> fired s = whole @ before)
     | Testing_Restart hs' \<Rightarrow> hs' = hs \<and> rounds_of hs (fired s)
     | _ \<Rightarrow> rounds_of hs (fired s))"
  using round_ok_run [OF assms] event_handlers_run [OF assms]
  by (cases "timer_thread s") (auto simp: make_timer_def)

theorem timer_fires_whole_rounds_witness:
  "\<exists>s :: nat timer. timer_thread s = In_Sleep [1, 1] \<and> fired s = [1, 1] \<and> event_handlers s = [1, 1, 3] \<and> rounds_of [1, 1] (fired s)"
proof -
  let ?schedule = "[Add_Listener 1, Add_Listener 1, Auto_Restart True, Start_Timer, Thread, Add_Listener 3, Thread, Thread,
    Thread, Thread, Thread, Thread]"
  obtain s where s: "timer_schedule (make_timer 10) ?schedule = Some (s :: nat timer)" "timer_thread s = In_Sleep [1, 1]"
      "fired s = [1, 1]"
    by (simp add: op_defs make_timer_def)
  from timer_fires_whole_rounds [OF timer_schedule_run [OF s(1)]] s(2,3) show ?thesis
    by (intro exI [of _ s]) (simp add: op_defs make_timer_def Let_def)
qed

section \<open>Starting and stopping\<close>

text \<open>A thread past its last test.\<close>

definition spent :: "'f timer \<Rightarrow> bool" where
  "spent s \<longleftrightarrow> active s \<and> (timer_thread s = Thread_Over \<or> timer_thread s = No_Thread)"

lemma spent_step: "timer_step s l s' \<Longrightarrow> l \<noteq> Stop_Timer \<Longrightarrow> spent s \<and> fired s = fs \<Longrightarrow> spent s' \<and> fired s' = fs"
  by (cases l) (auto simp: op_defs spent_def split: if_splits)

interpretation timer_spent: step_invariant timer_step "\<lambda>l. l \<noteq> Stop_Timer" "\<lambda>s. spent s \<and> fired s = fs" for fs
  by unfold_locales (rule spent_step)

text \<open>
  A timer without \<^verbatim>\<open>auto_restart\<close> that has fired leaves \<^verbatim>\<open>active_\<close> set: however
  often it is started again, nothing fires any more until somebody calls \<^verbatim>\<open>stop\<close>.
\<close>

theorem timer_one_shot_cannot_be_restarted:
  assumes "timer_thread s = Testing_Restart hs" and "active s" and "\<not> restart s"
    and "run timer_step s (Thread # ls) s'" and "list_all (\<lambda>l. l \<noteq> Stop_Timer) ls"
  shows "fired s' = fired s \<and> active s'"
proof -
  from assms(4) obtain s1 where s1: "timer_step s Thread s1" "run timer_step s1 ls s'" by auto
  have "spent s1 \<and> fired s1 = fired s"
    using s1(1) assms(1-3) by (auto simp: op_defs spent_def)
  with timer_spent.inv_run [OF s1(2)] assms(5) show ?thesis by (auto simp: list_all_iff spent_def)
qed

theorem timer_one_shot_cannot_be_restarted_witness:
  "\<exists>(s :: nat timer) (s' :: nat timer). fired s = [7] \<and> run timer_step s [Thread, Start_Timer, Start_Timer] s' \<and> fired s' = [7]"
proof -
  obtain s where s: "timer_schedule (make_timer 10) [Add_Listener 7, Start_Timer, Thread, Thread, Thread, Thread, Thread] = Some (s :: nat timer)"
      "timer_thread s = Testing_Restart [7]" "active s" "\<not> restart s" "fired s = [7]"
    by (simp add: op_defs make_timer_def)
  then obtain s' where s': "timer_schedule s [Thread, Start_Timer, Start_Timer] = Some s'"
    by (simp add: op_defs)
  from timer_one_shot_cannot_be_restarted [OF s(2-4) timer_schedule_run [OF s']] s(5) have "fired s' = [7]" by simp
  with s(5) timer_schedule_run [OF s'] show ?thesis by blast
qed

text \<open>What is left of the round under way.\<close>

definition to_run :: "'f timer \<Rightarrow> 'f list" where
  "to_run s = (case timer_thread s of Invoking hs rest \<Rightarrow> rest | _ \<Rightarrow> [])"

lemma stopped_timer_step:
  "timer_step s l s' \<Longrightarrow> l \<noteq> Start_Timer \<Longrightarrow> \<not> active s \<and> fired s @ to_run s = fs \<Longrightarrow>
   \<not> active s' \<and> fired s' @ to_run s' = fs"
  by (cases l; cases "(s, timer_thread s)" rule: thread_step.cases) (auto simp: op_defs to_run_def split: if_splits)

interpretation timer_stopped: step_invariant timer_step "\<lambda>l. l \<noteq> Start_Timer"
  "\<lambda>s. \<not> active s \<and> fired s @ to_run s = fs" for fs
  by unfold_locales (rule stopped_timer_step)

text \<open>
  After \<^verbatim>\<open>stop\<close> at most the rest of the round under way is run: no new round begins before
  the timer is started again.
\<close>

theorem timer_stop_ends_the_round:
  assumes "run timer_step (timer_stop s) ls s'" and "list_all (\<lambda>l. l \<noteq> Start_Timer) ls"
  shows "fired s' @ to_run s' = fired s @ to_run s"
proof -
  have "\<not> active (timer_stop s) \<and> fired (timer_stop s) @ to_run (timer_stop s) = fired s @ to_run s"
    by (simp add: timer_stop_def to_run_def)
  with timer_stopped.inv_run [OF assms(1), of "fired s @ to_run s"] assms(2) show ?thesis
    by (auto simp: list_all_iff)
qed

theorem timer_stop_ends_the_round_witness:
  "\<exists>(s :: nat timer) (s' :: nat timer). fired s = [1] \<and> to_run s = [2] \<and> timer_thread s' = Thread_Over \<and> fired s' @ to_run s' = [1, 2]"
proof -
  obtain s where s: "timer_schedule (make_timer 10) [Add_Listener 1, Add_Listener 2, Auto_Restart True, Start_Timer,
      Thread, Thread, Thread, Thread] = Some (s :: nat timer)" "fired s = [1]" "to_run s = [2]"
    by (simp add: op_defs make_timer_def to_run_def)
  obtain s' where s': "timer_schedule (timer_stop s) (replicate 5 Thread) = Some s'" "timer_thread s' = Thread_Over"
    using s(1) by (auto simp: op_defs make_timer_def numeral_eq_Suc)
  have "list_all (\<lambda>l. l \<noteq> Start_Timer) (replicate 5 (Thread :: nat timer_action))" by (simp add: list_all_iff)
  from timer_stop_ends_the_round [OF timer_schedule_run [OF s'(1)] this] s(2,3) have "fired s' @ to_run s' = [1, 2]" by simp
  with s(2,3) s'(2) show ?thesis by blast
qed

section \<open>Waiting for the end\<close>

text \<open>The steps the timer thread still takes once \<open>active\<close> is unset.\<close>

fun steps_left :: "'f timer_phase \<Rightarrow> nat" where
  "steps_left Copying = 3"
| "steps_left (In_Sleep hs) = 2"
| "steps_left (Testing_Active hs) = 1"
| "steps_left (Invoking hs fs) = length fs + 4"
| "steps_left (Testing_Restart hs) = 3"
| "steps_left p = 0"

lemma steps_left_step:
  "timer_step s l s' \<Longrightarrow> l \<noteq> Start_Timer \<Longrightarrow> \<not> active s \<Longrightarrow>
   \<not> active s' \<and> steps_left (timer_thread s') + (if l = Thread then 1 else 0) \<le> steps_left (timer_thread s)"
  by (cases l; cases "(s, timer_thread s)" rule: thread_step.cases) (auto simp: op_defs split: if_splits)

interpretation timer_ending: ending_thread timer_step "\<lambda>l. l \<noteq> Start_Timer" "\<lambda>l. l = Thread"
  "\<lambda>s. \<not> active s" "\<lambda>s. steps_left (timer_thread s)"
  by unfold_locales (rule steps_left_step)

lemma joinable_or_moves: "wait_for_stop_ends s \<noteq> None \<or> (\<exists>s'. timer_step s Thread s')"
  by (cases "(s, timer_thread s)" rule: thread_step.cases) (auto simp: op_defs)

text \<open>
  C34: \<^verbatim>\<open>wait_for_stop()\<close>, and with it the destructor, returns: from the moment it has called
  \<^verbatim>\<open>stop()\<close>, unless somebody starts the timer again, the timer thread takes at most four steps
  more than there are listeners left in the round under way, whatever else is done with the timer;
  and until the \<^verbatim>\<open>join\<close> can return, the thread has a step to take.
\<close>

theorem timer_wait_for_stop_returns:
  assumes "run timer_step (timer_destructor_begins s) ls s'" and "list_all (\<lambda>l. l \<noteq> Start_Timer) ls"
  shows "length (filter (\<lambda>l. l = Thread) ls) \<le> length (to_run s) + 4 \<and>
    (wait_for_stop_ends s' \<noteq> None \<and> timer_destructor_ends s' \<noteq> None \<or> (\<exists>s''. timer_step s' Thread s''))"
proof -
  have "\<not> active (timer_destructor_begins s)" by (simp add: timer_destructor_begins_def timer_stop_def)
  with timer_ending.left_run [OF assms] have "length (filter (\<lambda>l. l = Thread) ls) \<le> steps_left (timer_thread (timer_destructor_begins s))"
    by simp
  also have "\<dots> \<le> length (to_run s) + 4"
    by (cases "timer_thread s") (simp_all add: timer_destructor_begins_def timer_stop_def to_run_def)
  finally show ?thesis using joinable_or_moves [of s'] by (auto simp: timer_destructor_ends_def)
qed

theorem timer_wait_for_stop_returns_witness:
  "\<exists>(s :: nat timer) ls s'. length (to_run s) = 1 \<and> run timer_step (timer_destructor_begins s) ls s' \<and>
     length (filter (\<lambda>l. l = Thread) ls) = 5 \<and> 5 \<le> length (to_run s) + 4 \<and> wait_for_stop_ends s' \<noteq> None"
proof -
  obtain s where s: "timer_schedule (make_timer 10) [Add_Listener 1, Add_Listener 2, Auto_Restart True, Start_Timer,
      Thread, Thread, Thread, Thread] = Some (s :: nat timer)" "length (to_run s) = 1"
    by (simp add: op_defs make_timer_def to_run_def)
  obtain s' where s': "timer_schedule (timer_destructor_begins s) (replicate 5 Thread) = Some s'" "wait_for_stop_ends s' \<noteq> None"
    using s(1) by (auto simp: op_defs timer_destructor_begins_def make_timer_def numeral_eq_Suc)
  have ls: "list_all (\<lambda>l. l \<noteq> Start_Timer) (replicate 5 (Thread :: nat timer_action))"
      "length (filter (\<lambda>l. l = Thread) (replicate 5 (Thread :: nat timer_action))) = 5"
    by (simp_all add: list_all_iff)
  from timer_wait_for_stop_returns [OF timer_schedule_run [OF s'(1)] ls(1)] ls(2)
  have "5 \<le> length (to_run s) + 4" by simp
  with s(2) s'(2) timer_schedule_run [OF s'(1)] ls(2) show ?thesis by blast
qed

end
