(* ===== verification/Posix_Queue.thy ===== *)
theory Posix_Queue
  imports Errors
begin

text \<open>
  \<^verbatim>\<open>include/Message/PosixMessageQueue.hpp\<close>: a message queue on top of the system's
  \<^verbatim>\<open>mq_*\<close> calls. The calls are not part of the program: they are the fields of \<open>mq_api\<close>,
  functions on the system's state \<open>'o\<close> given to every method. A message of the trivially copyable
  type \<^verbatim>\<open>T\<close> is its bytes, \<open>msg_size\<close> of them.
\<close>

section \<open>The system calls\<close>

type_synonym bytes = "8 word list"

record mq_attr =
  mq_flags :: int
  mq_maxmsg :: int
  mq_msgsize :: int
  mq_curmsgs :: int

record timespec =
  tv_sec :: int
  tv_nsec :: int

text \<open>
  A call returns its C result, what it stores through its pointer argument, and the new state;
  \<^verbatim>\<open>errno\<close> is read from the state.
\<close>

record 'o mq_api =
  mq_open :: "string \<Rightarrow> mq_attr option \<Rightarrow> 'o \<Rightarrow> int \<times> 'o"
  mq_close :: "int \<Rightarrow> 'o \<Rightarrow> int \<times> 'o"
  mq_unlink :: "string \<Rightarrow> 'o \<Rightarrow> int \<times> 'o"
  mq_send :: "int \<Rightarrow> bytes \<Rightarrow> 'o \<Rightarrow> int \<times> 'o"
  mq_receive :: "int \<Rightarrow> nat \<Rightarrow> 'o \<Rightarrow> int \<times> bytes \<times> 'o"
  mq_timedreceive :: "int \<Rightarrow> nat \<Rightarrow> timespec \<Rightarrow> 'o \<Rightarrow> int \<times> bytes \<times> 'o"
  mq_getattr :: "int \<Rightarrow> 'o \<Rightarrow> int \<times> mq_attr \<times> 'o"
  mq_setattr :: "int \<Rightarrow> mq_attr \<Rightarrow> 'o \<Rightarrow> int \<times> mq_attr \<times> 'o"
  errno :: "'o \<Rightarrow> int"
  clock_realtime :: "'o \<Rightarrow> timespec"

text \<open>Linux values of the constants used.\<close>

definition ETIMEDOUT :: int where "ETIMEDOUT = 110"

definition O_NONBLOCK :: int where "O_NONBLOCK = 2048"

section \<open>The queue object\<close>

record posix_queue =
  mqd :: int
  queue_name :: string
  is_owner :: bool

definition validate_name :: "string \<Rightarrow> ('v, unit) result" where
  "validate_name name =
     (if name = [] \<or> hd name \<noteq> CHR ''/''
      then throw (''PosixMessageQueue: queue name must start with '' @ [CHR 0x27, CHR ''/'', CHR 0x27]) InvalidArgument
      else Inr ())"

text \<open>
  Division and remainder are C's, rounding towards zero. \<open>None\<close> is the undefined behaviour of
  the overflowing multiplication.
\<close>

definition to_abs_timespec :: "timespec \<Rightarrow> millis \<Rightarrow> timespec option" where
  "to_abs_timespec now ms =
     (let extra_ns = ms * 1000000 in
      if extra_ns < - (2 ^ 63) \<or> 2 ^ 63 \<le> extra_ns then None
      else
        let nsec = tv_nsec now + extra_ns smod 1000000000;
            sec = tv_sec now + (ms sdiv 1000 + nsec sdiv 1000000000)
        in Some \<lparr>tv_sec = sec, tv_nsec = nsec smod 1000000000\<rparr>)"

text \<open>The casts from \<^verbatim>\<open>size_t\<close> to \<^verbatim>\<open>long\<close> reinterpret the 64 bits.\<close>

definition pq_create_owner ::
  "'o mq_api \<Rightarrow> nat \<Rightarrow> string \<Rightarrow> 64 word \<Rightarrow> 'o \<Rightarrow> ('v, posix_queue) result \<times> 'o"
where
  "pq_create_owner api msg_size name max_msg w =
     (case validate_name name of
        Inl e \<Rightarrow> (Inl e, w)
      | Inr _ \<Rightarrow>
          (case mq_open api name
              (Some \<lparr>mq_flags = 0, mq_maxmsg = sint max_msg, mq_msgsize = sint (of_nat msg_size :: 64 word), mq_curmsgs = 0\<rparr>) w of
             (d, w') \<Rightarrow>
               if d = -1
               then (throw_system ''PosixMessageQueue: mq_open(O_CREAT) failed'' (errno api w'), w')
               else (Inr \<lparr>mqd = d, queue_name = name, is_owner = True\<rparr>, w')))"

definition pq_create_attach ::
  "'o mq_api \<Rightarrow> string \<Rightarrow> 'o \<Rightarrow> ('v, posix_queue) result \<times> 'o"
where
  "pq_create_attach api name w =
     (case validate_name name of
        Inl e \<Rightarrow> (Inl e, w)
      | Inr _ \<Rightarrow>
          (case mq_open api name None w of
             (d, w') \<Rightarrow>
               if d = -1
               then (throw_system ''PosixMessageQueue: mq_open(attach) failed'' (errno api w'), w')
               else (Inr \<lparr>mqd = d, queue_name = name, is_owner = False\<rparr>, w')))"

definition pq_destroy :: "'o mq_api \<Rightarrow> posix_queue \<Rightarrow> 'o \<Rightarrow> 'o" where
  "pq_destroy api q w =
     (let w' = (if mqd q \<noteq> -1 then snd (mq_close api (mqd q) w) else w)
      in if is_owner q then snd (mq_unlink api (queue_name q) w') else w')"

definition pq_do_send :: "'o mq_api \<Rightarrow> posix_queue \<Rightarrow> bytes \<Rightarrow> 'o \<Rightarrow> ('v, unit) result \<times> 'o" where
  "pq_do_send api q message w =
     (case mq_send api (mqd q) message w of
        (ret, w') \<Rightarrow>
          if ret < 0 then (throw_system ''PosixMessageQueue::send failed'' (errno api w'), w') else (Inr (), w'))"

text \<open>The two overloads: copying and moving a trivially copyable message are the same.\<close>

definition pq_send :: "'o mq_api \<Rightarrow> posix_queue \<Rightarrow> bytes \<Rightarrow> 'o \<Rightarrow> ('v, unit) result \<times> 'o" where
  "pq_send api q message w = pq_do_send api q message w"

text \<open>
  The buffer is an array of \<open>msg_size\<close> bytes of which a shorter message fills a part; the rest is
  indeterminate, \<open>rest\<close>.
\<close>

definition copy_out :: "nat \<Rightarrow> bytes \<Rightarrow> bytes \<Rightarrow> bytes" where
  "copy_out msg_size rest buf = take msg_size (buf @ rest)"

definition pq_receive ::
  "'o mq_api \<Rightarrow> nat \<Rightarrow> bytes \<Rightarrow> posix_queue \<Rightarrow> 'o \<Rightarrow> ('v, bytes) result \<times> 'o"
where
  "pq_receive api msg_size rest q w =
     (case mq_receive api (mqd q) msg_size w of
        (ret, buf, w') \<Rightarrow>
          if ret < 0 then (throw_system ''PosixMessageQueue::receive failed'' (errno api w'), w')
          else (Inr (copy_out msg_size rest buf), w'))"

text \<open>\<open>None\<close> is undefined behaviour; \<^verbatim>\<open>T\{\}\<close> is the zero bytes.\<close>

definition pq_timed_receive ::
  "'o mq_api \<Rightarrow> nat \<Rightarrow> bytes \<Rightarrow> posix_queue \<Rightarrow> millis \<Rightarrow> 'o \<Rightarrow> (('v, bool \<times> bytes) result \<times> 'o) option"
where
  "pq_timed_receive api msg_size rest q milli_sec w =
     (case to_abs_timespec (clock_realtime api w) milli_sec of
        None \<Rightarrow> None
      | Some ts \<Rightarrow> Some
          (case mq_timedreceive api (mqd q) msg_size ts w of
             (ret, buf, w') \<Rightarrow>
               if ret < 0
               then if errno api w' = ETIMEDOUT then (Inr (False, replicate msg_size 0), w')
                    else (throw_system ''PosixMessageQueue::timed_receive failed'' (errno api w'), w')
               else (Inr (True, copy_out msg_size rest buf), w')))"

text \<open>The cast from \<^verbatim>\<open>long\<close> to \<^verbatim>\<open>size_t\<close> wraps around.\<close>

definition pq_num_message :: "'o mq_api \<Rightarrow> posix_queue \<Rightarrow> 'o \<Rightarrow> ('v, nat) result \<times> 'o" where
  "pq_num_message api q w =
     (case mq_getattr api (mqd q) w of
        (ret, attr, w') \<Rightarrow>
          if ret < 0 then (throw_system ''PosixMessageQueue::num_message failed'' (errno api w'), w')
          else (Inr (unat (word_of_int (mq_curmsgs attr) :: 64 word)), w'))"

definition pq_is_empty :: "'o mq_api \<Rightarrow> posix_queue \<Rightarrow> 'o \<Rightarrow> ('v, bool) result \<times> 'o" where
  "pq_is_empty api q w =
     (case pq_num_message api q w of (Inl e, w') \<Rightarrow> (Inl e, w') | (Inr n, w') \<Rightarrow> (Inr (n = 0), w'))"

text \<open>
  The loop of \<^verbatim>\<open>clear\<close> goes on as long as \<^verbatim>\<open>mq_receive\<close> succeeds; \<open>None\<close> is a loop
  that does not end.
\<close>

partial_function (option) drain :: "'o mq_api \<Rightarrow> int \<Rightarrow> nat \<Rightarrow> 'o \<Rightarrow> 'o option" where
  "drain api d msg_size w =
     (case mq_receive api d msg_size w of
        (ret, buf, w') \<Rightarrow> if 0 \<le> ret then drain api d msg_size w' else Some w')"

definition pq_clear :: "'o mq_api \<Rightarrow> nat \<Rightarrow> posix_queue \<Rightarrow> 'o \<Rightarrow> (('v, unit) result \<times> 'o) option" where
  "pq_clear api msg_size q w =
     (case mq_setattr api (mqd q) \<lparr>mq_flags = O_NONBLOCK, mq_maxmsg = 0, mq_msgsize = 0, mq_curmsgs = 0\<rparr> w of
        (ret, old_attr, w1) \<Rightarrow>
          if ret < 0
          then Some (throw_system ''PosixMessageQueue::clear failed to set nonblock'' (errno api w1), w1)
          else (case drain api (mqd q) msg_size w1 of
                  None \<Rightarrow> None
                | Some w2 \<Rightarrow> Some (Inr (), snd (snd (mq_setattr api (mqd q) old_attr w2)))))"

section \<open>Deadlines\<close>

lemma smod_sdiv: "(k :: int) smod l = k - (k sdiv l) * l"
  using sdiv_mult_smod_eq [of k l] by simp

lemma sdiv_scale: "0 < c \<Longrightarrow> (k * c) sdiv (l * c) = k sdiv (l :: int)"
  unfolding signed_divide_int_def sgn_mult abs_mult by simp

lemma smod_scale: "0 < c \<Longrightarrow> (k * c) smod (l * c) = (k smod l) * (c :: int)"
  by (simp add: smod_sdiv sdiv_scale left_diff_distrib)

lemma smod_bounds:
  assumes "0 < (l :: int)"
  shows "- l < k smod l \<and> k smod l < l"
proof -
  have "0 \<le> \<bar>k\<bar> mod l" "\<bar>k\<bar> mod l < l" using assms by simp_all
  moreover have "k smod l = \<bar>k\<bar> mod l \<or> k smod l = - (\<bar>k\<bar> mod l)"
    using assms by (simp add: signed_modulo_int_def sgn_if)
  ultimately show ?thesis using assms by linarith
qed

lemma smod_small: "- l < (k :: int) \<Longrightarrow> k < 0 \<Longrightarrow> k smod l = k"
  by (simp add: signed_modulo_int_def)

lemma smod_sign: "0 < (l :: int) \<Longrightarrow> 0 \<le> k \<Longrightarrow> 0 \<le> k smod l"
  by (simp add: signed_modulo_int_def sgn_if)

text \<open>
  C37: the deadline of a timed receive, for every timeout. When the timeout in nanoseconds does
  not fit 64 bits the computation overflows, which is undefined, and only then. Otherwise the
  deadline is exactly the clock's time plus the timeout. It is a valid \<^verbatim>\<open>timespec\<close>
  (nanoseconds from 0 to 999999999) exactly when the timeout's sub-second part does not reach back
  past the clock's second, so for every timeout that is not negative; else the nanoseconds come out
  negative, although the time is right, and \<^verbatim>\<open>mq_timedreceive\<close> is given an invalid argument.
\<close>

theorem timespec_deadline_exact:
  assumes "0 \<le> tv_nsec now" and "tv_nsec now < 1000000000"
  shows "case to_abs_timespec now ms of
      None \<Rightarrow> ms * 1000000 < - (2 ^ 63) \<or> 2 ^ 63 \<le> ms * 1000000
    | Some ts \<Rightarrow> - (2 ^ 63) \<le> ms * 1000000 \<and> ms * 1000000 < 2 ^ 63 \<and>
        tv_sec ts * 1000000000 + tv_nsec ts = tv_sec now * 1000000000 + tv_nsec now + ms * 1000000 \<and>
        (if 0 \<le> ms \<or> 0 \<le> tv_nsec now + (ms smod 1000) * 1000000
         then 0 \<le> tv_nsec ts \<and> tv_nsec ts < 1000000000 else tv_nsec ts < 0)"
proof (cases "to_abs_timespec now ms")
  case None
  then show ?thesis by (auto simp: to_abs_timespec_def Let_def split: if_splits)
next
  case (Some ts)
  let ?n = "tv_nsec now + (ms * 1000000) smod 1000000000"
  have rem: "(ms * 1000000) smod 1000000000 = (ms smod 1000) * 1000000"
    using smod_scale [of 1000000 ms 1000] by simp
  have ts: "tv_sec ts = tv_sec now + (ms sdiv 1000 + ?n sdiv 1000000000)" "tv_nsec ts = ?n smod 1000000000"
    and fits: "- (2 ^ 63) \<le> ms * 1000000 \<and> ms * 1000000 < 2 ^ 63"
    using Some by (auto simp: to_abs_timespec_def Let_def split: if_splits)
  have "tv_sec ts * 1000000000 + tv_nsec ts = tv_sec now * 1000000000 + (ms sdiv 1000) * 1000000000 + ?n"
    unfolding ts by (simp add: smod_sdiv algebra_simps)
  also have "\<dots> = tv_sec now * 1000000000 + tv_nsec now + ms * 1000000"
    unfolding rem by (simp add: smod_sdiv algebra_simps)
  finally have total: "tv_sec ts * 1000000000 + tv_nsec ts = tv_sec now * 1000000000 + tv_nsec now + ms * 1000000" .
  have low: "- 1000000000 < ?n"
    using smod_bounds [of 1000000000 "ms * 1000000"] assms(1) by linarith
  have "0 \<le> tv_nsec ts \<longleftrightarrow> 0 \<le> ?n"
    unfolding ts(2) using smod_sign [of 1000000000 ?n] smod_small [of 1000000000 ?n] low by (cases "0 \<le> ?n") simp_all
  moreover have "tv_nsec ts < 1000000000"
    unfolding ts(2) using smod_bounds [of 1000000000 ?n] by simp
  moreover have "0 \<le> ?n" if "0 \<le> ms" using smod_sign [of 1000 ms] that assms(1) unfolding rem by simp
  ultimately show ?thesis using total rem fits Some by auto
qed

text \<open>A deadline that is right and valid, one that is right and invalid, and an overflow.\<close>

theorem timespec_deadline_exact_witness:
  "to_abs_timespec \<lparr>tv_sec = 100, tv_nsec = 700000000\<rparr> 2500 = Some \<lparr>tv_sec = 103, tv_nsec = 200000000\<rparr> \<and>
   100 * 1000000000 + 700000000 + 2500 * 1000000 = 103 * 1000000000 + (200000000 :: int) \<and>
   to_abs_timespec \<lparr>tv_sec = 100, tv_nsec = 200000000\<rparr> (-500) = Some \<lparr>tv_sec = 100, tv_nsec = - 300000000\<rparr> \<and>
   to_abs_timespec \<lparr>tv_sec = 100, tv_nsec = 200000000\<rparr> (2 ^ 62) = None"
proof -
  have ts: "to_abs_timespec \<lparr>tv_sec = 100, tv_nsec = 700000000\<rparr> 2500 = Some \<lparr>tv_sec = 103, tv_nsec = 200000000\<rparr>"
    "to_abs_timespec \<lparr>tv_sec = 100, tv_nsec = 200000000\<rparr> (-500) = Some \<lparr>tv_sec = 100, tv_nsec = - 300000000\<rparr>"
    "to_abs_timespec \<lparr>tv_sec = 100, tv_nsec = 200000000\<rparr> (2 ^ 62) = None"
    by (simp_all add: to_abs_timespec_def smod_sdiv signed_divide_int_def)
  from timespec_deadline_exact [of "\<lparr>tv_sec = 100, tv_nsec = 700000000\<rparr>" 2500] ts(1)
  have "100 * 1000000000 + 700000000 + 2500 * 1000000 = 103 * 1000000000 + (200000000 :: int)" by simp
  with ts show ?thesis by blast
qed

section \<open>Draining\<close>

text \<open>
  What \<^verbatim>\<open>mq_receive\<close> is documented to do on a descriptor that does not block: take the oldest
  message, or fail when there is none. \<open>waiting\<close> are the messages in the queue; those longer
  than the buffer cannot occur, as the queue's message size is at most the buffer's.
\<close>

definition receives_oldest :: "'o mq_api \<Rightarrow> int \<Rightarrow> nat \<Rightarrow> ('o \<Rightarrow> bool) \<Rightarrow> ('o \<Rightarrow> bytes list) \<Rightarrow> bool" where
  "receives_oldest api d msg_size nonblocking waiting \<longleftrightarrow>
     (\<forall>w. nonblocking w \<longrightarrow>
        (case mq_receive api d msg_size w of
           (ret, buf, w') \<Rightarrow> nonblocking w' \<and>
             (case waiting w of
                [] \<Rightarrow> ret < 0 \<and> waiting w' = []
              | m # ms \<Rightarrow> ret = int (length m) \<and> waiting w' = ms)))"

lemma drain_empties:
  assumes "receives_oldest api d msg_size nonblocking waiting" and "nonblocking w"
  shows "\<exists>w'. drain api d msg_size w = Some w' \<and> waiting w' = [] \<and> nonblocking w'"
  using assms(2)
proof (induction "waiting w" arbitrary: w)
  case Nil
  then show ?case
    using assms(1) [unfolded receives_oldest_def, rule_format, of w]
    by (subst drain.simps) (auto split: prod.splits)
next
  case (Cons m ms)
  have waits: "waiting w = m # ms" using Cons.hyps(2) by simp
  obtain ret buf w1 where r: "mq_receive api d msg_size w = (ret, buf, w1)" using prod_cases3 by blast
  have "0 \<le> ret" "waiting w1 = ms" "nonblocking w1"
    using assms(1) [unfolded receives_oldest_def, rule_format, OF Cons.prems] waits r by simp_all
  with Cons.hyps(1) [of w1] r show ?case by (subst drain.simps) simp
qed

text \<open>
  \<^verbatim>\<open>clear\<close> returns, with the queue empty, and its last system call gives the queue its
  old attributes back; when the attributes cannot be set it throws and touches no message.
\<close>

theorem posix_clear_empties_and_restores:
  assumes "receives_oldest api (mqd q) msg_size nonblocking waiting"
    and "mq_setattr api (mqd q) \<lparr>mq_flags = O_NONBLOCK, mq_maxmsg = 0, mq_msgsize = 0, mq_curmsgs = 0\<rparr> w = (ret, old, w1)"
    and "0 \<le> ret \<Longrightarrow> nonblocking w1"
  shows "if ret < 0 then pq_clear api msg_size q w = Some (throw_system ''PosixMessageQueue::clear failed to set nonblock'' (errno api w1), w1)
    else \<exists>w2. waiting w2 = [] \<and> pq_clear api msg_size q w = Some (Inr (), snd (snd (mq_setattr api (mqd q) old w2)))"
proof (cases "ret < 0")
  case True
  then show ?thesis using assms(2) by (simp add: pq_clear_def)
next
  case False
  with assms(3) have "nonblocking w1" by simp
  from drain_empties [OF assms(1) this] False assms(2) show ?thesis by (auto simp: pq_clear_def)
qed

text \<open>
  A queue in memory, for a concrete run: the flags and the messages. \<^verbatim>\<open>mq_setattr\<close> refuses
  flags other than \<^verbatim>\<open>O_NONBLOCK\<close>.
\<close>

definition memory_api :: "(int \<times> bytes list) mq_api" where
  "memory_api =
     \<lparr>mq_open = (\<lambda>name attr w. (3, w)), mq_close = (\<lambda>d w. (0, w)), mq_unlink = (\<lambda>name w. (0, w)),
      mq_send = (\<lambda>d m (fl, ms). (0, fl, ms @ [m])),
      mq_receive = (\<lambda>d n (fl, ms). case ms of [] \<Rightarrow> (-1, [], fl, []) | m # ms' \<Rightarrow> (int (length m), m, fl, ms')),
      mq_timedreceive = (\<lambda>d n ts (fl, ms). case ms of [] \<Rightarrow> (-1, [], fl, []) | m # ms' \<Rightarrow> (int (length m), m, fl, ms')),
      mq_getattr = (\<lambda>d (fl, ms). (0, \<lparr>mq_flags = fl, mq_maxmsg = 10, mq_msgsize = 4, mq_curmsgs = int (length ms)\<rparr>, fl, ms)),
      mq_setattr = (\<lambda>d attr (fl, ms).
        if mq_flags attr \<in> {0, O_NONBLOCK}
        then (0, \<lparr>mq_flags = fl, mq_maxmsg = 10, mq_msgsize = 4, mq_curmsgs = int (length ms)\<rparr>, mq_flags attr, ms)
        else (-1, attr, fl, ms)),
      errno = (\<lambda>(fl, ms). if fl = O_NONBLOCK then 11 else ETIMEDOUT), clock_realtime = (\<lambda>w. \<lparr>tv_sec = 0, tv_nsec = 0\<rparr>)\<rparr>"

theorem posix_clear_empties_and_restores_witness:
  "\<exists>w2. snd w2 = [] \<and> pq_clear memory_api 4 \<lparr>mqd = 3, queue_name = ''/q'', is_owner = True\<rparr> (0, [[1, 2], [3]])
     = Some (Inr () :: ('v, unit) result, 0, snd w2)"
proof -
  let ?q = "\<lparr>mqd = 3, queue_name = ''/q'', is_owner = True\<rparr>"
  have r: "receives_oldest memory_api (mqd ?q) 4 (\<lambda>w. fst w = O_NONBLOCK) snd"
    by (auto simp: receives_oldest_def memory_api_def split: list.splits)
  have s: "mq_setattr memory_api (mqd ?q) \<lparr>mq_flags = O_NONBLOCK, mq_maxmsg = 0, mq_msgsize = 0, mq_curmsgs = 0\<rparr> (0, [[1, 2], [3]])
    = (0, \<lparr>mq_flags = 0, mq_maxmsg = 10, mq_msgsize = 4, mq_curmsgs = 2\<rparr>, O_NONBLOCK, [[1, 2], [3]])"
    by (simp add: memory_api_def)
  from posix_clear_empties_and_restores [OF r s] show ?thesis
    by (auto simp: memory_api_def)
qed

end
