(* ===== verification/Posix_Fifo.thy ===== *)
theory Posix_Fifo
  imports Posix_Queue Message_Queue
begin

text \<open>
  \<^verbatim>\<open>PosixMessageQueue\<close> and \<^verbatim>\<open>SynchronizedDeque\<close> implement the same interface,
  \<^verbatim>\<open>IMessageQueue\<close>. Here the first is proved to answer as the second, on what the system's
  manual pages say of the \<^verbatim>\<open>mq_*\<close> calls. Two differences are the reason for the guard \<open>takes\<close>:
  a POSIX queue is bounded, so that \<^verbatim>\<open>send\<close> blocks when it is full, and a timeout must give a
  valid deadline.
\<close>

section \<open>The interface's calls on a POSIX queue\<close>

fun pq_call ::
  "'o mq_api \<Rightarrow> nat \<Rightarrow> bytes \<Rightarrow> posix_queue \<Rightarrow> bytes deque_op \<Rightarrow> 'o \<Rightarrow> (('v, bytes deque_result) result \<times> 'o) option"
where
  "pq_call api msg_size rest q (Send m) w = Some (apfst (map_sum id (\<lambda>_. Returned)) (pq_send api q m w))"
| "pq_call api msg_size rest q Receive w = Some (apfst (map_sum id Message) (pq_receive api msg_size rest q w))"
| "pq_call api msg_size rest q (Timed_Receive ms) w =
     map_option (apfst (map_sum id (\<lambda>(ok, m). Flagged ok m))) (pq_timed_receive api msg_size rest q ms w)"
| "pq_call api msg_size rest q Clear w = map_option (apfst (map_sum id (\<lambda>_. Returned))) (pq_clear api msg_size q w)"
| "pq_call api msg_size rest q Is_Empty w = Some (apfst (map_sum id Answer) (pq_is_empty api q w))"
| "pq_call api msg_size rest q Num_Message w = Some (apfst (map_sum id Count) (pq_num_message api q w))"

section \<open>The deque as the reference\<close>

text \<open>
  The calls taken from a queue of \<open>ms\<close>: those that need not block, on messages of the queue's
  type, with timeouts that are not negative and whose nanoseconds fit 64 bits.
\<close>

fun takes :: "nat \<Rightarrow> nat \<Rightarrow> 'a list deque_op \<Rightarrow> 'a list list \<Rightarrow> bool" where
  "takes msg_size capacity (Send m) ms = (length m = msg_size \<and> length ms < capacity)"
| "takes msg_size capacity Receive ms = (ms \<noteq> [])"
| "takes msg_size capacity (Timed_Receive t) ms = (0 \<le> t \<and> t * 1000000 < 2 ^ 63)"
| "takes msg_size capacity op ms = True"

definition deque_call ::
  "nat \<Rightarrow> nat \<Rightarrow> bytes deque_op \<Rightarrow> bytes list \<Rightarrow> (('v, bytes deque_result) result \<times> bytes list) option"
where
  "deque_call msg_size capacity op ms =
     (if takes msg_size capacity op ms
      then Some (Inr (deque_outcome (replicate msg_size 0) op ms), deque_effect op ms) else None)"

section \<open>What the system promises\<close>

text \<open>
  \<open>ready\<close> are the system states in which the descriptor \<open>d\<close> is open for reading and writing on a
  queue of messages of \<open>msg_size\<close> bytes and no signal or other process interferes; \<open>flags\<close> are the
  descriptor's flags, \<open>waiting\<close> the queue's messages, oldest first (all are sent with priority 0).
\<close>

definition keeps :: "('o \<Rightarrow> bool) \<Rightarrow> ('o \<Rightarrow> int) \<Rightarrow> ('o \<Rightarrow> bytes list) \<Rightarrow> 'o \<Rightarrow> int \<Rightarrow> bytes list \<Rightarrow> bool" where
  "keeps ready flags waiting w' fl ms \<longleftrightarrow> ready w' \<and> flags w' = fl \<and> waiting w' = ms"

definition clock_law :: "'o mq_api \<Rightarrow> ('o \<Rightarrow> bool) \<Rightarrow> bool" where
  "clock_law api ready \<longleftrightarrow>
     (\<forall>w. ready w \<longrightarrow> 0 \<le> tv_sec (clock_realtime api w) \<and>
        0 \<le> tv_nsec (clock_realtime api w) \<and> tv_nsec (clock_realtime api w) < 1000000000)"

definition send_law :: "'o mq_api \<Rightarrow> int \<Rightarrow> nat \<Rightarrow> nat \<Rightarrow> ('o \<Rightarrow> bool) \<Rightarrow> ('o \<Rightarrow> int) \<Rightarrow> ('o \<Rightarrow> bytes list) \<Rightarrow> bool" where
  "send_law api d msg_size capacity ready flags waiting \<longleftrightarrow>
     (\<forall>w m. ready w \<longrightarrow> length m = msg_size \<longrightarrow> length (waiting w) < capacity \<longrightarrow>
        (case mq_send api d m w of
           (ret, w') \<Rightarrow> ret = 0 \<and> keeps ready flags waiting w' (flags w) (waiting w @ [m])))"

definition receive_law :: "'o mq_api \<Rightarrow> int \<Rightarrow> nat \<Rightarrow> ('o \<Rightarrow> bool) \<Rightarrow> ('o \<Rightarrow> int) \<Rightarrow> ('o \<Rightarrow> bytes list) \<Rightarrow> bool" where
  "receive_law api d msg_size ready flags waiting \<longleftrightarrow>
     (\<forall>w. ready w \<longrightarrow>
        (case mq_receive api d msg_size w of
           (ret, buf, w') \<Rightarrow>
             (case waiting w of
                [] \<Rightarrow> flags w = O_NONBLOCK \<longrightarrow> ret < 0 \<and> keeps ready flags waiting w' (flags w) []
              | m # ms \<Rightarrow> ret = int (length m) \<and> buf = m \<and> keeps ready flags waiting w' (flags w) ms)))"

text \<open>
  A deadline is looked at only when there is nothing to receive. Nothing is said of an invalid one,
  with negative seconds or with nanoseconds out of range.
\<close>

definition timedreceive_law ::
  "'o mq_api \<Rightarrow> int \<Rightarrow> nat \<Rightarrow> ('o \<Rightarrow> bool) \<Rightarrow> ('o \<Rightarrow> int) \<Rightarrow> ('o \<Rightarrow> bytes list) \<Rightarrow> bool"
where
  "timedreceive_law api d msg_size ready flags waiting \<longleftrightarrow>
     (\<forall>w ts. ready w \<longrightarrow>
        (case mq_timedreceive api d msg_size ts w of
           (ret, buf, w') \<Rightarrow>
             (case waiting w of
                [] \<Rightarrow> flags w = 0 \<longrightarrow> 0 \<le> tv_sec ts \<longrightarrow> 0 \<le> tv_nsec ts \<longrightarrow> tv_nsec ts < 1000000000 \<longrightarrow>
                  ret < 0 \<and> errno api w' = ETIMEDOUT \<and> keeps ready flags waiting w' (flags w) []
              | m # ms \<Rightarrow> ret = int (length m) \<and> buf = m \<and> keeps ready flags waiting w' (flags w) ms)))"

text \<open>The number of messages is a \<^verbatim>\<open>long\<close>.\<close>

definition getattr_law :: "'o mq_api \<Rightarrow> int \<Rightarrow> ('o \<Rightarrow> bool) \<Rightarrow> ('o \<Rightarrow> int) \<Rightarrow> ('o \<Rightarrow> bytes list) \<Rightarrow> bool" where
  "getattr_law api d ready flags waiting \<longleftrightarrow>
     (\<forall>w. ready w \<longrightarrow>
        (case mq_getattr api d w of
           (ret, attr, w') \<Rightarrow> ret = 0 \<and> mq_curmsgs attr = int (length (waiting w)) \<and> mq_curmsgs attr < 2 ^ 63 \<and>
             keeps ready flags waiting w' (flags w) (waiting w)))"

text \<open>
  \<^verbatim>\<open>mq_setattr\<close> sets the flag \<^verbatim>\<open>O_NONBLOCK\<close> or unsets it. Of other flags, with which it
  is documented to fail, nothing is relied on.
\<close>

definition setattr_law :: "'o mq_api \<Rightarrow> int \<Rightarrow> ('o \<Rightarrow> bool) \<Rightarrow> ('o \<Rightarrow> int) \<Rightarrow> ('o \<Rightarrow> bytes list) \<Rightarrow> bool" where
  "setattr_law api d ready flags waiting \<longleftrightarrow>
     (\<forall>w new. ready w \<longrightarrow> mq_flags new \<in> {0, O_NONBLOCK} \<longrightarrow>
        (case mq_setattr api d new w of
           (ret, old, w') \<Rightarrow> ret = 0 \<and> mq_flags old = flags w \<and>
             keeps ready flags waiting w' (mq_flags new) (waiting w)))"

definition mq_laws ::
  "'o mq_api \<Rightarrow> int \<Rightarrow> nat \<Rightarrow> nat \<Rightarrow> ('o \<Rightarrow> bool) \<Rightarrow> ('o \<Rightarrow> int) \<Rightarrow> ('o \<Rightarrow> bytes list) \<Rightarrow> bool"
where
  "mq_laws api d msg_size capacity ready flags waiting \<longleftrightarrow>
     clock_law api ready \<and> send_law api d msg_size capacity ready flags waiting \<and>
     receive_law api d msg_size ready flags waiting \<and> timedreceive_law api d msg_size ready flags waiting \<and>
     getattr_law api d ready flags waiting \<and> setattr_law api d ready flags waiting"

text \<open>The states between two calls: the descriptor blocks, and every message fills the buffer.\<close>

definition at_rest :: "nat \<Rightarrow> ('o \<Rightarrow> bool) \<Rightarrow> ('o \<Rightarrow> int) \<Rightarrow> ('o \<Rightarrow> bytes list) \<Rightarrow> 'o \<Rightarrow> bool" where
  "at_rest msg_size ready flags waiting w \<longleftrightarrow>
     ready w \<and> flags w = 0 \<and> (\<forall>m\<in>set (waiting w). length m = msg_size)"

section \<open>Call by call\<close>

lemma copy_out_full: "length m = n \<Longrightarrow> copy_out n rest m = m"
  by (simp add: copy_out_def)

lemma sdiv_nonneg: "0 < (l :: int) \<Longrightarrow> 0 \<le> k \<Longrightarrow> 0 \<le> k sdiv l"
  by (simp add: signed_divide_int_def sgn_if pos_imp_zdiv_nonneg_iff)

lemma deadline_valid:
  assumes "0 \<le> ms" and "ms * 1000000 < 2 ^ 63" and "0 \<le> tv_sec now" and "0 \<le> tv_nsec now"
  shows "\<exists>ts. to_abs_timespec now ms = Some ts \<and> 0 \<le> tv_sec ts \<and> 0 \<le> tv_nsec ts \<and> tv_nsec ts < 1000000000"
  using assms sdiv_nonneg [of 1000 ms] sdiv_nonneg [of 1000000000 "tv_nsec now + ms * 1000000 smod 1000000000"] smod_sign [of 1000000000 "ms * 1000000"]
    smod_sign [of 1000000000 "tv_nsec now + ms * 1000000 smod 1000000000"]
    smod_bounds [of 1000000000 "tv_nsec now + ms * 1000000 smod 1000000000"]
  by (simp add: to_abs_timespec_def Let_def)

text \<open>What a call gives when the laws hold: the deque's answer and the deque's queue.\<close>

definition agrees ::
  "nat \<Rightarrow> ('o \<Rightarrow> bool) \<Rightarrow> ('o \<Rightarrow> int) \<Rightarrow> ('o \<Rightarrow> bytes list) \<Rightarrow> 'r \<Rightarrow> bytes list \<Rightarrow> ('r \<times> 'o) option \<Rightarrow> bool"
where
  "agrees msg_size ready flags waiting r ms c \<longleftrightarrow>
     (\<exists>w'. c = Some (r, w') \<and> at_rest msg_size ready flags waiting w' \<and> waiting w' = ms)"

lemmas fifo_defs = agrees_def at_rest_def keeps_def

lemma send_agrees:
  assumes "send_law api (mqd q) msg_size capacity ready flags waiting" and "at_rest msg_size ready flags waiting w"
    and "takes msg_size capacity (Send m) (waiting w)"
  shows "agrees msg_size ready flags waiting (Inr Returned) (waiting w @ [m]) (pq_call api msg_size rest q (Send m) w)"
  using assms(1) [unfolded send_law_def, rule_format, of w m] assms(2,3)
  by (auto simp: fifo_defs pq_send_def pq_do_send_def split: prod.splits)

lemma receive_agrees:
  assumes "receive_law api (mqd q) msg_size ready flags waiting" and "at_rest msg_size ready flags waiting w"
    and "waiting w = m # ms"
  shows "agrees msg_size ready flags waiting (Inr (Message m)) ms (pq_call api msg_size rest q Receive w)"
  using assms(1) [unfolded receive_law_def, rule_format, of w] assms(2,3)
  by (auto simp: fifo_defs pq_receive_def copy_out_full split: prod.splits)

lemma timed_receive_agrees:
  assumes "timedreceive_law api (mqd q) msg_size ready flags waiting" and "clock_law api ready"
    and "at_rest msg_size ready flags waiting w" and "takes msg_size capacity (Timed_Receive t) (waiting w)"
  shows "agrees msg_size ready flags waiting
    (Inr (case waiting w of [] \<Rightarrow> Flagged False (replicate msg_size 0) | m # ms \<Rightarrow> Flagged True m))
    (tl (waiting w)) (pq_call api msg_size rest q (Timed_Receive t) w)"
proof -
  have "0 \<le> tv_sec (clock_realtime api w)" "0 \<le> tv_nsec (clock_realtime api w)"
    using assms(2,3) by (simp_all add: clock_law_def at_rest_def)
  with assms(4) deadline_valid obtain ts where
    ts: "to_abs_timespec (clock_realtime api w) t = Some ts" "0 \<le> tv_sec ts" "0 \<le> tv_nsec ts" "tv_nsec ts < 1000000000"
    by fastforce
  show ?thesis
    using assms(1) [unfolded timedreceive_law_def, rule_format, of w ts] assms(3) ts
    by (cases "waiting w") (auto simp: fifo_defs pq_timed_receive_def copy_out_full split: prod.splits)
qed

lemma unat_of_length: "n < 9223372036854775808 \<Longrightarrow> unat (word_of_nat n :: 64 word) = n"
  by (simp add: unat_of_nat)

lemma num_message_agrees:
  assumes "getattr_law api (mqd q) ready flags waiting" and "at_rest msg_size ready flags waiting w"
  shows "agrees msg_size ready flags waiting (Inr (Count (length (waiting w)))) (waiting w)
      (pq_call api msg_size rest q Num_Message w)"
    and "agrees msg_size ready flags waiting (Inr (Answer (waiting w = []))) (waiting w)
      (pq_call api msg_size rest q Is_Empty w)"
  using assms(1) [unfolded getattr_law_def, rule_format, of w] assms(2)
  by (auto simp: fifo_defs pq_is_empty_def pq_num_message_def unat_of_length split: prod.splits)

lemma drain_receives:
  "receive_law api d msg_size ready flags waiting \<Longrightarrow>
     receives_oldest api d msg_size (\<lambda>w. ready w \<and> flags w = O_NONBLOCK) waiting"
  unfolding receives_oldest_def receive_law_def keeps_def
  by (intro allI impI, erule_tac x = w in allE) (auto split: prod.splits list.splits)

lemma clear_agrees:
  assumes "setattr_law api (mqd q) ready flags waiting" and "receive_law api (mqd q) msg_size ready flags waiting"
    and "at_rest msg_size ready flags waiting w"
  shows "agrees msg_size ready flags waiting (Inr Returned) [] (pq_call api msg_size rest q Clear w)"
proof -
  let ?nonblock = "\<lparr>mq_flags = O_NONBLOCK, mq_maxmsg = 0, mq_msgsize = 0, mq_curmsgs = 0\<rparr>"
  obtain ret old w1 where set: "mq_setattr api (mqd q) ?nonblock w = (ret, old, w1)" using prod_cases3 by blast
  have w1: "ret = 0" "mq_flags old = 0" "ready w1" "flags w1 = O_NONBLOCK"
    using assms(1) [unfolded setattr_law_def, rule_format, of w ?nonblock] assms(3) set
    by (simp_all add: fifo_defs)
  from drain_empties [OF drain_receives [OF assms(2)], of w1] w1(3,4) obtain w2 where
    w2: "drain api (mqd q) msg_size w1 = Some w2" "waiting w2 = []" "ready w2" by auto
  obtain r b w3 where restored: "mq_setattr api (mqd q) old w2 = (r, b, w3)" using prod_cases3 by blast
  have "ready w3 \<and> flags w3 = 0 \<and> waiting w3 = []"
    using assms(1) [unfolded setattr_law_def, rule_format, of w2 old] w1(2) w2 restored
    by (simp add: keeps_def)
  then show ?thesis
    using set w1(1) w2(1) restored by (simp add: fifo_defs pq_clear_def)
qed

lemma pq_call_agrees:
  assumes "mq_laws api (mqd q) msg_size capacity ready flags waiting" and "at_rest msg_size ready flags waiting w"
    and "deque_call msg_size capacity op (waiting w) = Some (r, ms)"
  shows "agrees msg_size ready flags waiting r ms (pq_call api msg_size rest q op w)"
proof -
  have ok: "takes msg_size capacity op (waiting w)"
    and r: "r = Inr (deque_outcome (replicate msg_size 0) op (waiting w))" "ms = deque_effect op (waiting w)"
    using assms(3) by (auto simp: deque_call_def split: if_splits)
  note laws = assms(1) [unfolded mq_laws_def]
  show ?thesis
  proof (cases op)
    case (Send m)
    have "send_law api (mqd q) msg_size capacity ready flags waiting" using laws by blast
    with Send ok r assms(2) show ?thesis by (simp add: op_defs send_agrees del: pq_call.simps)
  next
    case Receive
    with ok obtain m ms' where w: "waiting w = m # ms'" by (cases "waiting w") auto
    have "receive_law api (mqd q) msg_size ready flags waiting" using laws by blast
    with Receive w r assms(2) show ?thesis by (simp add: receive_agrees del: pq_call.simps)
  next
    case (Timed_Receive t)
    have "timedreceive_law api (mqd q) msg_size ready flags waiting" "clock_law api ready" using laws by blast+
    note timed = timed_receive_agrees [OF this assms(2) ok [unfolded Timed_Receive]]
    have "r = Inr (case waiting w of [] \<Rightarrow> Flagged False (replicate msg_size 0) | m # ms \<Rightarrow> Flagged True m)"
      "ms = tl (waiting w)"
      using r Timed_Receive by (cases "waiting w"; simp)+
    then show ?thesis unfolding Timed_Receive by (simp only: timed)
  next
    case Clear
    have "setattr_law api (mqd q) ready flags waiting" "receive_law api (mqd q) msg_size ready flags waiting"
      using laws by blast+
    with Clear r assms(2) show ?thesis by (simp add: op_defs clear_agrees del: pq_call.simps)
  next
    case Is_Empty
    have "getattr_law api (mqd q) ready flags waiting" using laws by blast
    with Is_Empty r assms(2) show ?thesis by (simp add: op_defs num_message_agrees del: pq_call.simps)
  next
    case Num_Message
    have "getattr_law api (mqd q) ready flags waiting" using laws by blast
    with Num_Message r assms(2) show ?thesis by (simp add: op_defs num_message_agrees del: pq_call.simps)
  qed
qed

interpretation posix: guarded_refinement
  "pq_call api msg_size rest q" "deque_call msg_size capacity" waiting
  "\<lambda>w. mq_laws api (mqd q) msg_size capacity ready flags waiting \<and> at_rest msg_size ready flags waiting w"
  for api :: "'o mq_api" and msg_size rest q capacity ready flags waiting
proof
  fix w op r ms
  assume "mq_laws api (mqd q) msg_size capacity ready flags waiting \<and> at_rest msg_size ready flags waiting w"
    and "deque_call msg_size capacity op (waiting w) = Some (r, ms)"
  with pq_call_agrees [of api q msg_size capacity ready flags waiting w op r ms rest]
  show "\<exists>w'. pq_call api msg_size rest q op w = Some (r, w') \<and>
    (mq_laws api (mqd q) msg_size capacity ready flags waiting \<and> at_rest msg_size ready flags waiting w') \<and> waiting w' = ms"
    by (auto simp: agrees_def)
qed

section \<open>Every sequence of calls\<close>


lemma memory_laws: "mq_laws memory_api d msg_size 10 (\<lambda>w. length (snd w) \<le> 10) fst snd"
  by (auto simp: mq_laws_def clock_law_def send_law_def receive_law_def timedreceive_law_def getattr_law_def
      setattr_law_def keeps_def memory_api_def O_NONBLOCK_def split: list.splits)


section \<open>Receiving while another thread clears\<close>

text \<open>
  The flag \<^verbatim>\<open>clear\<close> sets belongs to the descriptor, which all threads using the object share:
  between its first system call and its last, a \<^verbatim>\<open>receive\<close> of another thread that finds the queue
  empty throws, where the deque's would wait for a message.
\<close>

theorem receive_throws_while_clearing:
  assumes "receive_law api (mqd q) msg_size ready flags waiting"
    and "ready w" and "flags w = O_NONBLOCK" and "waiting w = []"
  shows "\<exists>err w'. pq_receive api msg_size rest q w = (throw_system ''PosixMessageQueue::receive failed'' err, w')"
  using assms(1) [unfolded receive_law_def, rule_format, of w] assms(2-)
  by (auto simp: pq_receive_def split: prod.splits)

theorem receive_throws_while_clearing_witness:
  "\<exists>err w'. pq_receive memory_api 1 [] \<lparr>mqd = 3, queue_name = ''/q'', is_owner = True\<rparr> (O_NONBLOCK, [])
    = (throw_system ''PosixMessageQueue::receive failed'' err, w')"
  by (rule receive_throws_while_clearing [where waiting = snd and flags = fst and ready = "\<lambda>w. length (snd w) \<le> 10"])
    (use memory_laws in \<open>auto simp: mq_laws_def\<close>)

end
