(* ===== verification/Start_Info.thy ===== *)
theory Start_Info
  imports Prelude
begin

text \<open>
  \<^verbatim>\<open>SubProcess/StartInfo\<close> and the launchers \<^verbatim>\<open>ExecFamily\<close> and \<^verbatim>\<open>Shell\<close>: what to
  run, and the \<^verbatim>\<open>exec\<close> call made for it. The call itself is the system's: \<open>exec\<close> is an
  argument of \<open>launch\<close>, which is \<open>None\<close> when the call replaces the process.
\<close>

section \<open>StartInfo\<close>

record start_info =
  si_command :: string
  si_arguments :: "string list"
  si_environments :: "string list"
  redirect_standard_output :: bool
  redirect_standard_error :: bool
  use_shell :: bool

definition make_start_info :: "string \<Rightarrow> start_info" where
  "make_start_info command =
     \<lparr>si_command = command, si_arguments = [], si_environments = [], redirect_standard_output = False,
      redirect_standard_error = False, use_shell = False\<rparr>"

subsection \<open>Accessors\<close>

text \<open>
  Each member has two accessors: one for constant objects, which returns the value (or a reference
  to read it by), and one that returns a reference to the member. A reference is what is read and
  what is written through it.
\<close>

record 'a member_ref =
  read_ref :: "start_info \<Rightarrow> 'a"
  write_ref :: "'a \<Rightarrow> start_info \<Rightarrow> start_info"

definition command_ref :: "string member_ref" where
  "command_ref = \<lparr>read_ref = si_command, write_ref = (\<lambda>v info. info\<lparr>si_command := v\<rparr>)\<rparr>"

definition command_const :: "start_info \<Rightarrow> string" where
  "command_const info = si_command info"

definition arguments_ref :: "string list member_ref" where
  "arguments_ref = \<lparr>read_ref = si_arguments, write_ref = (\<lambda>v info. info\<lparr>si_arguments := v\<rparr>)\<rparr>"

definition arguments_const :: "start_info \<Rightarrow> string list" where
  "arguments_const info = si_arguments info"

definition environments_ref :: "string list member_ref" where
  "environments_ref = \<lparr>read_ref = si_environments, write_ref = (\<lambda>v info. info\<lparr>si_environments := v\<rparr>)\<rparr>"

definition environments_const :: "start_info \<Rightarrow> string list" where
  "environments_const info = si_environments info"

definition redirect_standard_output_ref :: "bool member_ref" where
  "redirect_standard_output_ref = \<lparr>read_ref = redirect_standard_output, write_ref = (\<lambda>v info. info\<lparr>redirect_standard_output := v\<rparr>)\<rparr>"

definition redirect_standard_output_const :: "start_info \<Rightarrow> bool" where
  "redirect_standard_output_const info = redirect_standard_output info"

definition redirect_standard_error_ref :: "bool member_ref" where
  "redirect_standard_error_ref = \<lparr>read_ref = redirect_standard_error, write_ref = (\<lambda>v info. info\<lparr>redirect_standard_error := v\<rparr>)\<rparr>"

definition redirect_standard_error_const :: "start_info \<Rightarrow> bool" where
  "redirect_standard_error_const info = redirect_standard_error info"

definition use_shell_ref :: "bool member_ref" where
  "use_shell_ref = \<lparr>read_ref = use_shell, write_ref = (\<lambda>v info. info\<lparr>use_shell := v\<rparr>)\<rparr>"

definition use_shell_const :: "start_info \<Rightarrow> bool" where
  "use_shell_const info = use_shell info"

lemmas accessor_defs = command_ref_def arguments_ref_def environments_ref_def redirect_standard_output_ref_def redirect_standard_error_ref_def use_shell_ref_def command_const_def arguments_const_def environments_const_def redirect_standard_output_const_def redirect_standard_error_const_def use_shell_const_def

text \<open>
  A member reached through its accessors: what is written through the reference is what both
  accessors then give, and writing back what was read changes nothing.
\<close>

locale member =
  fixes r :: "'a member_ref" and get :: "start_info \<Rightarrow> 'a"
  assumes read_const: "read_ref r info = get info"
    and read_write: "read_ref r (write_ref r v info) = v"
    and write_read: "write_ref r (read_ref r info) info = info"
    and write_write: "write_ref r v (write_ref r u info) = write_ref r v info"
begin

lemma last_write: "get (fold (write_ref r) vs info) = (if vs = [] then get info else last vs)"
  by (induction vs arbitrary: info) (auto simp: read_const [symmetric] read_write)

end

interpretation command_member: member command_ref command_const
  by unfold_locales (simp_all add: accessor_defs)

interpretation arguments_member: member arguments_ref arguments_const
  by unfold_locales (simp_all add: accessor_defs)

interpretation environments_member: member environments_ref environments_const
  by unfold_locales (simp_all add: accessor_defs)

interpretation redirect_standard_output_member: member redirect_standard_output_ref redirect_standard_output_const
  by unfold_locales (simp_all add: accessor_defs)

interpretation redirect_standard_error_member: member redirect_standard_error_ref redirect_standard_error_const
  by unfold_locales (simp_all add: accessor_defs)

interpretation use_shell_member: member use_shell_ref use_shell_const
  by unfold_locales (simp_all add: accessor_defs)

definition get_command_line :: "start_info \<Rightarrow> string" where
  "get_command_line info = foldl (\<lambda>result argument. result @ '' '' @ argument) (si_command info) (si_arguments info)"

section \<open>C strings and vectors of them\<close>

text \<open>A callee reads a \<^verbatim>\<open>char *\<close> up to the first NUL; \<open>None\<close> is the null pointer.\<close>

definition c_string :: "string \<Rightarrow> string" where
  "c_string s = takeWhile (\<lambda>ch. ch \<noteq> CHR 0x00) s"

type_synonym char_ptr = "string option"

definition c_style_environments :: "start_info \<Rightarrow> char_ptr list" where
  "c_style_environments info =
     foldl (\<lambda>result env. result @ [Some (c_string env)]) [] (si_environments info) @ [None]"

text \<open>What a callee sees of a vector of pointers: the strings before the null pointer.\<close>

fun strings_of :: "char_ptr list \<Rightarrow> string list" where
  "strings_of (Some s # ps) = s # strings_of ps"
| "strings_of ps = []"

section \<open>The launchers\<close>

text \<open>
  The image an \<^verbatim>\<open>exec\<close> call asks for: \<^verbatim>\<open>execvp\<close> and \<^verbatim>\<open>execvpe\<close> search the path,
  \<^verbatim>\<open>execl\<close> and \<^verbatim>\<open>execle\<close> do not; without an environment the parent's is inherited.
\<close>

record image =
  image_file :: string
  searches_path :: bool
  image_argv :: "char_ptr list"
  image_env :: "char_ptr list option"

definition exec_family_image :: "start_info \<Rightarrow> image" where
  "exec_family_image info =
     (let cmd = c_string (si_command info);
          argv = foldl (\<lambda>argv arg. argv @ [Some (c_string arg)]) [Some cmd] (si_arguments info) @ [None];
          envs = si_environments info
      in if envs = []
         then \<lparr>image_file = cmd, searches_path = True, image_argv = argv, image_env = None\<rparr>
         else \<lparr>image_file = cmd, searches_path = True, image_argv = argv,
                image_env = Some (foldl (\<lambda>envp e. envp @ [Some (c_string e)]) [] envs @ [None])\<rparr>)"

definition shell_image :: "start_info \<Rightarrow> image" where
  "shell_image info =
     (let cmd = c_string (get_command_line info);
          argv = [Some ''sh'', Some ''-c'', Some cmd, None];
          envs = si_environments info
      in if envs = []
         then \<lparr>image_file = ''/bin/sh'', searches_path = False, image_argv = argv, image_env = None\<rparr>
         else \<lparr>image_file = ''/bin/sh'', searches_path = False, image_argv = argv,
                image_env = Some (foldl (\<lambda>envp e. envp @ [Some (c_string e)]) [] envs @ [None])\<rparr>)"

type_synonym 'o exec = "image \<Rightarrow> 'o \<Rightarrow> 'o option"

definition launch :: "'o exec \<Rightarrow> image \<Rightarrow> 'o \<Rightarrow> (int \<times> 'o) option" where
  "launch exec img w = (case exec img w of None \<Rightarrow> None | Some w' \<Rightarrow> Some (-1, w'))"

section \<open>What is executed\<close>

lemma foldl_pushes: "foldl (\<lambda>ps s. ps @ [Some (f s)]) ps0 xs = ps0 @ map (\<lambda>s. Some (f s)) xs"
  by (induction xs arbitrary: ps0) auto

lemma strings_of_terminated: "strings_of (map (\<lambda>s. Some (f s)) xs @ None # ps) = map f xs"
  by (induction xs) auto

lemma command_line_concat:
  "get_command_line info = si_command info @ concat (map (\<lambda>a. '' '' @ a) (si_arguments info))"
proof -
  have "foldl (\<lambda>r a. r @ '' '' @ a) s xs = s @ concat (map (\<lambda>a. '' '' @ a) xs)" for s and xs :: "string list"
    by (induction xs arbitrary: s) auto
  then show ?thesis by (simp add: get_command_line_def)
qed

text \<open>
  Without a shell the program executed sees exactly the command and the arguments, one string
  each, and the environment given (each up to its first NUL), whatever characters they contain; the
  vectors end in a null pointer.
\<close>

theorem exec_family_passes_arguments:
  "strings_of (image_argv (exec_family_image info)) = map c_string (si_command info # si_arguments info) \<and>
   last (image_argv (exec_family_image info)) = None \<and>
   image_env (exec_family_image info) =
     (if si_environments info = [] then None else Some (c_style_environments info)) \<and>
   strings_of (c_style_environments info) = map c_string (si_environments info)"
  using strings_of_terminated [of c_string "si_environments info" "[]"]
    strings_of_terminated [of c_string "si_arguments info" "[]"]
  by (simp add: exec_family_image_def c_style_environments_def Let_def foldl_pushes)

text \<open>
  With a shell the command line is the command and the arguments separated by single blanks,
  unquoted: an argument that contains a blank and the two arguments it would fall into give the
  same command line, so the shell cannot keep them apart.
\<close>

theorem shell_line_forgets_argument_boundaries:
  "get_command_line (info\<lparr>si_arguments := xs @ [a @ '' '' @ b] @ ys\<rparr>) =
   get_command_line (info\<lparr>si_arguments := xs @ [a, b] @ ys\<rparr>) \<and>
   strings_of (image_argv (shell_image info)) = [''sh'', ''-c'', c_string (get_command_line info)]"
  by (simp add: command_line_concat shell_image_def Let_def)

end
