(* ===== verification/Process_Model.thy ===== *)
theory Process_Model
  imports Start_Info Errors
begin

text \<open>
  \<^verbatim>\<open>SubProcess/Process\<close>, \<^verbatim>\<open>ProcessResult\<close> and \<^verbatim>\<open>ProcessSpawner\<close>: starting a child,
  collecting its output and its status. The system calls are the fields of \<open>os_api\<close>, functions on
  the system's state \<open>'o\<close>; what is relied on of them is stated where it is used.
\<close>

section \<open>The system calls\<close>

record usage =
  utime_sec :: int
  utime_usec :: int
  stime_sec :: int
  stime_usec :: int

type_synonym out_bytes = "8 word list"

text \<open>
  \<open>os_fork\<close> is the parent's view: the child's process id, or a negative number. A
  \<^verbatim>\<open>read\<close> or \<^verbatim>\<open>wait4\<close> that never returns is \<open>None\<close>. \<open>os_thread\<close> says whether the
  system could create a thread.
\<close>

record 'o os_api =
  os_pipe :: "'o \<Rightarrow> int \<times> (int \<times> int) \<times> 'o"
  os_close :: "int \<Rightarrow> 'o \<Rightarrow> 'o"
  os_dup2 :: "int \<Rightarrow> int \<Rightarrow> 'o \<Rightarrow> int \<times> 'o"
  os_fork :: "'o \<Rightarrow> int \<times> 'o"
  os_thread :: "'o \<Rightarrow> bool \<times> 'o"
  os_read :: "int \<Rightarrow> nat \<Rightarrow> 'o \<Rightarrow> (int \<times> out_bytes \<times> 'o) option"
  os_wait4 :: "int \<Rightarrow> 'o \<Rightarrow> ((32 word \<times> usage) option \<times> 'o) option"
  os_now :: "'o \<Rightarrow> int"
  os_errno :: "'o \<Rightarrow> int"
  os_exec :: "'o exec"

section \<open>The result of a process\<close>

record process_result =
  exit_code :: "32 word"
  result_has_exited :: bool
  result_usage :: usage
  start_time :: int
  exit_time :: int
  standard_output :: out_bytes
  standard_error :: out_bytes

definition get_exit_code :: "process_result \<Rightarrow> 32 word" where [simp]:
  "get_exit_code r = exit_code r"

definition get_has_exited :: "process_result \<Rightarrow> bool" where [simp]:
  "get_has_exited r = result_has_exited r"

definition get_start_time :: "process_result \<Rightarrow> int" where [simp]:
  "get_start_time r = start_time r"

definition get_exit_time :: "process_result \<Rightarrow> int" where [simp]:
  "get_exit_time r = exit_time r"

definition get_standard_output :: "process_result \<Rightarrow> out_bytes" where [simp]:
  "get_standard_output r = standard_output r"

definition get_standard_error :: "process_result \<Rightarrow> out_bytes" where [simp]:
  "get_standard_error r = standard_error r"

definition to_us :: "int \<Rightarrow> int \<Rightarrow> int" where
  "to_us sec usec = sec * 1000000 + usec"

definition total_processor_time :: "process_result \<Rightarrow> int" where
  "total_processor_time r =
     (let u = result_usage r in to_us (utime_sec u) (utime_usec u) + to_us (stime_sec u) (stime_usec u))"

definition user_processor_time :: "process_result \<Rightarrow> int" where
  "user_processor_time r = (let u = result_usage r in to_us (utime_sec u) (utime_usec u))"

text \<open>The encoding of a wait status on Linux.\<close>

definition WIFEXITED :: "32 word \<Rightarrow> bool" where
  "WIFEXITED status = ((status AND 0x7F) = 0)"

definition WEXITSTATUS :: "32 word \<Rightarrow> 32 word" where
  "WEXITSTATUS status = drop_bit 8 (status AND 0xFF00)"

section \<open>The child\<close>

definition kProcessFailed :: "32 word" where
  "kProcessFailed = -255"

text \<open>The status of a child that left with \<^verbatim>\<open>\_exit\<close>, of which the kernel keeps eight bits.\<close>

definition status_of_exit :: "32 word \<Rightarrow> 32 word" where
  "status_of_exit ret = push_bit 8 (ret AND 0xFF)"

text \<open>
  One redirection: duplicate the pipe's end onto the standard descriptor and close it. \<open>Inl\<close>
  is the failed \<^verbatim>\<open>dup2\<close>.
\<close>

definition redirect :: "'o os_api \<Rightarrow> int \<Rightarrow> int \<Rightarrow> 'o \<Rightarrow> 'o + 'o" where
  "redirect api fd std w =
     (if fd = -1 then Inr w
      else (case os_dup2 api fd std w of
              (ret, w') \<Rightarrow> if ret = -1 then Inl w' else Inr (os_close api fd w')))"

text \<open>
  \<^verbatim>\<open>child_process\<close>: the value it returns, or \<open>None\<close> when \<^verbatim>\<open>exec\<close> replaced the
  process.
\<close>

definition redirections :: "'o os_api \<Rightarrow> int \<Rightarrow> int \<Rightarrow> 'o \<Rightarrow> 'o + 'o" where
  "redirections api stdout_fd stderr_fd w =
     (case redirect api stdout_fd 1 w of
        Inl w1 \<Rightarrow> Inl w1
      | Inr w1 \<Rightarrow> redirect api stderr_fd 2 w1)"

definition child_process ::
  "'o os_api \<Rightarrow> start_info \<Rightarrow> int \<Rightarrow> int \<Rightarrow> 'o \<Rightarrow> (32 word \<times> 'o) option"
where
  "child_process api info stdout_fd stderr_fd w =
     (case redirections api stdout_fd stderr_fd w of
        Inl w' \<Rightarrow> Some (kProcessFailed, w')
      | Inr w' \<Rightarrow>
          (case launch (os_exec api) (if use_shell info then shell_image info else exec_family_image info) w' of
             None \<Rightarrow> None
           | Some (ret, w'') \<Rightarrow> Some (word_of_int ret, w'')))"

text \<open>The child from the \<^verbatim>\<open>fork\<close> on: it closes the read ends first.\<close>

definition close_if_open :: "'o os_api \<Rightarrow> int \<Rightarrow> 'o \<Rightarrow> 'o" where
  "close_if_open api fd w = (if fd \<noteq> -1 then os_close api fd w else w)"

definition close_read_ends :: "'o os_api \<Rightarrow> int \<times> int \<Rightarrow> int \<times> int \<Rightarrow> 'o \<Rightarrow> 'o" where
  "close_read_ends api stdout_pipe stderr_pipe w =
     close_if_open api (fst stderr_pipe) (close_if_open api (fst stdout_pipe) w)"

definition child_main ::
  "'o os_api \<Rightarrow> start_info \<Rightarrow> int \<times> int \<Rightarrow> int \<times> int \<Rightarrow> 'o \<Rightarrow> (32 word \<times> 'o) option"
where
  "child_main api info stdout_pipe stderr_pipe w =
     child_process api info (snd stdout_pipe) (snd stderr_pipe)
       (close_read_ends api stdout_pipe stderr_pipe w)"

section \<open>Collecting\<close>

text \<open>
  \<^verbatim>\<open>read_pipe\<close> reads until end of file or an error, which look the same to it; \<open>None\<close> is a
  reader that is never given either.
\<close>

partial_function (option) read_all ::
  "'o os_api \<Rightarrow> int \<Rightarrow> out_bytes \<Rightarrow> 'o \<Rightarrow> (out_bytes \<times> 'o) option"
where
  "read_all api fd result w =
     (case os_read api fd 4096 w of
        None \<Rightarrow> None
      | Some (n, buf, w') \<Rightarrow>
          if 0 < n then read_all api fd (result @ take (nat n) buf) w' else Some (result, w'))"

definition read_pipe :: "'o os_api \<Rightarrow> int \<Rightarrow> 'o \<Rightarrow> (out_bytes \<times> 'o) option" where
  "read_pipe api fd w = (if fd = -1 then Some ([], w) else read_all api fd [] w)"

definition collect_result ::
  "'o os_api \<Rightarrow> int \<Rightarrow> int \<Rightarrow> int \<Rightarrow> int \<Rightarrow> 'o \<Rightarrow> (process_result \<times> 'o) option"
where
  "collect_result api pid start stdout_read_fd stderr_read_fd w =
     (case read_pipe api stdout_read_fd w of
        None \<Rightarrow> None
      | Some (stdout_str, w1) \<Rightarrow>
          (case read_pipe api stderr_read_fd w1 of
             None \<Rightarrow> None
           | Some (stderr_str, w2) \<Rightarrow>
               (case os_wait4 api pid
                    (close_if_open api stderr_read_fd (close_if_open api stdout_read_fd w2)) of
                  None \<Rightarrow> None
                | Some (waited, w3) \<Rightarrow>
                    (let (status, usage) = (case waited of
                           None \<Rightarrow> (-1, \<lparr>utime_sec = 0, utime_usec = 0, stime_sec = 0, stime_usec = 0\<rparr>)
                         | Some su \<Rightarrow> su)
                     in Some (\<lparr>exit_code = if WIFEXITED status then WEXITSTATUS status else -1,
                               result_has_exited = True, result_usage = usage, start_time = start,
                               exit_time = os_now api w3, standard_output = stdout_str,
                               standard_error = stderr_str\<rparr>, w3)))))"

section \<open>The process object\<close>

record process =
  proc_start_info :: start_info
  proc_id :: int
  proc_has_exited :: bool

definition make_process :: "start_info \<Rightarrow> process" where
  "make_process info = \<lparr>proc_start_info = info, proc_id = -1, proc_has_exited = False\<rparr>"

definition process_id :: "process \<Rightarrow> int" where [simp]:
  "process_id p = proc_id p"

definition process_has_exited :: "process \<Rightarrow> bool" where [simp]:
  "process_has_exited p = proc_has_exited p"

text \<open>
  Moving takes the other's fields and leaves it without a process; \<open>left\<close> is what a moved-from
  \<^verbatim>\<open>StartInfo\<close> holds. Objects are known by their addresses.
\<close>

definition proc_move_construct ::
  "start_info \<Rightarrow> nat \<Rightarrow> nat \<Rightarrow> (nat \<Rightarrow> process) \<Rightarrow> nat \<Rightarrow> process"
where
  "proc_move_construct left this other s =
     (s(other := (s other)\<lparr>proc_start_info := left, proc_id := -1\<rparr>))(this := s other)"

definition proc_move_assign ::
  "start_info \<Rightarrow> nat \<Rightarrow> nat \<Rightarrow> (nat \<Rightarrow> process) \<Rightarrow> nat \<Rightarrow> process"
where
  "proc_move_assign left this other s =
     (if this \<noteq> other
      then (s(other := (s other)\<lparr>proc_start_info := left, proc_id := -1\<rparr>))(this := s other)
      else s)"

text \<open>
  What \<^verbatim>\<open>start_async\<close> hands to the thread that collects: the child, the start time and the
  read ends of the pipes.
\<close>

record collector =
  col_pid :: int
  col_start :: int
  col_stdout :: int
  col_stderr :: int

definition close_pair :: "'o os_api \<Rightarrow> int \<times> int \<Rightarrow> 'o \<Rightarrow> 'o" where
  "close_pair api pipe w =
     (if fst pipe \<noteq> -1 then os_close api (snd pipe) (os_close api (fst pipe) w) else w)"

text \<open>A pipe, if it is asked for: \<open>Inl\<close> is a failure.\<close>

definition open_pipe :: "'o os_api \<Rightarrow> bool \<Rightarrow> 'o \<Rightarrow> ('o + (int \<times> int) \<times> 'o)" where
  "open_pipe api wanted w =
     (if wanted
      then (case os_pipe api w of (ret, pipe, w') \<Rightarrow> if ret \<noteq> 0 then Inl w' else Inr (pipe, w'))
      else Inr ((-1, -1), w))"

text \<open>
  The process keeps what was stored to it when an exception is thrown: the id is set before the
  thread is created, and \<^verbatim>\<open>std::thread\<close> throws when there is none to be had. Nothing of
  \<^verbatim>\<open>has_exited_\<close> is touched.
\<close>

definition start_async ::
  "'o os_api \<Rightarrow> process \<Rightarrow> 'o \<Rightarrow> ('v, collector) result \<times> process \<times> 'o"
where
  "start_async api p w =
     (case open_pipe api (redirect_standard_output (proc_start_info p)) w of
        Inl w1 \<Rightarrow> (throw_system ''pipe() failed for stdout'' (os_errno api w1), p, w1)
      | Inr (out, w1) \<Rightarrow>
          (case open_pipe api (redirect_standard_error (proc_start_info p)) w1 of
             Inl w2 \<Rightarrow> (throw_system ''pipe() failed for stderr'' (os_errno api w2), p, close_pair api out w2)
           | Inr (err, w2) \<Rightarrow>
               (case os_fork api w2 of
                  (pid, w3) \<Rightarrow>
                    if pid < 0
                    then (throw_system ''fork() failed'' (os_errno api w3), p, close_pair api err (close_pair api out w3))
                    else
                      (case os_thread api (close_if_open api (snd err) (close_if_open api (snd out) w3)) of
                         (created, w4) \<Rightarrow>
                           (if created
                            then Inr \<lparr>col_pid = pid, col_start = os_now api w, col_stdout = fst out, col_stderr = fst err\<rparr>
                            else Inl (Other_Exception ''std::system_error''),
                            p\<lparr>proc_id := pid\<rparr>, w4)))))"

text \<open>
  \<^verbatim>\<open>start\<close> waits for the collector, which sets \<open>proc_has_exited\<close> before it hands the
  result over; \<open>None\<close> when the collector never does.
\<close>

definition process_start ::
  "'o os_api \<Rightarrow> process \<Rightarrow> 'o \<Rightarrow> (('v, process_result) result \<times> process \<times> 'o) option"
where
  "process_start api p w =
     (case start_async api p w of
        (Inl e, p', w1) \<Rightarrow> Some (Inl e, p', w1)
      | (Inr c, p', w1) \<Rightarrow>
          (case collect_result api (col_pid c) (col_start c) (col_stdout c) (col_stderr c) w1 of
             None \<Rightarrow> None
           | Some (r, w2) \<Rightarrow> Some (Inr r, p'\<lparr>proc_has_exited := True\<rparr>, w2)))"

section \<open>ProcessSpawner\<close>

text \<open>
  \<^verbatim>\<open>spawn\<close> forks a child that calls a function and leaves with its result: the value given to
  the parent, and the wait status the child will end with, when there is one.
\<close>

definition spawn ::
  "'o os_api \<Rightarrow> ('t \<Rightarrow> 'o \<Rightarrow> 32 word) \<Rightarrow> 't \<Rightarrow> 'o \<Rightarrow> int \<times> 32 word option \<times> 'o"
where
  "spawn api function argument w =
     (case os_fork api w of
        (pid, w') \<Rightarrow> (pid, if pid < 0 then None else Some (status_of_exit (function argument w')), w'))"

section \<open>Exit codes\<close>

lemma status_masks:
  "(0x7F :: 32 word) = mask 7" "(0xFF :: 32 word) = mask 8" "(0xFF00 :: 32 word) = push_bit 8 (mask 8)"
  by (simp_all add: mask_eq_exp_minus_1 push_bit_eq_mult)

lemma exited_status: "WIFEXITED (status_of_exit ret)"
  unfolding WIFEXITED_def status_of_exit_def status_masks
  by (simp add: bit_eq_iff bit_simps)

lemma exit_status_back: "WEXITSTATUS (status_of_exit ret) = ret AND 0xFF"
  unfolding WEXITSTATUS_def status_of_exit_def status_masks
  by (rule bit_word_eqI) (auto simp: bit_simps)

section \<open>What is relied on of the system\<close>

text \<open>
  \<open>table\<close> is the descriptor table of the process: which open file a descriptor refers to. The
  laws are those of POSIX: a successful \<^verbatim>\<open>pipe\<close> returns two fresh descriptors, a failed one
  none; \<^verbatim>\<open>close\<close> frees the descriptor, \<^verbatim>\<open>dup2\<close> overwrites one, \<^verbatim>\<open>fork\<close>,
  a thread's creation, \<^verbatim>\<open>read\<close> and \<^verbatim>\<open>wait4\<close> leave the table alone, whether they
  succeed or fail.
\<close>

definition table_laws :: "'o os_api \<Rightarrow> ('o \<Rightarrow> int \<Rightarrow> 'f option) \<Rightarrow> bool" where
  "table_laws api table \<longleftrightarrow>
     (\<forall>w r e w'. os_pipe api w = (0, (r, e), w') \<longrightarrow>
        (\<exists>a b. table w' = (table w)(r \<mapsto> a, e \<mapsto> b)) \<and> r \<noteq> e \<and> 0 \<le> r \<and> 0 \<le> e \<and>
        table w r = None \<and> table w e = None) \<and>
     (\<forall>w ret p w'. os_pipe api w = (ret, p, w') \<longrightarrow> ret \<noteq> 0 \<longrightarrow> table w' = table w) \<and>
     (\<forall>w fd. table (os_close api fd w) = (table w)(fd := None)) \<and>
     (\<forall>w fd std ret w'. os_dup2 api fd std w = (ret, w') \<longrightarrow>
        table w' = (if ret = -1 then table w else (table w)(std := table w fd))) \<and>
     (\<forall>w. table (snd (os_fork api w)) = table w) \<and>
     (\<forall>w. table (snd (os_thread api w)) = table w) \<and>
     (\<forall>fd n w k buf w'. os_read api fd n w = Some (k, buf, w') \<longrightarrow> table w' = table w) \<and>
     (\<forall>pid w st w'. os_wait4 api pid w = Some (st, w') \<longrightarrow> table w' = table w)"

lemma table_pipe:
  "table_laws api table \<Longrightarrow> os_pipe api w = (0, (r, e), w') \<Longrightarrow>
   (\<exists>a b. table w' = (table w)(r \<mapsto> a, e \<mapsto> b)) \<and> r \<noteq> e \<and> 0 \<le> r \<and> 0 \<le> e \<and> table w r = None \<and> table w e = None"
  by (simp add: table_laws_def)

lemma table_pipe_failed:
  "table_laws api table \<Longrightarrow> os_pipe api w = (ret, p, w') \<Longrightarrow> ret \<noteq> 0 \<Longrightarrow> table w' = table w"
  unfolding table_laws_def by (elim conjE) blast

lemma table_close: "table_laws api table \<Longrightarrow> table (os_close api fd w) = (table w)(fd := None)"
  by (simp add: table_laws_def)

lemma table_dup2:
  "table_laws api table \<Longrightarrow> os_dup2 api fd std w = (ret, w') \<Longrightarrow>
   table w' = (if ret = -1 then table w else (table w)(std := table w fd))"
  unfolding table_laws_def by blast

lemma table_fork: "table_laws api table \<Longrightarrow> os_fork api w = (pid, w') \<Longrightarrow> table w' = table w"
  unfolding table_laws_def by (metis snd_conv)

lemma table_thread: "table_laws api table \<Longrightarrow> os_thread api w = (created, w') \<Longrightarrow> table w' = table w"
  unfolding table_laws_def by (metis snd_conv)

lemma table_read: "table_laws api table \<Longrightarrow> os_read api fd n w = Some (k, buf, w') \<Longrightarrow> table w' = table w"
  unfolding table_laws_def by blast

lemma table_wait4: "table_laws api table \<Longrightarrow> os_wait4 api pid w = Some (st, w') \<Longrightarrow> table w' = table w"
  unfolding table_laws_def by blast

section \<open>Descriptors\<close>

text \<open>A pair of descriptors as \<open>start_async\<close> holds it: none, or a pipe's two ends.\<close>

definition held :: "('o \<Rightarrow> int \<Rightarrow> 'f option) \<Rightarrow> int \<times> int \<Rightarrow> 'o \<Rightarrow> 'o \<Rightarrow> bool" where
  "held table pipe w0 w \<longleftrightarrow>
     pipe = (-1, -1) \<and> table w = table w0 \<or>
     (\<exists>r e a b. pipe = (r, e) \<and> r \<noteq> e \<and> 0 \<le> r \<and> 0 \<le> e \<and> table w0 r = None \<and> table w0 e = None \<and>
        table w = (table w0)(r \<mapsto> a, e \<mapsto> b))"

lemma held_open_pipe:
  assumes "table_laws api table" "open_pipe api wanted w = Inr (pipe, w')"
  shows "held table pipe w w' \<and> (fst pipe \<noteq> -1 \<longleftrightarrow> wanted) \<and> (snd pipe \<noteq> -1 \<longleftrightarrow> wanted)"
proof (cases wanted)
  case True
  then obtain r e where "os_pipe api w = (0, (r, e), w')" "pipe = (r, e)"
    using assms(2) by (auto simp: open_pipe_def split: prod.splits if_splits)
  then show ?thesis
    using table_pipe [OF assms(1)] True by (fastforce simp: held_def)
next
  case False
  then show ?thesis using assms(2) by (auto simp: open_pipe_def held_def)
qed

lemma open_pipe_failed:
  "table_laws api table \<Longrightarrow> open_pipe api wanted w = Inl w' \<Longrightarrow> table w' = table w"
  by (auto simp: open_pipe_def split: prod.splits if_splits dest: table_pipe_failed)

lemma table_close_if_open:
  "table_laws api table \<Longrightarrow> table (close_if_open api fd w) = (if fd \<noteq> -1 then (table w)(fd := None) else table w)"
  by (auto simp: close_if_open_def table_close fun_eq_iff)

lemma close_pair_table:
  "table_laws api table \<Longrightarrow>
   table (close_pair api pipe w) =
     (if fst pipe \<noteq> -1 then (table w)(fst pipe := None, snd pipe := None) else table w)"
  by (auto simp: close_pair_def table_close fun_eq_iff)

lemma held_close_pair:
  "table_laws api table \<Longrightarrow> held table pipe w0 w \<Longrightarrow> table w1 = table w \<Longrightarrow>
   table (close_pair api pipe w1) = table w0"
  by (auto simp: held_def close_pair_table fun_eq_iff)

text \<open>Two pipes opened one after the other have four different ends.\<close>

lemma held_two:
  assumes "held table out w w1" "held table err w1 w2"
  shows "fst out \<noteq> -1 \<Longrightarrow> fst err \<noteq> -1 \<Longrightarrow> distinct [fst out, snd out, fst err, snd err]"
  using assms by (auto simp: held_def)

section \<open>Starting and collecting\<close>

lemma read_all_table:
  assumes "read_all api fd acc w = Some y"
  shows "table_laws api table \<longrightarrow> table (snd y) = table w"
  by (rule read_all.raw_induct [OF _ assms])
    (auto split: option.splits prod.splits if_splits dest: table_read)

lemma read_pipe_table:
  "table_laws api table \<Longrightarrow> read_pipe api fd w = Some (res, w') \<Longrightarrow> table w' = table w"
  by (auto simp: read_pipe_def split: if_splits dest: read_all_table)

lemma collect_result_table:
  assumes laws: "table_laws api table" and col: "collect_result api pid start o_fd e_fd w = Some (r, w')"
  shows "table w' = (\<lambda>fd. if fd \<noteq> -1 \<and> (fd = o_fd \<or> fd = e_fd) then None else table w fd)"
    and "result_has_exited r"
proof -
  obtain so w1 se w2 st w3 where r: "read_pipe api o_fd w = Some (so, w1)" "read_pipe api e_fd w1 = Some (se, w2)"
      "os_wait4 api pid (close_if_open api e_fd (close_if_open api o_fd w2)) = Some (st, w3)" "w' = w3"
    using col by (auto simp: collect_result_def Let_def split: option.splits prod.splits)
  have "table w2 = table w" using read_pipe_table [OF laws] r(1,2) by metis
  then show "table w' = (\<lambda>fd. if fd \<noteq> -1 \<and> (fd = o_fd \<or> fd = e_fd) then None else table w fd)"
    using table_wait4 [OF laws r(3)] r(4) by (auto simp: table_close_if_open [OF laws] fun_eq_iff)
  show "result_has_exited r"
    using col by (auto simp: collect_result_def Let_def split: option.splits prod.splits)
qed

lemma held_close_both:
  assumes "table_laws api table" "held table out w w1" "held table err w1 w2" "table w3 = table w2"
  shows "table (close_pair api err (close_pair api out w3)) = table w"
  using assms(2-4) by (auto simp: held_def close_pair_table [OF assms(1)] fun_eq_iff)

text \<open>
  The descriptors that differ from the table before are the read ends \<open>o_fd\<close> and \<open>e_fd\<close>, each
  \<open>-1\<close> when its stream is not redirected: two different descriptors, free before and open now.
\<close>

definition only_read_ends ::
  "start_info \<Rightarrow> int \<Rightarrow> int \<Rightarrow> (int \<Rightarrow> 'f option) \<Rightarrow> (int \<Rightarrow> 'f option) \<Rightarrow> bool"
where
  "only_read_ends info o_fd e_fd before now \<longleftrightarrow>
     (o_fd \<noteq> -1 \<longleftrightarrow> redirect_standard_output info) \<and> (e_fd \<noteq> -1 \<longleftrightarrow> redirect_standard_error info) \<and>
     (o_fd \<noteq> e_fd \<or> e_fd = -1) \<and>
     (\<forall>fd. if fd \<in> {o_fd, e_fd} - {-1} then before fd = None \<and> now fd \<noteq> None else now fd = before fd)"

lemma held_read_ends:
  assumes "table_laws api table" "held table out w w1" "held table err w1 w2" "table w3 = table w2"
    and "fst out \<noteq> -1 \<longleftrightarrow> redirect_standard_output info" "fst err \<noteq> -1 \<longleftrightarrow> redirect_standard_error info"
  shows "only_read_ends info (fst out) (fst err) (table w)
    (table (close_if_open api (snd err) (close_if_open api (snd out) w3)))"
  using assms(2-6)
  by (auto simp: held_def only_read_ends_def table_close_if_open [OF assms(1)] split: if_splits)

text \<open>
  The three ends of \<open>start_async\<close>: an exception of the framework with everything as before, the
  exception of \<^verbatim>\<open>std::thread\<close> with the read ends open, or a collector that holds them.
\<close>

lemma start_async_table:
  assumes laws: "table_laws api table" and sa: "start_async api p w = (r, p', w')"
  shows "(\<exists>x. r = Inl (System_Exception x)) \<and> p' = p \<and> table w' = table w \<or>
    (\<exists>v created pid o_fd e_fd. fst (os_thread api v) = created \<and> 0 \<le> pid \<and> p' = p\<lparr>proc_id := pid\<rparr> \<and>
      only_read_ends (proc_start_info p) o_fd e_fd (table w) (table w') \<and>
      r = (if created then Inr \<lparr>col_pid = pid, col_start = os_now api w, col_stdout = o_fd, col_stderr = e_fd\<rparr>
           else Inl (Other_Exception ''std::system_error'')))"
proof -
  let ?o = "redirect_standard_output (proc_start_info p)" and ?e = "redirect_standard_error (proc_start_info p)"
  show ?thesis
  proof (cases "open_pipe api ?o w")
    case (Inl w1)
    then show ?thesis using open_pipe_failed [OF laws Inl] sa by (clarsimp simp: start_async_def throw_system_def)
  next
    case (Inr q)
    obtain out w1 where q: "q = (out, w1)" by fastforce
    have o: "held table out w w1" "fst out \<noteq> -1 \<longleftrightarrow> ?o"
      using held_open_pipe [OF laws Inr [unfolded q]] by auto
    show ?thesis
    proof (cases "open_pipe api ?e w1")
      case (Inl w2)
      then show ?thesis
        using held_close_pair [OF laws o(1) open_pipe_failed [OF laws Inl]] Inr q sa
        by (clarsimp simp: start_async_def throw_system_def)
    next
      case (Inr q')
      obtain err w2 where q': "q' = (err, w2)" by fastforce
      have e: "held table err w1 w2" "fst err \<noteq> -1 \<longleftrightarrow> ?e"
        using held_open_pipe [OF laws Inr [unfolded q']] by auto
      obtain pid w3 where f: "os_fork api w2 = (pid, w3)" by fastforce
      have t3: "table w3 = table w2" by (rule table_fork [OF laws f])
      note opened = \<open>open_pipe api ?o w = Inr q\<close> Inr q q' f
      show ?thesis
      proof (cases "pid < 0")
        case True
        then show ?thesis
          using held_close_both [OF laws o(1) e(1) t3] opened sa by (clarsimp simp: start_async_def throw_system_def)
      next
        case False
        obtain created w4 where th:
          "os_thread api (close_if_open api (snd err) (close_if_open api (snd out) w3)) = (created, w4)" by fastforce
        have "only_read_ends (proc_start_info p) (fst out) (fst err) (table w) (table w4)"
          using held_read_ends [OF laws o(1) e(1) t3 o(2) e(2)] table_thread [OF laws th] by simp
        moreover have "r = (if created
            then Inr \<lparr>col_pid = pid, col_start = os_now api w, col_stdout = fst out, col_stderr = fst err\<rparr>
            else Inl (Other_Exception ''std::system_error''))" "p' = p\<lparr>proc_id := pid\<rparr>" "w' = w4"
          using False opened th sa by (simp_all add: start_async_def)
        moreover have "fst (os_thread api (close_if_open api (snd err) (close_if_open api (snd out) w3))) = created" "0 \<le> pid"
          using th False by simp_all
        ultimately show ?thesis by blast
      qed
    qed
  qed
qed

lemma start_async_started:
  assumes laws: "table_laws api table" and sa: "start_async api p w = (Inr c, p', w')"
  shows "p' = p\<lparr>proc_id := col_pid c\<rparr>" and "col_start c = os_now api w"
    and "only_read_ends (proc_start_info p) (col_stdout c) (col_stderr c) (table w) (table w')"
  using start_async_table [OF assms] by (auto split: if_splits)

lemma read_ends_closed:
  assumes laws: "table_laws api table" and ends: "only_read_ends info o_fd e_fd (table w) (table w1)"
    and col: "collect_result api pid start o_fd e_fd w1 = Some (res, w2)"
  shows "table w2 = table w"
proof
  fix fd show "table w2 fd = table w fd"
    using ends collect_result_table(1) [OF laws col] by (auto simp: only_read_ends_def split: if_splits)
qed


text \<open>A system for the examples: a descriptor table, the next free descriptor, the reads left.\<close>

type_synonym demo_os = "(int \<Rightarrow> nat option) \<times> int \<times> nat"

definition demo_api :: "demo_os os_api" where
  "demo_api =
     \<lparr>os_pipe = (\<lambda>(t, n, k).
        if t n = None \<and> t (n + 1) = None \<and> 0 \<le> n
        then (0, (n, n + 1), (t(n \<mapsto> nat n, n + 1 \<mapsto> nat n), n + 2, k))
        else (-1, (-1, -1), (t, n, k))),
      os_close = (\<lambda>fd (t, n, k). (t(fd := None), n, k)),
      os_dup2 = (\<lambda>fd std (t, n, k). if t fd = None \<or> std < 0 then (-1, (t, n, k)) else (std, (t(std := t fd), n, k))),
      os_fork = (\<lambda>w. (7, w)),
      os_thread = (\<lambda>w. (True, w)),
      os_read = (\<lambda>fd m (t, n, k). Some (if 0 < k then (1, [65], (t, n, k - 1)) else (0, [], (t, n, k)))),
      os_wait4 = (\<lambda>pid w. Some (Some (status_of_exit kProcessFailed,
        \<lparr>utime_sec = 0, utime_usec = 0, stime_sec = 0, stime_usec = 0\<rparr>), w)),
      os_now = (\<lambda>_. 0), os_errno = (\<lambda>_. 24), os_exec = (\<lambda>_ _. None)\<rparr>"

definition demo_info :: start_info where
  "demo_info = (make_start_info ''ls'')\<lparr>redirect_standard_output := True, redirect_standard_error := True\<rparr>"

lemma demo_laws: "table_laws demo_api fst"
  by (auto simp: table_laws_def demo_api_def split: if_splits)

text \<open>The same system without room for another thread.\<close>

definition threadless_api :: "demo_os os_api" where
  "threadless_api = demo_api\<lparr>os_thread := (\<lambda>w. (False, w))\<rparr>"

lemma threadless_laws: "table_laws threadless_api fst"
  by (auto simp: table_laws_def threadless_api_def demo_api_def split: if_splits)


section \<open>What the exit code says\<close>

lemma collect_exit_code:
  assumes "collect_result api pid start o_fd e_fd w = Some (r, w')"
  shows "\<exists>v st. os_wait4 api pid v = Some (st, w') \<and> exit_code r =
    (case st of None \<Rightarrow> -1 | Some su \<Rightarrow> if WIFEXITED (fst su) then WEXITSTATUS (fst su) else -1)"
proof -
  obtain so w1 se w2 st w3 where r: "read_pipe api o_fd w = Some (so, w1)" "read_pipe api e_fd w1 = Some (se, w2)"
      "os_wait4 api pid (close_if_open api e_fd (close_if_open api o_fd w2)) = Some (st, w3)"
    using assms by (auto simp: collect_result_def Let_def split: option.splits prod.splits)
  have "\<not> WIFEXITED (-1)" by (simp add: WIFEXITED_def)
  then show ?thesis
    using assms r by (intro exI [of _ "close_if_open api e_fd (close_if_open api o_fd w2)"] exI [of _ st])
      (auto simp: collect_result_def split: option.splits prod.splits)
qed

text \<open>
  C32: a child that could not redirect its output or could not execute the program is reported with
  the exit code 1 or 255, which a program may as well choose itself; the documented
  \<^verbatim>\<open>kProcessFailed\<close> is never reported, since the system keeps eight bits of it.
\<close>

theorem failed_child_reports_a_byte:
  assumes child: "child_main api info out err w = Some (ret, v)"
    and waited: "\<And>v st v'. os_wait4 api pid v = Some (st, v') \<Longrightarrow> st = Some (status_of_exit ret, u)"
    and col: "collect_result api pid start o_fd e_fd w1 = Some (r, w2)"
  shows "exit_code r =
      (case redirections api (snd out) (snd err) (close_read_ends api out err w) of Inl _ \<Rightarrow> 1 | Inr _ \<Rightarrow> 255) \<and>
    exit_code r \<noteq> kProcessFailed"
proof -
  obtain v st where "os_wait4 api pid v = Some (st, w2)" "exit_code r =
      (case st of None \<Rightarrow> -1 | Some su \<Rightarrow> if WIFEXITED (fst su) then WEXITSTATUS (fst su) else -1)"
    using collect_exit_code [OF col] by blast
  moreover from this(1) have "st = Some (status_of_exit ret, u)" by (rule waited)
  ultimately have "exit_code r = ret AND 0xFF"
    by (simp add: exited_status exit_status_back)
  moreover have "ret = (case redirections api (snd out) (snd err) (close_read_ends api out err w) of
      Inl _ \<Rightarrow> kProcessFailed | Inr _ \<Rightarrow> -1)"
    using child by (auto simp: child_main_def child_process_def launch_def split: sum.splits option.splits)
  ultimately show ?thesis by (auto simp: kProcessFailed_def split: sum.split)
qed

text \<open>The demo system, with a child whose \<^verbatim>\<open>dup2\<close> fails because the descriptor is closed.\<close>

theorem failed_child_reports_a_byte_witness:
  "\<exists>r w. collect_result demo_api 7 0 (-1) (-1) ((\<lambda>_. None), 3, 0) = Some (r, w) \<and> exit_code r = 1"
proof -
  obtain r w where col: "collect_result demo_api 7 0 (-1) (-1) ((\<lambda>_. None), 3, 0) = Some (r, w)"
    by (simp add: collect_result_def read_pipe_def close_if_open_def demo_api_def)
  have child: "child_main demo_api demo_info (3, 4) (5, 6) ((\<lambda>_. None), 3, 0) =
      Some (kProcessFailed, ((\<lambda>_. None), 3, 0))"
    by (simp add: child_main_def child_process_def redirections_def redirect_def close_read_ends_def
        close_if_open_def demo_api_def fun_eq_iff)
  have waited: "\<And>v st v'. os_wait4 demo_api 7 v = Some (st, v') \<Longrightarrow>
      st = Some (status_of_exit kProcessFailed, \<lparr>utime_sec = 0, utime_usec = 0, stime_sec = 0, stime_usec = 0\<rparr>)"
    by (auto simp: demo_api_def)
  have "redirections demo_api 4 6 (close_read_ends demo_api (3, 4) (5, 6) ((\<lambda>_. None), 3, 0)) =
      Inl ((\<lambda>_. None), 3, 0)"
    by (simp add: redirections_def redirect_def close_read_ends_def close_if_open_def demo_api_def fun_eq_iff)
  then have "exit_code r = 1"
    using failed_child_reports_a_byte [OF child waited col] by simp
  with col show ?thesis by blast
qed

section \<open>The child's streams\<close>

lemma redirect_table:
  assumes "table_laws api table" "redirect api fd std w = Inr w'"
  shows "table w' = (if fd = -1 then table w else (table w)(std := table w fd, fd := None))"
proof (cases "fd = -1")
  case False
  obtain ret v where d: "os_dup2 api fd std w = (ret, v)" by fastforce
  then have "ret \<noteq> -1" "w' = os_close api fd v"
    using assms(2) False by (auto simp: redirect_def split: if_splits)
  then show ?thesis
    using table_dup2 [OF assms(1) d] table_close [OF assms(1)] False by (simp add: fun_eq_iff)
qed (use assms in \<open>simp add: redirect_def\<close>)

text \<open>
  C31: the redirections connect the child's standard output and standard error with the write ends
  of the two pipes and close every other end of them, when the pipes' descriptors lie above 2. But
  a pipe whose write end is descriptor 1 itself, as a parent gets it that closed its own standard
  output, is closed by its own redirection: the child has no standard output.
\<close>

theorem child_streams_go_to_the_pipes:
  assumes laws: "table_laws api table"
    and ends: "distinct [r, e, r', e']" "-1 \<notin> {r, e, r', e'}"
    and redirected: "redirections api e e' (close_read_ends api (r, e) (r', e') w) = Inr w'"
  shows "(2 < r \<and> 2 < e \<and> 2 < r' \<and> 2 < e' \<longrightarrow>
      table w' = (table w)(1 := table w e, 2 := table w e', r := None, e := None, r' := None, e' := None)) \<and>
    (e = 1 \<longrightarrow> table w' 1 = None)"
proof -
  obtain w1 where r1: "redirect api e 1 (close_read_ends api (r, e) (r', e') w) = Inr w1"
    and r2: "redirect api e' 2 w1 = Inr w'"
    using redirected by (auto simp: redirections_def split: sum.splits)
  have t: "table (close_read_ends api (r, e) (r', e') w) = (table w)(r := None, r' := None)"
    using ends(2) by (simp add: close_read_ends_def table_close_if_open [OF laws] fun_eq_iff)
  have t': "table w' = (table w)(r := None, r' := None, 1 := table w e, e := None, 2 := table w e', e' := None)"
    if "e' \<noteq> 1"
    using redirect_table [OF laws r2] redirect_table [OF laws r1] t ends that by (auto simp: fun_eq_iff)
  have "table w' 1 = None" if "e = 1"
    using redirect_table [OF laws r2] redirect_table [OF laws r1] ends that by auto
  moreover have "table w' = (table w)(1 := table w e, 2 := table w e', r := None, e := None, r' := None, e' := None)"
    if "2 < r" "2 < e" "2 < r'" "2 < e'"
    using t' that by (auto simp: fun_eq_iff)
  ultimately show ?thesis by blast
qed

theorem child_streams_go_to_the_pipes_witness:
  "\<exists>w'. redirections demo_api 4 6 (close_read_ends demo_api (3, 4) (5, 6)
      ((\<lambda>_. None)(3 \<mapsto> 40, 4 \<mapsto> 40, 5 \<mapsto> 60, 6 \<mapsto> 60), 7, 0)) = Inr w' \<and>
    fst w' = (\<lambda>fd. if fd = 1 then Some 40 else if fd = 2 then Some 60 else None)"
proof -
  let ?t = "(\<lambda>_. None)(3 \<mapsto> 40, 4 \<mapsto> 40, 5 \<mapsto> 60, 6 \<mapsto> 60) :: int \<Rightarrow> nat option"
  obtain w' where w': "redirections demo_api 4 6 (close_read_ends demo_api (3, 4) (5, 6) (?t, 7, 0)) = Inr w'"
    by (simp add: redirections_def redirect_def close_read_ends_def close_if_open_def demo_api_def)
  from child_streams_go_to_the_pipes [OF demo_laws _ _ w']
  have "fst w' = ?t(1 := ?t 4, 2 := ?t 6, 3 := None, 4 := None, 5 := None, 6 := None)"
    by simp
  then show ?thesis using w' by (intro exI [of _ w']) (simp add: fun_eq_iff)
qed

end
