(* ===== verification/Process_Collect.thy ===== *)
theory Process_Collect
  imports Process_Model
begin

text \<open>
  \<^verbatim>\<open>Process::collect_result\<close> against a running child: the thread that reads standard output to
  its end, then standard error to its end, and then waits for the child, which writes to both
  through pipes of a bounded capacity. A step is one byte written by the child, one
  \<^verbatim>\<open>read\<close>, or the end of a loop; a pipe is the bounded queue POSIX describes: a writer waits for
  room, a reader for a byte or for the end of file, which comes when the child is gone.
\<close>

section \<open>The child and the collector\<close>

datatype child_write = Out "8 word" | Err "8 word"

text \<open>The place in \<^verbatim>\<open>collect_result\<close>.\<close>

datatype collect_phase = Reading_Out | Reading_Err | Waiting_Child | Collected

record collection =
  out_redirected :: bool
  err_redirected :: bool
  script :: "child_write list"
  child_gone :: bool
  out_pipe :: out_bytes
  err_pipe :: out_bytes
  phase :: collect_phase
  out_got :: out_bytes
  err_got :: out_bytes

text \<open>\<^verbatim>\<open>read_pipe(-1)\<close> returns at once: the phases of streams not redirected are skipped.\<close>

definition after_out :: "bool \<Rightarrow> collect_phase" where
  "after_out err = (if err then Reading_Err else Waiting_Child)"

definition collection_init :: "bool \<Rightarrow> bool \<Rightarrow> child_write list \<Rightarrow> collection" where
  "collection_init out err writes =
     \<lparr>out_redirected = out, err_redirected = err, script = writes, child_gone = False, out_pipe = [], err_pipe = [],
      phase = (if out then Reading_Out else after_out err), out_got = [], err_got = []\<rparr>"

datatype collect_action = Child_Step | Read_Some nat | Read_End | Wait4

text \<open>The child's next step: a byte, if there is room for it, or the end.\<close>

definition child_step :: "nat \<Rightarrow> collection \<Rightarrow> collection option" where
  "child_step cap s =
     (case script s of
        [] \<Rightarrow> if child_gone s then None else Some (s\<lparr>child_gone := True\<rparr>)
      | Out b # writes \<Rightarrow>
          if \<not> out_redirected s then Some (s\<lparr>script := writes\<rparr>)
          else if length (out_pipe s) < cap then Some (s\<lparr>script := writes, out_pipe := out_pipe s @ [b]\<rparr>) else None
      | Err b # writes \<Rightarrow>
          if \<not> err_redirected s then Some (s\<lparr>script := writes\<rparr>)
          else if length (err_pipe s) < cap then Some (s\<lparr>script := writes, err_pipe := err_pipe s @ [b]\<rparr>) else None)"

text \<open>One \<^verbatim>\<open>read\<close>: some bytes of those there, at most 4096; or none, at the end of the file.\<close>

definition read_some :: "nat \<Rightarrow> collection \<Rightarrow> collection option" where
  "read_some n s =
     (if 0 < n \<and> n \<le> 4096 then
        case phase s of
          Reading_Out \<Rightarrow>
            if n \<le> length (out_pipe s)
            then Some (s\<lparr>out_got := out_got s @ take n (out_pipe s), out_pipe := drop n (out_pipe s)\<rparr>) else None
        | Reading_Err \<Rightarrow>
            if n \<le> length (err_pipe s)
            then Some (s\<lparr>err_got := err_got s @ take n (err_pipe s), err_pipe := drop n (err_pipe s)\<rparr>) else None
        | _ \<Rightarrow> None
      else None)"

definition read_end :: "collection \<Rightarrow> collection option" where
  "read_end s =
     (case phase s of
        Reading_Out \<Rightarrow>
          if child_gone s \<and> out_pipe s = [] then Some (s\<lparr>phase := after_out (err_redirected s)\<rparr>) else None
      | Reading_Err \<Rightarrow> if child_gone s \<and> err_pipe s = [] then Some (s\<lparr>phase := Waiting_Child\<rparr>) else None
      | _ \<Rightarrow> None)"

definition wait_child :: "collection \<Rightarrow> collection option" where
  "wait_child s = (if phase s = Waiting_Child \<and> child_gone s then Some (s\<lparr>phase := Collected\<rparr>) else None)"

fun collect_exec :: "nat \<Rightarrow> collect_action \<Rightarrow> collection \<Rightarrow> collection option" where
  "collect_exec cap Child_Step s = child_step cap s"
| "collect_exec cap (Read_Some n) s = read_some n s"
| "collect_exec cap Read_End s = read_end s"
| "collect_exec cap Wait4 s = wait_child s"

definition collect_step :: "nat \<Rightarrow> collection \<Rightarrow> collect_action \<Rightarrow> collection \<Rightarrow> bool" where
  "collect_step cap s l s' \<longleftrightarrow> collect_exec cap l s = Some s'"

lemmas collect_defs [op_defs] = child_step_def read_some_def read_end_def wait_child_def collect_step_def

section \<open>Invariant\<close>

fun outs :: "child_write list \<Rightarrow> out_bytes" where
  "outs [] = []"
| "outs (Out b # ws) = b # outs ws"
| "outs (Err b # ws) = outs ws"

fun errs :: "child_write list \<Rightarrow> out_bytes" where
  "errs [] = []"
| "errs (Out b # ws) = errs ws"
| "errs (Err b # ws) = b # errs ws"

text \<open>
  What the child has written to a redirected stream is what was read of it and what is still in
  the pipe; nothing of standard error is read before standard output has ended.
\<close>

definition byte_flow :: "child_write list \<Rightarrow> nat \<Rightarrow> collection \<Rightarrow> bool" where
  "byte_flow writes cap s \<longleftrightarrow>
     (out_redirected s \<longrightarrow> out_got s @ out_pipe s @ outs (script s) = outs writes) \<and>
     (err_redirected s \<longrightarrow> err_got s @ err_pipe s @ errs (script s) = errs writes) \<and>
     (\<not> out_redirected s \<longrightarrow> out_got s = [] \<and> out_pipe s = []) \<and>
     (\<not> err_redirected s \<longrightarrow> err_got s = [] \<and> err_pipe s = []) \<and>
     length (err_pipe s) \<le> cap \<and> (child_gone s \<longrightarrow> script s = [])"

fun phase_inv :: "collection \<Rightarrow> collect_phase \<Rightarrow> bool" where
  "phase_inv s Reading_Out = (out_redirected s \<and> err_got s = [])"
| "phase_inv s Reading_Err = (err_redirected s \<and> (out_redirected s \<longrightarrow> child_gone s) \<and> out_pipe s = [])"
| "phase_inv s Waiting_Child =
     ((out_redirected s \<or> err_redirected s \<longrightarrow> child_gone s) \<and> out_pipe s = [] \<and> err_pipe s = [])"
| "phase_inv s Collected = (child_gone s \<and> out_pipe s = [] \<and> err_pipe s = [])"

lemma take_drop_append: "take n xs @ drop n xs @ ys = xs @ ys"
  by (simp flip: append_assoc)

lemma byte_flow_child: "child_step cap s = Some s' \<Longrightarrow> byte_flow writes cap s \<Longrightarrow> byte_flow writes cap s'"
  by (cases "script s"; cases "hd (script s)") (simp_all add: child_step_def byte_flow_def split: if_splits, auto)

lemma byte_flow_read: "read_some n s = Some s' \<Longrightarrow> byte_flow writes cap s \<Longrightarrow> byte_flow writes cap s'"
  by (cases "phase s") (simp_all add: read_some_def byte_flow_def split: if_splits, auto simp: take_drop_append)

lemma byte_flow_end:
  "read_end s = Some s' \<Longrightarrow> byte_flow writes cap s \<Longrightarrow> byte_flow writes cap s'"
  "wait_child s = Some s' \<Longrightarrow> byte_flow writes cap s \<Longrightarrow> byte_flow writes cap s'"
  by (cases "phase s") (auto simp: read_end_def wait_child_def byte_flow_def split: if_splits)

lemma phase_inv_child:
  "child_step cap s = Some s' \<Longrightarrow> phase_inv s (phase s) \<Longrightarrow> byte_flow writes cap s \<Longrightarrow> phase_inv s' (phase s')"
  by (cases "script s"; cases "hd (script s)"; cases "phase s")
    (simp_all add: child_step_def byte_flow_def split: if_splits, auto)

lemma phase_inv_read:
  "read_some n s = Some s' \<Longrightarrow> phase_inv s (phase s) \<Longrightarrow> phase_inv s' (phase s')"
  by (cases "phase s") (auto simp: read_some_def split: if_splits)

lemma phase_inv_end:
  "read_end s = Some s' \<Longrightarrow> phase_inv s (phase s) \<Longrightarrow> byte_flow writes cap s \<Longrightarrow> phase_inv s' (phase s')"
  "wait_child s = Some s' \<Longrightarrow> phase_inv s (phase s) \<Longrightarrow> phase_inv s' (phase s')"
  by (cases "phase s"; auto simp: read_end_def wait_child_def byte_flow_def after_out_def split: if_splits)+

lemma child_redirections:
  "child_step cap s = Some s' \<Longrightarrow> out_redirected s' = out_redirected s \<and> err_redirected s' = err_redirected s"
  by (auto simp: child_step_def split: if_splits list.splits child_write.splits)

lemma read_redirections:
  "read_some n s = Some s' \<Longrightarrow> out_redirected s' = out_redirected s \<and> err_redirected s' = err_redirected s"
  by (cases "phase s") (auto simp: read_some_def split: if_splits)

lemma end_redirections:
  "read_end s = Some s' \<Longrightarrow> out_redirected s' = out_redirected s \<and> err_redirected s' = err_redirected s"
  "wait_child s = Some s' \<Longrightarrow> out_redirected s' = out_redirected s \<and> err_redirected s' = err_redirected s"
  by (cases "phase s"; auto simp: read_end_def wait_child_def split: if_splits)+

lemma redirections_kept:
  "collect_step cap s l s' \<Longrightarrow> out_redirected s' = out_redirected s \<and> err_redirected s' = err_redirected s"
  by (cases l) (simp_all add: collect_step_def child_redirections read_redirections end_redirections)

definition collect_inv :: "bool \<Rightarrow> bool \<Rightarrow> child_write list \<Rightarrow> nat \<Rightarrow> collection \<Rightarrow> bool" where
  "collect_inv ro re writes cap s \<longleftrightarrow>
     out_redirected s = ro \<and> err_redirected s = re \<and> byte_flow writes cap s \<and> phase_inv s (phase s)"

lemma collect_inv_step:
  assumes "collect_step cap s l s'" and "collect_inv ro re writes cap s"
  shows "collect_inv ro re writes cap s'"
proof -
  have "byte_flow writes cap s' \<and> phase_inv s' (phase s')"
    using assms unfolding collect_inv_def collect_step_def
    by (cases l) (auto dest: byte_flow_child byte_flow_read byte_flow_end phase_inv_child phase_inv_read phase_inv_end)
  with redirections_kept [OF assms(1)] assms(2) show ?thesis by (simp add: collect_inv_def)
qed

lemma collect_inv_init: "collect_inv ro re writes cap (collection_init ro re writes)"
  by (simp add: collect_inv_def collection_init_def after_out_def byte_flow_def)

interpretation collecting: unconditional_invariant "collect_step cap" "collect_inv ro re writes cap"
  for cap ro re writes
  by unfold_locales (rule collect_inv_step)

lemma collect_inv_reachable:
  "run (collect_step cap) (collection_init ro re writes) ls s \<Longrightarrow> collect_inv ro re writes cap s"
  by (rule collecting.inv_reaches [OF reachesI collect_inv_init])

section \<open>Every run ends\<close>

fun phase_rank :: "collect_phase \<Rightarrow> nat" where
  "phase_rank Reading_Out = 3"
| "phase_rank Reading_Err = 2"
| "phase_rank Waiting_Child = 1"
| "phase_rank Collected = 0"

definition work_left :: "collection \<Rightarrow> nat" where
  "work_left s = 2 * length (script s) + length (out_pipe s) + length (err_pipe s) +
     (if child_gone s then 0 else 1) + phase_rank (phase s)"

lemma work_left_step: "collect_step cap s l s' \<Longrightarrow> work_left s' < work_left s"
  by (cases l; cases "phase s")
    (auto simp: op_defs work_left_def after_out_def split: if_splits list.splits child_write.splits)

lemma work_left_run: "run (collect_step cap) s ls s' \<Longrightarrow> length ls + work_left s' \<le> work_left s"
proof (induction rule: run.induct)
  case (run_cons s l t ls u)
  with work_left_step [of cap s l t] show ?case by simp
qed simp

lemma child_can_move:
  assumes "\<not> child_gone s" and "out_redirected s \<Longrightarrow> length (out_pipe s) < cap"
    and "\<And>b ws. script s = Err b # ws \<Longrightarrow> err_redirected s \<Longrightarrow> length (err_pipe s) < cap"
  shows "\<exists>l s'. collect_step cap s l s'"
proof -
  have "\<exists>s'. child_step cap s = Some s'"
    using assms by (auto simp: child_step_def split: list.split child_write.split)
  then show ?thesis
    by (auto simp: collect_step_def intro!: exI [of _ Child_Step])
qed

text \<open>Unless standard error outgrows its pipe while standard output is read, something can move.\<close>

lemma collect_progress:
  assumes inv: "collect_inv ro re writes cap s" and cap: "0 < cap"
    and fits: "ro \<Longrightarrow> re \<Longrightarrow> length (errs writes) \<le> cap" and "phase s \<noteq> Collected"
  shows "\<exists>l s'. collect_step cap s l s'"
proof -
  have flow: "byte_flow writes cap s" and ph: "phase_inv s (phase s)"
    and red: "out_redirected s = ro" "err_redirected s = re"
    using inv by (simp_all add: collect_inv_def)
  consider (out) "phase s = Reading_Out" | (err) "phase s = Reading_Err" | (wait) "phase s = Waiting_Child"
    using assms(4) by (cases "phase s") auto
  then show ?thesis
  proof cases
    case out
    consider "out_pipe s \<noteq> []" | "out_pipe s = []" "child_gone s" | "out_pipe s = []" "\<not> child_gone s" by blast
    then show ?thesis
    proof cases
      case 3
      have "length (err_pipe s) < cap" if "script s = Err b # ws" "err_redirected s" for b ws
      proof -
        have "length (errs writes) = length (err_pipe s) + Suc (length (errs ws))"
          using flow ph out that by (auto simp: byte_flow_def dest!: arg_cong [of _ _ length])
        then show ?thesis using fits red that ph out by simp
      qed
      then show ?thesis using child_can_move 3 cap by simp
    qed (use out in \<open>auto simp: collect_step_def read_some_def read_end_def Suc_le_eq
        intro: exI [of _ "Read_Some 1"] exI [of _ Read_End]\<close>)
  next
    case err
    consider "err_pipe s \<noteq> []" | "err_pipe s = []" "child_gone s" | "err_pipe s = []" "\<not> child_gone s" by blast
    then show ?thesis
    proof cases
      case 3
      then show ?thesis using child_can_move [of s cap] ph err cap by auto
    qed (use err in \<open>auto simp: collect_step_def read_some_def read_end_def Suc_le_eq
        intro: exI [of _ "Read_Some 1"] exI [of _ Read_End]\<close>)
  next
    case wait
    show ?thesis
    proof (cases "child_gone s")
      case True
      then show ?thesis using wait by (auto simp: collect_step_def wait_child_def intro: exI [of _ Wait4])
    next
      case False
      then show ?thesis using child_can_move [of s cap] ph wait by auto
    qed
  qed
qed

section \<open>The outcome\<close>

lemma collected_outputs:
  assumes "collect_inv ro re writes cap s" and "phase s = Collected"
  shows "out_got s = (if ro then outs writes else []) \<and> err_got s = (if re then errs writes else [])"
  using assms by (auto simp: collect_inv_def byte_flow_def)

lemma collect_can_finish:
  assumes "collect_inv ro re writes cap s" and "0 < cap" and "ro \<Longrightarrow> re \<Longrightarrow> length (errs writes) \<le> cap"
  shows "\<exists>ls s'. run (collect_step cap) s ls s' \<and> phase s' = Collected"
  using assms(1)
proof (induction "work_left s" arbitrary: s rule: less_induct)
  case less
  show ?case
  proof (cases "phase s = Collected")
    case False
    then obtain l t where t: "collect_step cap s l t"
      using collect_progress [OF less.prems assms(2,3)] by blast
    from less.hyps [OF work_left_step [OF t] collect_inv_step [OF t less.prems]] t show ?thesis
      by (blast intro: run_cons)
  qed blast
qed

text \<open>
  C17: the collector gets everything. When the child writes no more to standard error than a pipe
  holds (or only one of the streams is redirected), every run of the child and the collector, in
  whatever order they take turns, can be continued until the collector is done, no run has more
  steps than twice the bytes written and four, and at the end the collected outputs are exactly
  the bytes the child wrote, in order.
\<close>

theorem collector_gets_the_whole_output:
  assumes "0 < cap" and "ro \<Longrightarrow> re \<Longrightarrow> length (errs writes) \<le> cap"
    and "run (collect_step cap) (collection_init ro re writes) ls s"
  shows "length ls \<le> 2 * length writes + 4 \<and>
    (\<exists>ms s'. run (collect_step cap) s ms s' \<and> phase s' = Collected \<and>
      out_got s' = (if ro then outs writes else []) \<and> err_got s' = (if re then errs writes else []))"
proof -
  note inv = collect_inv_reachable [OF assms(3)]
  have "work_left (collection_init ro re writes) \<le> 2 * length writes + 4"
    by (simp add: work_left_def collection_init_def after_out_def)
  with work_left_run [OF assms(3)] have "length ls \<le> 2 * length writes + 4" by simp
  moreover obtain ms s' where "run (collect_step cap) s ms s'" "phase s' = Collected"
    using collect_can_finish [OF inv assms(1,2)] by blast
  moreover from this(1) have "collect_inv ro re writes cap s'"
    by (rule collecting.inv_reaches [OF reachesI inv])
  ultimately show ?thesis using collected_outputs by blast
qed

theorem collector_gets_the_whole_output_witness:
  "\<exists>ms s'. run (collect_step 1) (collection_init True True [Err 1, Out 2, Out 3]) ms s' \<and>
     out_got s' = [2, 3] \<and> err_got s' = [1]"
  using collector_gets_the_whole_output [of 1 True True "[Err 1, Out 2, Out 3]" "[]"] by auto

text \<open>
  C19: the collector waits forever when both streams are redirected and the child writes more to
  standard error than a pipe holds: every run stays in the loop that reads standard output, since
  the child blocks on the full pipe and never comes to the end of its output, and after at most
  twice the bytes written and four steps nothing moves any more.
\<close>

theorem collector_deadlocks_on_standard_error:
  assumes "cap < length (errs writes)" and "run (collect_step cap) (collection_init True True writes) ls s"
  shows "phase s = Reading_Out \<and> \<not> child_gone s \<and> length ls \<le> 2 * length writes + 4"
proof -
  have inv: "collect_inv True True writes cap s"
    by (rule collect_inv_reachable [OF assms(2)])
  moreover have "work_left (collection_init True True writes) = 2 * length writes + 4"
    by (simp add: work_left_def collection_init_def)
  moreover have "phase s = Reading_Out"
    using assms(2)
  proof (induction ls arbitrary: s rule: rev_induct)
    case Nil
    then show ?case by (auto simp: collection_init_def)
  next
    case (snoc l ls)
    then obtain t where t: "run (collect_step cap) (collection_init True True writes) ls t" "collect_step cap t l s"
      by (auto simp: run_append_iff)
    then have "phase t = Reading_Out" using snoc.IH by blast
    moreover have "\<not> child_gone t"
      using collect_inv_reachable [OF t(1)] \<open>phase t = Reading_Out\<close> assms(1)
      by (auto simp: collect_inv_def byte_flow_def)
    ultimately show ?case
      using t(2) by (cases l) (auto simp: op_defs split: if_splits list.splits child_write.splits)
  qed
  ultimately show ?thesis
    using work_left_run [OF assms(2)] assms(1) by (auto simp: collect_inv_def byte_flow_def)
qed

theorem collector_deadlocks_on_standard_error_witness:
  "\<exists>s. run (collect_step 1) (collection_init True True [Err 1, Err 2]) [Child_Step] s \<and>
     phase s = Reading_Out \<and> \<not> child_gone s \<and> (\<forall>l t. \<not> collect_step 1 s l t)"
proof -
  obtain s where s: "run (collect_step 1) (collection_init True True [Err 1, Err 2]) [Child_Step] s"
    and eq: "s = (collection_init True True [Err 1, Err 2])\<lparr>script := [Err 2], err_pipe := [1]\<rparr>"
    by (simp add: run_Cons_iff collect_step_def child_step_def collection_init_def)
  have "\<not> collect_step 1 s l t" for l t
    by (cases l) (simp_all add: op_defs eq collection_init_def)
  moreover have "phase s = Reading_Out \<and> \<not> child_gone s"
    using collector_deadlocks_on_standard_error [OF _ s] by simp
  ultimately show ?thesis using s by blast
qed

end
