(* ===== verification/Process_Output.thy ===== *)
theory Process_Output
  imports Process_Collect "HOL-Library.Sublist"
begin

text \<open>
  What \<^verbatim>\<open>Process::start\<close> gives back: the child's output and its status. The system is the
  parameter of \<open>Process_Model\<close>; what is relied on of it is that its \<^verbatim>\<open>read\<close>,
  \<^verbatim>\<open>close\<close> and \<^verbatim>\<open>wait4\<close> are those of a running child on two bounded pipes, as
  \<open>Process_Collect\<close> has it. The program's loops are then a run of the collector there, and what is
  known of such runs carries over: the whole output, or no return at all.
\<close>

section \<open>What is relied on of the system\<close>

text \<open>
  \<open>view\<close> is the part of the system's state that is the child and its two pipes (the collector's
  place and what it has got are the program's, not the system's, and are not looked at in a view).
  The child may move at any time; what it does before a call returns is its share of the call.
\<close>

definition child_run :: "nat \<Rightarrow> collection \<Rightarrow> collection \<Rightarrow> bool" where
  "child_run cap s s' \<longleftrightarrow> (\<exists>ls. run (collect_step cap) s ls s' \<and> set ls \<subseteq> {Child_Step})"

text \<open>A child that has not ended and cannot go on, since the pipe it writes to is full.\<close>

definition child_stuck :: "nat \<Rightarrow> collection \<Rightarrow> bool" where
  "child_stuck cap s \<longleftrightarrow> \<not> child_gone s \<and> child_step cap s = None"

text \<open>
  \<^verbatim>\<open>read\<close> of a pipe's read end, as POSIX has it, at every descriptor that refers to \<open>file\<close>:
  it returns some of the bytes that are there, at most as many as asked for; it returns 0 when there
  are none and no writer is left; it waits while there are none and a writer is left, so that it
  waits forever only if the child never writes nor ends, being stuck. It may fail, for one when a
  signal is caught, unless \<open>calm\<close> holds of the state: no handler interrupts the process's calls,
  and nobody else waits for its children. \<open>put\<close> stores what is left of the bytes.
\<close>

definition pipe_law ::
  "'o os_api \<Rightarrow> ('o \<Rightarrow> int \<Rightarrow> 'f option) \<Rightarrow> ('o \<Rightarrow> collection) \<Rightarrow> ('o \<Rightarrow> bool) \<Rightarrow> nat \<Rightarrow>
   int \<Rightarrow> 'f option \<Rightarrow> (collection \<Rightarrow> out_bytes) \<Rightarrow> (out_bytes \<Rightarrow> collection \<Rightarrow> collection) \<Rightarrow> bool"
where
  "pipe_law api table view calm cap fd file bytes put \<longleftrightarrow>
     (\<forall>w n. table w fd = file \<longrightarrow> 0 < n \<longrightarrow>
        (\<exists>s. child_run cap (view w) s \<and>
          (case os_read api fd n w of
             None \<Rightarrow> bytes s = [] \<and> child_stuck cap s
           | Some (k, buf, w') \<Rightarrow>
               (calm w \<longrightarrow> calm w' \<and> 0 \<le> k) \<and>
               (if 0 < k
                then nat k \<le> n \<and> nat k \<le> length (bytes s) \<and> take (nat k) buf = take (nat k) (bytes s) \<and>
                     view w' = put (drop (nat k) (bytes s)) s
                else view w' = s \<and> (k = 0 \<longrightarrow> bytes s = [] \<and> child_gone s)))))"

text \<open>
  The laws of a started child: the two pipes; \<^verbatim>\<open>close\<close> of a read end does nothing to a child
  that is gone; and \<^verbatim>\<open>wait4\<close> gives the child's status and usage, and waits forever only for
  a child that is stuck. \<open>now\<close> is the descriptor table when the child was started.
\<close>

definition child_laws ::
  "'o os_api \<Rightarrow> ('o \<Rightarrow> int \<Rightarrow> 'f option) \<Rightarrow> ('o \<Rightarrow> collection) \<Rightarrow> ('o \<Rightarrow> bool) \<Rightarrow> nat \<Rightarrow>
   collector \<Rightarrow> (int \<Rightarrow> 'f option) \<Rightarrow> 32 word \<Rightarrow> usage \<Rightarrow> bool"
where
  "child_laws api table view calm cap c now st u \<longleftrightarrow>
     (col_stdout c \<noteq> -1 \<longrightarrow>
        pipe_law api table view calm cap (col_stdout c) (now (col_stdout c)) out_pipe (\<lambda>b s. s\<lparr>out_pipe := b\<rparr>)) \<and>
     (col_stderr c \<noteq> -1 \<longrightarrow>
        pipe_law api table view calm cap (col_stderr c) (now (col_stderr c)) err_pipe (\<lambda>b s. s\<lparr>err_pipe := b\<rparr>)) \<and>
     (\<forall>fd \<in> {col_stdout c, col_stderr c}. \<forall>w. calm w \<longrightarrow> child_gone (view w) \<longrightarrow>
        calm (os_close api fd w) \<and> view (os_close api fd w) = view w) \<and>
     (\<forall>w. calm w \<longrightarrow>
        (case os_wait4 api (col_pid c) w of
           None \<Rightarrow> \<exists>s. child_run cap (view w) s \<and> child_stuck cap s
         | Some (waited, w') \<Rightarrow> waited = Some (st, u)))"

section \<open>The program's loops as runs of the collector\<close>

text \<open>The child of \<open>s\<close> with a collector at \<open>ph\<close> that has got \<open>og\<close> and \<open>eg\<close>.\<close>

definition collecting_at :: "collect_phase \<Rightarrow> out_bytes \<Rightarrow> out_bytes \<Rightarrow> collection \<Rightarrow> collection" where
  "collecting_at ph og eg s = s\<lparr>phase := ph, out_got := og, err_got := eg\<rparr>"

lemma collecting_at_simps [simp]:
  "script (collecting_at ph og eg s) = script s" "child_gone (collecting_at ph og eg s) = child_gone s"
  "out_pipe (collecting_at ph og eg s) = out_pipe s" "err_pipe (collecting_at ph og eg s) = err_pipe s"
  "out_redirected (collecting_at ph og eg s) = out_redirected s"
  "err_redirected (collecting_at ph og eg s) = err_redirected s"
  "phase (collecting_at ph og eg s) = ph" "out_got (collecting_at ph og eg s) = og"
  "err_got (collecting_at ph og eg s) = eg"
  by (simp_all add: collecting_at_def)

lemma child_step_collecting_at:
  "child_step cap (collecting_at ph og eg s) = map_option (collecting_at ph og eg) (child_step cap s)"
  by (simp add: child_step_def collecting_at_def split: list.split child_write.split)

lemma child_run_collecting_at:
  assumes "child_run cap s s'"
  shows "child_run cap (collecting_at ph og eg s) (collecting_at ph og eg s')"
proof -
  obtain ls where "run (collect_step cap) s ls s'" "set ls \<subseteq> {Child_Step}"
    using assms by (auto simp: child_run_def)
  then have "run (collect_step cap) (collecting_at ph og eg s) ls (collecting_at ph og eg s')"
  proof (induction rule: run.induct)
    case (run_cons s l t ls u)
    then have "collect_step cap (collecting_at ph og eg s) l (collecting_at ph og eg t)"
      by (simp add: collect_step_def child_step_collecting_at)
    with run_cons show ?case by (auto intro: run.run_cons)
  qed simp
  with \<open>set ls \<subseteq> {Child_Step}\<close> show ?thesis by (auto simp: child_run_def)
qed

lemma child_run_work: "child_run cap s s' \<Longrightarrow> work_left s' \<le> work_left s"
  by (auto simp: child_run_def dest: work_left_run)

lemma child_run_gone:
  assumes "child_run cap s s'" and "child_gone s"
  shows "child_gone s'"
proof -
  obtain ls where "run (collect_step cap) s ls s'" "set ls \<subseteq> {Child_Step}"
    using assms(1) by (auto simp: child_run_def)
  then show ?thesis using assms(2)
    by (induction rule: run.induct) (auto simp: op_defs split: list.splits child_write.splits if_splits)
qed

text \<open>
  A loop over a pipe, seen from any state \<open>M\<close> of a collector that reads it: what it has read
  when it returns, or when it waits forever, is what the collector has got by then.
\<close>

lemma read_all_collects:
  assumes laws: "table_laws api table" and law: "pipe_law api table view calm cap fd file bytes put"
    and child: "\<And>s s' got. child_run cap s s' \<Longrightarrow> child_run cap (M s got) (M s' got)"
    and reads: "\<And>s got k. 0 < k \<Longrightarrow> k \<le> 4096 \<Longrightarrow> k \<le> length (bytes s) \<Longrightarrow>
      collect_step cap (M s got) (Read_Some k) (M (put (drop k (bytes s)) s) (got @ take k (bytes s)))"
    and "table w fd = file"
  shows "\<exists>ls s got. run (collect_step cap) (M (view w) acc) ls (M s got) \<and>
    (case read_all api fd acc w of
       None \<Rightarrow> bytes s = [] \<and> child_stuck cap s
     | Some (res, w') \<Rightarrow> s = view w' \<and> got = res \<and> table w' = table w \<and>
         (calm w \<longrightarrow> calm w' \<and> bytes s = [] \<and> child_gone s))"
  using assms(5)
proof (induction "work_left (M (view w) acc)" arbitrary: w acc rule: less_induct)
  case less
  obtain s where s: "child_run cap (view w) s" and r: "case os_read api fd 4096 w of
      None \<Rightarrow> bytes s = [] \<and> child_stuck cap s
    | Some (k, buf, w') \<Rightarrow> (calm w \<longrightarrow> calm w' \<and> 0 \<le> k) \<and>
        (if 0 < k then nat k \<le> 4096 \<and> nat k \<le> length (bytes s) \<and> take (nat k) buf = take (nat k) (bytes s) \<and>
           view w' = put (drop (nat k) (bytes s)) s
         else view w' = s \<and> (k = 0 \<longrightarrow> bytes s = [] \<and> child_gone s))"
    using law [unfolded pipe_law_def, rule_format, OF less.prems, of 4096] by auto
  obtain ls where ls: "run (collect_step cap) (M (view w) acc) ls (M s acc)"
    using child [OF s] by (auto simp: child_run_def)
  show ?case
  proof (cases "os_read api fd 4096 w")
    case None
    with r ls show ?thesis by (subst read_all.simps) auto
  next
    case (Some x)
    obtain k buf w' where x: "x = (k, buf, w')" by (cases x)
    have tw: "table w' = table w" using table_read [OF laws] Some x by blast
    show ?thesis
    proof (cases "0 < k")
      case False
      with r ls Some x tw show ?thesis by (subst read_all.simps) fastforce
    next
      case True
      let ?acc = "acc @ take (nat k) buf"
      have k: "0 < nat k" "nat k \<le> 4096" "nat k \<le> length (bytes s)" "take (nat k) buf = take (nat k) (bytes s)"
        "view w' = put (drop (nat k) (bytes s)) s" "calm w \<longrightarrow> calm w'"
        using r Some x True by auto
      have st: "collect_step cap (M s acc) (Read_Some (nat k)) (M (view w') ?acc)"
        using reads [OF k(1-3)] k(4,5) by simp
      have "work_left (M (view w') ?acc) < work_left (M (view w) acc)"
        using work_left_step [OF st] child_run_work [OF child [OF s]] by (meson less_le_trans)
      from less.hyps [OF this] less.prems tw obtain ms t got where
        ms: "run (collect_step cap) (M (view w') ?acc) ms (M t got)"
          "case read_all api fd ?acc w' of
             None \<Rightarrow> bytes t = [] \<and> child_stuck cap t
           | Some (res, w'') \<Rightarrow> t = view w'' \<and> got = res \<and> table w'' = table w' \<and>
               (calm w' \<longrightarrow> calm w'' \<and> bytes t = [] \<and> child_gone t)"
        by auto
      have "run (collect_step cap) (M (view w) acc) (ls @ Read_Some (nat k) # ms) (M t got)"
        by (rule run_append [OF ls run_cons [OF st ms(1)]])
      moreover have "read_all api fd acc w = read_all api fd ?acc w'"
        using Some x True by (subst read_all.simps) simp
      ultimately show ?thesis
        using ms(2) tw k(6) by (intro exI conjI) (auto split: option.splits)
    qed
  qed
qed

text \<open>\<^verbatim>\<open>read_pipe\<close> on the two pipes.\<close>

lemma read_out_collects:
  assumes laws: "table_laws api table" and "fd \<noteq> -1"
    and law: "pipe_law api table view calm cap fd (table w fd) out_pipe (\<lambda>b s. s\<lparr>out_pipe := b\<rparr>)"
  shows "\<exists>ls s got. run (collect_step cap) (collecting_at Reading_Out [] eg (view w)) ls (collecting_at Reading_Out got eg s) \<and>
    (case read_pipe api fd w of
       None \<Rightarrow> out_pipe s = [] \<and> child_stuck cap s
     | Some (res, w') \<Rightarrow> s = view w' \<and> got = res \<and> table w' = table w \<and>
         (calm w \<longrightarrow> calm w' \<and> out_pipe s = [] \<and> child_gone s))"
proof -
  have "collect_step cap (collecting_at Reading_Out got eg s) (Read_Some k)
      (collecting_at Reading_Out (got @ take k (out_pipe s)) eg (s\<lparr>out_pipe := drop k (out_pipe s)\<rparr>))"
    if "0 < k" "k \<le> 4096" "k \<le> length (out_pipe s)" for s got k
    using that by (simp add: collect_step_def read_some_def collecting_at_def)
  from read_all_collects [where M = "\<lambda>s got. collecting_at Reading_Out got eg s", OF laws law child_run_collecting_at this]
  show ?thesis using assms(2) by (simp add: read_pipe_def)
qed

lemma read_err_collects:
  assumes laws: "table_laws api table" and "fd \<noteq> -1"
    and law: "pipe_law api table view calm cap fd (table w fd) err_pipe (\<lambda>b s. s\<lparr>err_pipe := b\<rparr>)"
  shows "\<exists>ls s got. run (collect_step cap) (collecting_at Reading_Err og [] (view w)) ls (collecting_at Reading_Err og got s) \<and>
    (case read_pipe api fd w of
       None \<Rightarrow> err_pipe s = [] \<and> child_stuck cap s
     | Some (res, w') \<Rightarrow> s = view w' \<and> got = res \<and> table w' = table w \<and>
         (calm w \<longrightarrow> calm w' \<and> err_pipe s = [] \<and> child_gone s))"
proof -
  have "collect_step cap (collecting_at Reading_Err og got s) (Read_Some k)
      (collecting_at Reading_Err og (got @ take k (err_pipe s)) (s\<lparr>err_pipe := drop k (err_pipe s)\<rparr>))"
    if "0 < k" "k \<le> 4096" "k \<le> length (err_pipe s)" for s got k
    using that by (simp add: collect_step_def read_some_def collecting_at_def)
  from read_all_collects [where M = "\<lambda>s got. collecting_at Reading_Err og got s", OF laws law child_run_collecting_at this]
  show ?thesis using assms(2) by (simp add: read_pipe_def)
qed

text \<open>A collector with nothing to read before a stuck child is stuck itself.\<close>

definition waits_on_child :: "collect_phase \<Rightarrow> collection \<Rightarrow> bool" where
  "waits_on_child ph s \<longleftrightarrow>
     ph = Reading_Out \<and> out_pipe s = [] \<or> ph = Reading_Err \<and> err_pipe s = [] \<or> ph = Waiting_Child"

lemma stuck_collector:
  "child_stuck cap s \<Longrightarrow> waits_on_child ph s \<Longrightarrow> \<not> collect_step cap (collecting_at ph og eg s) l s'"
  by (cases l) (auto simp: waits_on_child_def child_stuck_def collect_step_def child_step_collecting_at read_some_def
      read_end_def wait_child_def)

lemma collect_inv_run:
  "run (collect_step cap) s ls s' \<Longrightarrow> collect_inv ro re writes cap s \<Longrightarrow> collect_inv ro re writes cap s'"
  by (rule collecting.inv_reaches [OF reachesI])

lemma no_stuck_child:
  assumes "0 < cap" and "ro \<Longrightarrow> re \<Longrightarrow> length (errs writes) \<le> cap"
    and "collect_inv ro re writes cap (collecting_at ph og eg s)" and "waits_on_child ph s"
  shows "\<not> child_stuck cap s"
  using collect_progress [OF assms(3,1,2)] stuck_collector [of cap s ph og eg] assms(4)
  by (auto simp: waits_on_child_def)

section \<open>The stages of collect_result\<close>

text \<open>With the child's errors fitting their pipe each of the three stages comes to its end.\<close>

lemma out_stage:
  assumes laws: "table_laws api table" "child_laws api table view calm cap c (table w) st u"
    and room: "0 < cap" "ro \<Longrightarrow> re \<Longrightarrow> length (errs writes) \<le> cap"
    and ro: "ro \<longleftrightarrow> col_stdout c \<noteq> -1" and "calm w"
    and inv: "collect_inv ro re writes cap (collecting_at (if ro then Reading_Out else after_out re) [] [] (view w))"
  shows "\<exists>w' og. read_pipe api (col_stdout c) w = Some (if ro then outs writes else [], w') \<and> calm w' \<and>
    table w' = table w \<and> collect_inv ro re writes cap (collecting_at (after_out re) og [] (view w'))"
proof (cases ro)
  case True
  then have fd: "col_stdout c \<noteq> -1" and "pipe_law api table view calm cap (col_stdout c) (table w (col_stdout c))
      out_pipe (\<lambda>b s. s\<lparr>out_pipe := b\<rparr>)"
    using ro laws(2) by (simp_all add: child_laws_def)
  from read_out_collects [OF laws(1) this, of "[]"] obtain ls s got where
    ls: "run (collect_step cap) (collecting_at Reading_Out [] [] (view w)) ls (collecting_at Reading_Out got [] s)" and
    r: "case read_pipe api (col_stdout c) w of
       None \<Rightarrow> out_pipe s = [] \<and> child_stuck cap s
     | Some (res, w') \<Rightarrow> s = view w' \<and> got = res \<and> table w' = table w \<and>
         (calm w \<longrightarrow> calm w' \<and> out_pipe s = [] \<and> child_gone s)" by blast
  have inv': "collect_inv ro re writes cap (collecting_at Reading_Out got [] s)"
    using collect_inv_run [OF ls] inv True by simp
  show ?thesis
  proof (cases "read_pipe api (col_stdout c) w")
    case None
    then show ?thesis using r no_stuck_child [OF room inv'] by (simp add: waits_on_child_def)
  next
    case (Some x)
    obtain w' where x: "x = (got, w')" "s = view w'" "table w' = table w" "calm w'" "out_pipe s = []" "child_gone s"
      using r Some \<open>calm w\<close> by (cases x) auto
    have "collect_step cap (collecting_at Reading_Out got [] s) Read_End (collecting_at (after_out re) got [] s)"
      using x inv' by (simp add: collect_step_def read_end_def collect_inv_def collecting_at_def)
    then have "collect_inv ro re writes cap (collecting_at (after_out re) got [] s)"
      by (rule collect_inv_step [OF _ inv'])
    moreover have "got = outs writes"
      using inv' x True by (auto simp: collect_inv_def byte_flow_def)
    ultimately show ?thesis using Some x True by auto
  qed
qed (use assms in \<open>auto simp: read_pipe_def\<close>)

lemma err_stage:
  assumes laws: "table_laws api table" "child_laws api table view calm cap c (table w) st u"
    and room: "0 < cap" "ro \<Longrightarrow> re \<Longrightarrow> length (errs writes) \<le> cap"
    and re: "re \<longleftrightarrow> col_stderr c \<noteq> -1" and "calm w"
    and inv: "collect_inv ro re writes cap (collecting_at (after_out re) og [] (view w))"
  shows "\<exists>w' eg. read_pipe api (col_stderr c) w = Some (if re then errs writes else [], w') \<and> calm w' \<and>
    table w' = table w \<and> collect_inv ro re writes cap (collecting_at Waiting_Child og eg (view w'))"
proof (cases re)
  case True
  then have fd: "col_stderr c \<noteq> -1" and "pipe_law api table view calm cap (col_stderr c) (table w (col_stderr c))
      err_pipe (\<lambda>b s. s\<lparr>err_pipe := b\<rparr>)"
    using re laws(2) by (simp_all add: child_laws_def)
  from read_err_collects [OF laws(1) this, of og] obtain ls s got where
    ls: "run (collect_step cap) (collecting_at Reading_Err og [] (view w)) ls (collecting_at Reading_Err og got s)" and
    r: "case read_pipe api (col_stderr c) w of
       None \<Rightarrow> err_pipe s = [] \<and> child_stuck cap s
     | Some (res, w') \<Rightarrow> s = view w' \<and> got = res \<and> table w' = table w \<and>
         (calm w \<longrightarrow> calm w' \<and> err_pipe s = [] \<and> child_gone s)" by blast
  have inv': "collect_inv ro re writes cap (collecting_at Reading_Err og got s)"
    using collect_inv_run [OF ls] inv True by (simp add: after_out_def)
  show ?thesis
  proof (cases "read_pipe api (col_stderr c) w")
    case None
    then show ?thesis using r no_stuck_child [OF room inv'] by (simp add: waits_on_child_def)
  next
    case (Some x)
    obtain w' where x: "x = (got, w')" "s = view w'" "table w' = table w" "calm w'" "err_pipe s = []" "child_gone s"
      using r Some \<open>calm w\<close> by (cases x) auto
    have "collect_step cap (collecting_at Reading_Err og got s) Read_End (collecting_at Waiting_Child og got s)"
      using x by (simp add: collect_step_def read_end_def collecting_at_def)
    then have "collect_inv ro re writes cap (collecting_at Waiting_Child og got s)"
      by (rule collect_inv_step [OF _ inv'])
    moreover have "got = errs writes"
      using inv' x True by (auto simp: collect_inv_def byte_flow_def)
    ultimately show ?thesis using Some x True by auto
  qed
qed (use assms in \<open>auto simp: read_pipe_def after_out_def\<close>)

lemma wait_stage:
  assumes laws: "child_laws api table view calm cap c now st u"
    and room: "0 < cap" "ro \<Longrightarrow> re \<Longrightarrow> length (errs writes) \<le> cap"
    and fds: "ro \<longleftrightarrow> col_stdout c \<noteq> -1" "re \<longleftrightarrow> col_stderr c \<noteq> -1" and "calm w"
    and inv: "collect_inv ro re writes cap (collecting_at Waiting_Child og eg (view w))"
  shows "\<exists>w'. os_wait4 api (col_pid c) (close_if_open api (col_stderr c) (close_if_open api (col_stdout c) w)) =
    Some (Some (st, u), w')"
proof -
  let ?v = "close_if_open api (col_stderr c) (close_if_open api (col_stdout c) w)"
  have gone: "child_gone (view w)" if "ro \<or> re"
    using inv that by (auto simp: collect_inv_def)
  have close: "calm (os_close api fd x) \<and> view (os_close api fd x) = view x"
    if "fd \<in> {col_stdout c, col_stderr c}" "calm x" "child_gone (view x)" for fd x
    using laws that unfolding child_laws_def by blast
  have v: "calm ?v" "view ?v = view w"
    using gone close \<open>calm w\<close> fds by (auto simp: close_if_open_def)
  have "\<not> (child_run cap (view w) s \<and> child_stuck cap s)" for s
  proof
    assume s: "child_run cap (view w) s \<and> child_stuck cap s"
    then obtain ls where "run (collect_step cap) (collecting_at Waiting_Child og eg (view w)) ls (collecting_at Waiting_Child og eg s)"
      using child_run_collecting_at [of cap "view w" s Waiting_Child og eg] unfolding child_run_def by blast
    then have "collect_inv ro re writes cap (collecting_at Waiting_Child og eg s)"
      by (rule collect_inv_run [OF _ inv])
    then show False using no_stuck_child [OF room] s by (auto simp: waits_on_child_def)
  qed
  moreover have "case os_wait4 api (col_pid c) ?v of
      None \<Rightarrow> \<exists>s. child_run cap (view ?v) s \<and> child_stuck cap s
    | Some (waited, w') \<Rightarrow> waited = Some (st, u)"
    using laws v(1) unfolding child_laws_def by blast
  ultimately show ?thesis using v(2) by (auto split: option.splits)
qed

section \<open>What start returns\<close>

lemma started_invariant:
  assumes "child_run cap (collection_init ro re writes) s"
  shows "collect_inv ro re writes cap (collecting_at (if ro then Reading_Out else after_out re) [] [] s)"
proof -
  let ?at = "collecting_at (if ro then Reading_Out else after_out re) [] []"
  have "?at (collection_init ro re writes) = collection_init ro re writes"
    by (simp add: collecting_at_def collection_init_def)
  with child_run_collecting_at [OF assms] have "\<exists>ls. run (collect_step cap) (collection_init ro re writes) ls (?at s)"
    unfolding child_run_def by metis
  then show ?thesis by (blast intro: collect_inv_run [OF _ collect_inv_init])
qed

definition flowing :: "bool \<Rightarrow> bool \<Rightarrow> child_write list \<Rightarrow> nat \<Rightarrow> collection \<Rightarrow> bool" where
  "flowing ro re writes cap s \<longleftrightarrow> out_redirected s = ro \<and> err_redirected s = re \<and> byte_flow writes cap s"

lemma flowing_step: "collect_step cap s l s' \<Longrightarrow> flowing ro re writes cap s \<Longrightarrow> flowing ro re writes cap s'"
  using redirections_kept [of cap s l s']
  by (cases l) (auto simp: flowing_def collect_step_def intro: byte_flow_child byte_flow_read byte_flow_end)

interpretation flow: unconditional_invariant "collect_step cap" "flowing ro re writes cap"
  for cap ro re writes
  by unfold_locales (rule flowing_step)

lemma flowing_run: "run (collect_step cap) s ls s' \<Longrightarrow> flowing ro re writes cap s \<Longrightarrow> flowing ro re writes cap s'"
  by (rule flow.inv_reaches [OF reachesI])

lemma flowing_phase:
  "flowing ro re writes cap (collecting_at ph og eg s) \<Longrightarrow> flowing ro re writes cap (collecting_at ph' og eg s)"
  by (simp add: flowing_def byte_flow_def)

text \<open>Whatever happens, what is handed out is the beginning of what the child wrote.\<close>

lemma out_is_prefix:
  assumes laws: "table_laws api table" "child_laws api table view calm cap c (table w) st u"
    and ro: "ro \<longleftrightarrow> col_stdout c \<noteq> -1" and flow: "flowing ro re writes cap (collecting_at ph [] [] (view w))"
    and got: "read_pipe api (col_stdout c) w = Some (so, w')"
  shows "prefix so (outs writes) \<and> table w' = table w \<and> flowing ro re writes cap (collecting_at ph so [] (view w'))"
proof (cases ro)
  case True
  then have "col_stdout c \<noteq> -1" and "pipe_law api table view calm cap (col_stdout c) (table w (col_stdout c))
      out_pipe (\<lambda>b s. s\<lparr>out_pipe := b\<rparr>)"
    using ro laws(2) by (simp_all add: child_laws_def)
  from read_out_collects [OF laws(1) this, of "[]"] got obtain ls where
    ls: "run (collect_step cap) (collecting_at Reading_Out [] [] (view w)) ls (collecting_at Reading_Out so [] (view w'))"
    "table w' = table w" by auto
  have f: "flowing ro re writes cap (collecting_at Reading_Out so [] (view w'))"
    by (rule flowing_run [OF ls(1) flowing_phase [OF flow]])
  then have "outs writes = so @ out_pipe (view w') @ outs (script (view w'))"
    using True by (simp add: flowing_def byte_flow_def)
  with ls(2) flowing_phase [OF f] show ?thesis by simp
next
  case False
  then show ?thesis using got ro flow by (simp add: read_pipe_def)
qed

lemma err_is_prefix:
  assumes laws: "table_laws api table" "child_laws api table view calm cap c (table w) st u"
    and re: "re \<longleftrightarrow> col_stderr c \<noteq> -1" and flow: "flowing ro re writes cap (collecting_at ph og [] (view w))"
    and got: "read_pipe api (col_stderr c) w = Some (se, w')"
  shows "prefix se (errs writes)"
proof (cases re)
  case True
  then have "col_stderr c \<noteq> -1" and "pipe_law api table view calm cap (col_stderr c) (table w (col_stderr c))
      err_pipe (\<lambda>b s. s\<lparr>err_pipe := b\<rparr>)"
    using re laws(2) by (simp_all add: child_laws_def)
  from read_err_collects [OF laws(1) this, of og] got obtain ls where
    ls: "run (collect_step cap) (collecting_at Reading_Err og [] (view w)) ls (collecting_at Reading_Err og se (view w'))"
    by auto
  have "flowing ro re writes cap (collecting_at Reading_Err og se (view w'))"
    by (rule flowing_run [OF ls flowing_phase [OF flow]])
  then have "errs writes = se @ err_pipe (view w') @ errs (script (view w'))"
    using True by (simp add: flowing_def byte_flow_def)
  then show ?thesis by simp
next
  case False
  then show ?thesis using got re by (simp add: read_pipe_def)
qed

text \<open>With more errors than their pipe holds, the first loop never ends.\<close>

lemma out_never_ends:
  assumes laws: "table_laws api table" "child_laws api table view calm cap c (table w) st u"
    and "col_stdout c \<noteq> -1" and "cap < length (errs writes)" and "calm w"
    and inv: "collect_inv True True writes cap (collecting_at Reading_Out [] [] (view w))"
  shows "read_pipe api (col_stdout c) w = None"
proof -
  have "pipe_law api table view calm cap (col_stdout c) (table w (col_stdout c)) out_pipe (\<lambda>b s. s\<lparr>out_pipe := b\<rparr>)"
    using assms(3) laws(2) by (simp add: child_laws_def)
  from read_out_collects [OF laws(1) assms(3) this, of "[]"] obtain ls s got where
    ls: "run (collect_step cap) (collecting_at Reading_Out [] [] (view w)) ls (collecting_at Reading_Out got [] s)" and
    r: "case read_pipe api (col_stdout c) w of
       None \<Rightarrow> out_pipe s = [] \<and> child_stuck cap s
     | Some (res, w') \<Rightarrow> s = view w' \<and> got = res \<and> table w' = table w \<and>
         (calm w \<longrightarrow> calm w' \<and> out_pipe s = [] \<and> child_gone s)" by blast
  have "\<not> child_gone s"
    using collect_inv_run [OF ls inv] assms(4) by (auto simp: collect_inv_def byte_flow_def)
  with r \<open>calm w\<close> show ?thesis by (auto split: option.splits)
qed

text \<open>
  C18: what \<^verbatim>\<open>start()\<close> returns of a child that writes \<open>writes\<close> and ends. While no call is
  interrupted: if the child's errors fit their pipe, or only one stream is redirected, \<open>start\<close>
  returns, and the result holds exactly the bytes of each redirected stream, whatever the size of
  the chunks they came in, nothing of a stream not redirected, the times around the run, the child's
  usage and its exit status; the process knows that it has exited. If both streams are redirected and
  the errors do not fit, it never returns. And when calls are interrupted, what a result holds is
  the beginning of each stream: an error of \<^verbatim>\<open>read\<close> ends it as the end of file does.
\<close>

theorem start_returns_the_whole_output:
  assumes laws: "table_laws api table" and "0 < cap"
    and started: "start_async api p w = (Inr c :: ('v, collector) result, p', w1)"
    and child: "child_laws api table view calm cap c (table w1) st u"
    and fresh: "child_run cap (collection_init ro re writes) (view w1)"
    and ro: "ro = redirect_standard_output (proc_start_info p)"
    and re: "re = redirect_standard_error (proc_start_info p)"
  shows "(calm w1 \<and> (ro \<longrightarrow> re \<longrightarrow> length (errs writes) \<le> cap) \<longrightarrow>
      (\<exists>r p2 w2. process_start api p w = Some (Inr r :: ('v, process_result) result, p2, w2) \<and>
        process_has_exited p2 \<and> process_id p2 = col_pid c \<and> get_has_exited r \<and>
        get_standard_output r = (if ro then outs writes else []) \<and>
        get_standard_error r = (if re then errs writes else []) \<and>
        get_start_time r = os_now api w \<and> get_exit_time r = os_now api w2 \<and> result_usage r = u \<and>
        get_exit_code r = (if WIFEXITED st then WEXITSTATUS st else -1))) \<and>
    (calm w1 \<and> ro \<and> re \<and> cap < length (errs writes) \<longrightarrow>
      process_start api p w = (None :: (('v, process_result) result \<times> process \<times> 'o) option)) \<and>
    (\<forall>r p2 w2. process_start api p w = Some (Inr r :: ('v, process_result) result, p2, w2) \<longrightarrow>
      prefix (get_standard_output r) (outs writes) \<and> prefix (get_standard_error r) (errs writes))"
proof -
  note s = start_async_started [OF laws started]
  have fds: "ro \<longleftrightarrow> col_stdout c \<noteq> -1" "re \<longleftrightarrow> col_stderr c \<noteq> -1"
    using s(3) ro re by (auto simp: only_read_ends_def)
  note inv = started_invariant [OF fresh]
  have flow: "flowing ro re writes cap (collecting_at ph [] [] (view w1))" for ph
    using inv by (auto simp: collect_inv_def flowing_def byte_flow_def)
  show ?thesis
  proof (intro conjI impI allI)
    assume a: "calm w1 \<and> (ro \<longrightarrow> re \<longrightarrow> length (errs writes) \<le> cap)"
    then have calm: "calm w1" and fits: "ro \<Longrightarrow> re \<Longrightarrow> length (errs writes) \<le> cap" by blast+
    obtain w2 og where r1: "read_pipe api (col_stdout c) w1 = Some (if ro then outs writes else [], w2)" "calm w2"
        "table w2 = table w1" "collect_inv ro re writes cap (collecting_at (after_out re) og [] (view w2))"
      using out_stage [OF laws child \<open>0 < cap\<close> fits fds(1) calm inv] by blast
    obtain w3 eg where r2: "read_pipe api (col_stderr c) w2 = Some (if re then errs writes else [], w3)" "calm w3"
        "collect_inv ro re writes cap (collecting_at Waiting_Child og eg (view w3))"
      using err_stage [OF laws child [folded r1(3)] \<open>0 < cap\<close> fits fds(2) r1(2,4)] by blast
    obtain w4 where "os_wait4 api (col_pid c) (close_if_open api (col_stderr c) (close_if_open api (col_stdout c) w3)) =
        Some (Some (st, u), w4)"
      using wait_stage [OF child \<open>0 < cap\<close> fits fds r2(2,3)] by blast
    with r1(1) r2(1) show "\<exists>r p2 w2. process_start api p w = Some (Inr r :: ('v, process_result) result, p2, w2) \<and>
        process_has_exited p2 \<and> process_id p2 = col_pid c \<and> get_has_exited r \<and>
        get_standard_output r = (if ro then outs writes else []) \<and>
        get_standard_error r = (if re then errs writes else []) \<and>
        get_start_time r = os_now api w \<and> get_exit_time r = os_now api w2 \<and> result_usage r = u \<and>
        get_exit_code r = (if WIFEXITED st then WEXITSTATUS st else -1)"
      using s(1,2) by (simp add: process_start_def started collect_result_def)
  next
    assume a: "calm w1 \<and> ro \<and> re \<and> cap < length (errs writes)"
    then have "read_pipe api (col_stdout c) w1 = None"
      using out_never_ends [OF laws child _ _ _, of writes] fds inv by simp
    then show "process_start api p w = (None :: (('v, process_result) result \<times> process \<times> 'o) option)"
      by (simp add: process_start_def started collect_result_def)
  next
    fix r p2 w2 assume "process_start api p w = Some (Inr r :: ('v, process_result) result, p2, w2)"
    then have "collect_result api (col_pid c) (col_start c) (col_stdout c) (col_stderr c) w1 = Some (r, w2)"
      by (auto simp: process_start_def started split: option.splits)
    then obtain so v1 se v2 where r: "read_pipe api (col_stdout c) w1 = Some (so, v1)"
        "read_pipe api (col_stderr c) v1 = Some (se, v2)" "standard_output r = so" "standard_error r = se"
      by (auto simp: collect_result_def Let_def split: option.splits prod.splits)
    note o = out_is_prefix [OF laws child fds(1) flow r(1)]
    have "child_laws api table view calm cap c (table v1) st u" using o child by simp
    then have "prefix se (errs writes)" by (rule err_is_prefix [OF laws _ fds(2) _ r(2)]) (use o in blast)
    with o r(3,4) show "prefix (get_standard_output r) (outs writes)" "prefix (get_standard_error r) (errs writes)"
      by simp_all
  qed
qed

text \<open>
  A system that keeps the laws: two pipes for one byte each, the files 3 and 5, and a child that
  goes on as far as it can at every call. The descriptor table, the next free descriptor, the child.
\<close>

type_synonym piped_os = "(int \<Rightarrow> nat option) \<times> int \<times> collection"

fun settle :: "nat \<Rightarrow> collection \<Rightarrow> collection" where
  "settle 0 s = s"
| "settle (Suc n) s = (case child_step 1 s of None \<Rightarrow> s | Some t \<Rightarrow> settle n t)"

definition settled :: "collection \<Rightarrow> collection" where
  "settled s = settle (Suc (length (script s))) s"

lemma settle_run: "child_run 1 s (settle n s)"
proof (induction n arbitrary: s)
  case 0
  show ?case by (auto simp: child_run_def intro: exI [of _ "[]"])
next
  case (Suc n)
  show ?case
  proof (cases "child_step 1 s")
    case None
    then show ?thesis by (auto simp: child_run_def intro: exI [of _ "[]"])
  next
    case (Some t)
    obtain ls where "run (collect_step 1) t ls (settle n t)" "set ls \<subseteq> {Child_Step}"
      using Suc by (auto simp: child_run_def)
    then show ?thesis
      using Some by (auto simp: child_run_def collect_step_def intro!: exI [of _ "Child_Step # ls"] run_cons)
  qed
qed

lemma settle_end: "length (script s) + (if child_gone s then 0 else 1) \<le> n \<Longrightarrow> child_step 1 (settle n s) = None"
proof (induction n arbitrary: s)
  case 0
  then show ?case by (auto simp: child_step_def split: if_splits)
next
  case (Suc n)
  show ?case
  proof (cases "child_step 1 s")
    case (Some t)
    then have "length (script t) + (if child_gone t then 0 else 1) \<le> n"
      using Suc.prems by (auto simp: child_step_def split: list.splits child_write.splits if_splits)
    with Suc.IH Some show ?thesis by simp
  qed simp
qed

lemma settled_run: "child_run 1 s (settled s)"
  unfolding settled_def by (rule settle_run)

lemma settled_end: "child_step 1 (settled s) = None"
  unfolding settled_def by (rule settle_end) simp

definition read_pipe_of ::
  "(collection \<Rightarrow> out_bytes) \<Rightarrow> (out_bytes \<Rightarrow> collection \<Rightarrow> collection) \<Rightarrow> nat \<Rightarrow> collection \<Rightarrow>
   (int \<times> out_bytes \<times> collection) option"
where
  "read_pipe_of bytes put n s =
     (let s' = settled s; b = take n (bytes s') in
      if b \<noteq> [] then Some (int (length b), b, put (drop n (bytes s')) s')
      else if child_gone s' then Some (0, [], s') else None)"

definition piped_api :: "piped_os os_api" where
  "piped_api =
     \<lparr>os_pipe = (\<lambda>(t, n, s).
        if t n = None \<and> t (n + 1) = None \<and> 0 \<le> n
        then (0, (n, n + 1), (t(n \<mapsto> nat n, n + 1 \<mapsto> nat n), n + 2, s))
        else (-1, (-1, -1), (t, n, s))),
      os_close = (\<lambda>fd (t, n, s). (t(fd := None), n, s)),
      os_dup2 = (\<lambda>fd std (t, n, s). if t fd = None \<or> std < 0 then (-1, (t, n, s)) else (std, (t(std := t fd), n, s))),
      os_fork = (\<lambda>w. (7, w)),
      os_thread = (\<lambda>w. (True, w)),
      os_read = (\<lambda>fd m (t, n, s).
        if t fd = Some 3 then map_option (\<lambda>(k, b, s'). (k, b, (t, n, s'))) (read_pipe_of out_pipe (\<lambda>b s. s\<lparr>out_pipe := b\<rparr>) m s)
        else if t fd = Some 5 then map_option (\<lambda>(k, b, s'). (k, b, (t, n, s'))) (read_pipe_of err_pipe (\<lambda>b s. s\<lparr>err_pipe := b\<rparr>) m s)
        else Some (-1, [], (t, n, s))),
      os_wait4 = (\<lambda>pid (t, n, s).
        if child_gone (settled s)
        then Some (Some (status_of_exit 3, \<lparr>utime_sec = 0, utime_usec = 0, stime_sec = 0, stime_usec = 0\<rparr>), (t, n, settled s))
        else None),
      os_now = (\<lambda>_. 0), os_errno = (\<lambda>_. 24), os_exec = (\<lambda>_ _. None)\<rparr>"

lemma piped_laws: "table_laws piped_api fst"
  by (auto simp: table_laws_def piped_api_def split: if_splits)

lemma piped_read:
  assumes "file = Some 3 \<and> bytes = out_pipe \<and> put = (\<lambda>b s. s\<lparr>out_pipe := b\<rparr>) \<or>
    file = Some 5 \<and> bytes = err_pipe \<and> put = (\<lambda>b s. s\<lparr>err_pipe := b\<rparr>)"
  shows "pipe_law piped_api fst (snd \<circ> snd) (\<lambda>_. True) 1 fd file bytes put"
proof -
  have "\<exists>s. child_run 1 (snd (snd w)) s \<and>
      (case os_read piped_api fd n w of
         None \<Rightarrow> bytes s = [] \<and> child_stuck 1 s
       | Some (k, buf, w') \<Rightarrow> 0 \<le> k \<and>
           (if 0 < k then nat k \<le> n \<and> nat k \<le> length (bytes s) \<and> take (nat k) buf = take (nat k) (bytes s) \<and>
              snd (snd w') = put (drop (nat k) (bytes s)) s
            else snd (snd w') = s \<and> (k = 0 \<longrightarrow> bytes s = [] \<and> child_gone s)))"
    if "fst w fd = file" "0 < n" for w n
  proof (intro exI [of _ "settled (snd (snd w))"] conjI settled_run)
    obtain t m s where w: "w = (t, m, s)" by (cases w)
    have "os_read piped_api fd n w = map_option (\<lambda>(k, b, s'). (k, b, (t, m, s'))) (read_pipe_of bytes put n s)"
      using assms that(1) w by (auto simp: piped_api_def)
    then show "case os_read piped_api fd n w of
         None \<Rightarrow> bytes (settled (snd (snd w))) = [] \<and> child_stuck 1 (settled (snd (snd w)))
       | Some (k, buf, w') \<Rightarrow> 0 \<le> k \<and>
           (if 0 < k then nat k \<le> n \<and> nat k \<le> length (bytes (settled (snd (snd w)))) \<and>
              take (nat k) buf = take (nat k) (bytes (settled (snd (snd w)))) \<and>
              snd (snd w') = put (drop (nat k) (bytes (settled (snd (snd w))))) (settled (snd (snd w)))
            else snd (snd w') = settled (snd (snd w)) \<and>
              (k = 0 \<longrightarrow> bytes (settled (snd (snd w))) = [] \<and> child_gone (settled (snd (snd w)))))"
      using w that(2) settled_end [of s] by (auto simp: read_pipe_of_def Let_def child_stuck_def min_def)
  qed
  then show ?thesis unfolding pipe_law_def comp_def simp_thms by blast
qed

lemma piped_child:
  assumes "now (col_stdout c) = Some 3" "now (col_stderr c) = Some 5"
  shows "child_laws piped_api fst (snd \<circ> snd) (\<lambda>_. True) 1 c now (status_of_exit 3)
    \<lparr>utime_sec = 0, utime_usec = 0, stime_sec = 0, stime_usec = 0\<rparr>"
proof -
  have "\<exists>s'. child_run 1 s s' \<and> child_stuck 1 s'" if "\<not> child_gone (settled s)" for s
    using that settled_run [of s] settled_end [of s] by (auto simp: child_stuck_def)
  then have "case os_wait4 piped_api (col_pid c) w of
      None \<Rightarrow> \<exists>s. child_run 1 ((snd \<circ> snd) w) s \<and> child_stuck 1 s
    | Some (waited, w') \<Rightarrow>
        waited = Some (status_of_exit 3, \<lparr>utime_sec = 0, utime_usec = 0, stime_sec = 0, stime_usec = 0\<rparr>)" for w
    by (cases w) (simp add: piped_api_def)
  moreover have "(snd \<circ> snd) (os_close piped_api fd w) = (snd \<circ> snd) w" for fd w
    by (cases w) (simp add: piped_api_def)
  ultimately show ?thesis
    using assms unfolding child_laws_def by (simp only: piped_read simp_thms ball_simps)
qed

theorem start_returns_the_whole_output_witness:
  "(\<exists>r p' w'. process_start piped_api (make_process demo_info)
        ((\<lambda>_. None), 3, collection_init True True [Err 1, Out 2, Out 3]) =
        Some (Inr r :: (unit, process_result) result, p', w') \<and>
      get_standard_output r = [2, 3] \<and> get_standard_error r = [1] \<and> get_exit_code r = 3) \<and>
   process_start piped_api (make_process demo_info) ((\<lambda>_. None), 3, collection_init True True [Err 1, Err 2]) =
     (None :: ((unit, process_result) result \<times> process \<times> piped_os) option)"
proof -
  let ?c = "\<lparr>col_pid = 7, col_start = 0, col_stdout = 3, col_stderr = 5\<rparr>" and ?p = "make_process demo_info"
  have started: "start_async piped_api ?p ((\<lambda>_. None), 3, s) = (Inr ?c :: (unit, collector) result, ?p\<lparr>proc_id := 7\<rparr>,
      (\<lambda>_. None)(3 \<mapsto> 3, 5 \<mapsto> 5), 7, s)" for s
    by (simp add: start_async_def open_pipe_def make_process_def demo_info_def make_start_info_def piped_api_def
        close_if_open_def fun_eq_iff)
  have child: "child_laws piped_api fst (snd \<circ> snd) (\<lambda>_. True) 1 ?c (fst ((\<lambda>_. None)(3 \<mapsto> 3, 5 \<mapsto> 5), 7 :: int, s :: collection))
      (status_of_exit 3) \<lparr>utime_sec = 0, utime_usec = 0, stime_sec = 0, stime_usec = 0\<rparr>" for s
    by (rule piped_child) simp_all
  have fresh: "child_run 1 (collection_init True True ws)
      ((snd \<circ> snd) ((\<lambda>_. None)(3 \<mapsto> (3 :: nat), 5 \<mapsto> 5), 7 :: int, collection_init True True ws))" for ws
    by (auto simp: child_run_def intro: exI [of _ "[]"])
  have both: "True = redirect_standard_output (proc_start_info ?p)" "True = redirect_standard_error (proc_start_info ?p)"
    by (simp_all add: make_process_def demo_info_def)
  show ?thesis
    using start_returns_the_whole_output [OF piped_laws _ started child fresh both, of "[Err 1, Out 2, Out 3]"]
      start_returns_the_whole_output [OF piped_laws _ started child fresh both, of "[Err 1, Err 2]"]
    by (auto simp: exited_status exit_status_back)
qed

end
