(* ===== verification/Process_Kill.thy ===== *)
theory Process_Kill
  imports Process_Model
begin

text \<open>
  What happens to a started \<^verbatim>\<open>Process\<close> while its collecting thread runs detached: \<^verbatim>\<open>kill\<close>,
  the destructor and moving, called by one thread, interleaved with the child and with the
  collector, which was given the address of the object it was started on. A step is one system
  call with the flag accesses that depend on it, or one store of \<^verbatim>\<open>has_exited_\<close>. The child of
  the system is alive, a zombie with its status, or reaped, after which its process id may be
  another process's.
\<close>

section \<open>The system\<close>

datatype child_state = Child_Running | Zombie "32 word" | Reaped

text \<open>
  The collector before \<^verbatim>\<open>wait4\<close>, between \<^verbatim>\<open>wait4\<close> and the store (with the status, if it
  got one), and after the store.
\<close>

datatype collector_pc = Before_Wait4 | Got "32 word option" | Stored "32 word option"

text \<open>The calling thread: outside, in \<^verbatim>\<open>kill\<close>'s loop, after it, in its last wait, in the destructor's.\<close>

datatype caller_pc = At_Rest | Kill_Loop nat | Kill_After nat | Kill_Wait nat | Destroy_Wait nat

text \<open>
  \<open>this_ptr\<close> is the address captured by the collector's thread. Ghosts: \<open>stray_signals\<close> counts
  the signals sent to the process id after the child was reaped, \<open>dangling_store\<close> says that the
  collector stored to an object that is no more.
\<close>

record running_process =
  child :: child_state
  objs :: "nat \<Rightarrow> process"
  alive :: "nat set"
  this_ptr :: nat
  collector_at :: collector_pc
  caller_at :: caller_pc
  stray_signals :: nat
  dangling_store :: bool

text \<open>
  Right after \<^verbatim>\<open>start_async\<close> on the object \<open>p\<close> at \<open>a\<close>, which sets the id and nothing else:
  a process started again still has \<^verbatim>\<open>has_exited_\<close> from its last run.
\<close>

definition just_started :: "nat \<Rightarrow> process \<Rightarrow> int \<Rightarrow> running_process" where
  "just_started a p pid =
     \<lparr>child = Child_Running, objs = (\<lambda>_. make_process (proc_start_info p))(a := p\<lparr>proc_id := pid\<rparr>),
      alive = {a}, this_ptr = a, collector_at = Before_Wait4, caller_at = At_Rest, stray_signals = 0,
      dangling_store = False\<rparr>"

text \<open>The wait status of a child ended by \<^verbatim>\<open>SIGKILL\<close>.\<close>

definition killed_status :: "32 word" where
  "killed_status = 9"

definition send_sigterm :: "running_process \<Rightarrow> running_process" where
  "send_sigterm s = (if child s = Reaped then s\<lparr>stray_signals := Suc (stray_signals s)\<rparr> else s)"

definition send_sigkill :: "running_process \<Rightarrow> running_process" where
  "send_sigkill s =
     (case child s of
        Child_Running \<Rightarrow> s\<lparr>child := Zombie killed_status\<rparr>
      | Zombie st \<Rightarrow> s
      | Reaped \<Rightarrow> s\<lparr>stray_signals := Suc (stray_signals s)\<rparr>)"

definition set_exited :: "nat \<Rightarrow> running_process \<Rightarrow> running_process" where
  "set_exited a s = s\<lparr>objs := (objs s)(a := (objs s a)\<lparr>proc_has_exited := True\<rparr>)\<rparr>"

section \<open>The operations\<close>

text \<open>\<^verbatim>\<open>kill\<close> up to its loop.\<close>

definition call_kill :: "nat \<Rightarrow> running_process \<Rightarrow> running_process option" where
  "call_kill a s =
     (if caller_at s = At_Rest \<and> a \<in> alive s then
        if proc_id (objs s a) \<le> 0 \<or> proc_has_exited (objs s a) then Some s
        else Some ((send_sigterm s)\<lparr>caller_at := Kill_Loop a\<rparr>)
      else None)"

text \<open>One round of the loop: \<^verbatim>\<open>waitpid\<close> with \<^verbatim>\<open>WNOHANG\<close> returns the id, 0 or \<open>-1\<close>.\<close>

definition kill_poll :: "running_process \<Rightarrow> running_process option" where
  "kill_poll s =
     (case caller_at s of
        Kill_Loop a \<Rightarrow>
          Some (case child s of
             Zombie st \<Rightarrow> set_exited a (s\<lparr>child := Reaped, caller_at := At_Rest\<rparr>)
           | _ \<Rightarrow> s)
      | _ \<Rightarrow> None)"

definition kill_deadline :: "running_process \<Rightarrow> running_process option" where
  "kill_deadline s = (case caller_at s of Kill_Loop a \<Rightarrow> Some (s\<lparr>caller_at := Kill_After a\<rparr>) | _ \<Rightarrow> None)"

definition kill_check :: "running_process \<Rightarrow> running_process option" where
  "kill_check s =
     (case caller_at s of
        Kill_After a \<Rightarrow>
          Some (if \<not> proc_has_exited (objs s a) then (send_sigkill s)\<lparr>caller_at := Kill_Wait a\<rparr>
                else s\<lparr>caller_at := At_Rest\<rparr>)
      | _ \<Rightarrow> None)"

text \<open>A blocking \<^verbatim>\<open>waitpid\<close> returns when the child is a zombie, or at once when it was reaped before.\<close>

definition reap :: "running_process \<Rightarrow> running_process option" where
  "reap s = (if child s = Child_Running then None else Some (s\<lparr>child := Reaped\<rparr>))"

definition kill_reap :: "running_process \<Rightarrow> running_process option" where
  "kill_reap s =
     (case caller_at s of
        Kill_Wait a \<Rightarrow> (case reap s of None \<Rightarrow> None | Some s' \<Rightarrow> Some (set_exited a (s'\<lparr>caller_at := At_Rest\<rparr>)))
      | _ \<Rightarrow> None)"

definition destroy :: "nat \<Rightarrow> running_process \<Rightarrow> running_process option" where
  "destroy a s =
     (if caller_at s = At_Rest \<and> a \<in> alive s then
        if 0 < proc_id (objs s a) \<and> \<not> proc_has_exited (objs s a)
        then Some ((send_sigkill s)\<lparr>caller_at := Destroy_Wait a\<rparr>)
        else Some (s\<lparr>alive := alive s - {a}\<rparr>)
      else None)"

definition destroy_reap :: "running_process \<Rightarrow> running_process option" where
  "destroy_reap s =
     (case caller_at s of
        Destroy_Wait a \<Rightarrow>
          (case reap s of None \<Rightarrow> None | Some s' \<Rightarrow> Some (s'\<lparr>caller_at := At_Rest, alive := alive s - {a}\<rparr>))
      | _ \<Rightarrow> None)"

definition move_to :: "start_info \<Rightarrow> nat \<Rightarrow> nat \<Rightarrow> running_process \<Rightarrow> running_process option" where
  "move_to left a b s =
     (if caller_at s = At_Rest \<and> a \<in> alive s \<and> b \<notin> alive s
      then Some (s\<lparr>objs := proc_move_construct left b a (objs s), alive := insert b (alive s)\<rparr>) else None)"

definition collector_wait4 :: "running_process \<Rightarrow> running_process option" where
  "collector_wait4 s =
     (if collector_at s = Before_Wait4 then
        case child s of
          Child_Running \<Rightarrow> None
        | Zombie st \<Rightarrow> Some (s\<lparr>child := Reaped, collector_at := Got (Some st)\<rparr>)
        | Reaped \<Rightarrow> Some (s\<lparr>collector_at := Got None\<rparr>)
      else None)"

definition collector_store :: "running_process \<Rightarrow> running_process option" where
  "collector_store s =
     (case collector_at s of
        Got st \<Rightarrow>
          Some (if this_ptr s \<in> alive s then set_exited (this_ptr s) (s\<lparr>collector_at := Stored st\<rparr>)
                else s\<lparr>collector_at := Stored st, dangling_store := True\<rparr>)
      | _ \<Rightarrow> None)"

definition child_exits :: "32 word \<Rightarrow> running_process \<Rightarrow> running_process option" where
  "child_exits st s = (if child s = Child_Running then Some (s\<lparr>child := Zombie st\<rparr>) else None)"

datatype kill_action =
    Child_Exits "32 word"
  | Call_Kill nat | Kill_Poll | Kill_Deadline | Kill_Check | Kill_Reap
  | Destroy nat | Destroy_Reap
  | Move_To start_info nat nat
  | Collector_Wait4 | Collector_Store

fun kill_exec :: "kill_action \<Rightarrow> running_process \<Rightarrow> running_process option" where
  "kill_exec (Child_Exits st) s = child_exits st s"
| "kill_exec (Call_Kill a) s = call_kill a s"
| "kill_exec Kill_Poll s = kill_poll s"
| "kill_exec Kill_Deadline s = kill_deadline s"
| "kill_exec Kill_Check s = kill_check s"
| "kill_exec Kill_Reap s = kill_reap s"
| "kill_exec (Destroy a) s = destroy a s"
| "kill_exec Destroy_Reap s = destroy_reap s"
| "kill_exec (Move_To left a b) s = move_to left a b s"
| "kill_exec Collector_Wait4 s = collector_wait4 s"
| "kill_exec Collector_Store s = collector_store s"

definition kill_step :: "running_process \<Rightarrow> kill_action \<Rightarrow> running_process \<Rightarrow> bool" where
  "kill_step s l s' \<longleftrightarrow> kill_exec l s = Some s'"

lemmas kill_defs [op_defs] = send_sigterm_def send_sigkill_def set_exited_def call_kill_def kill_poll_def
  kill_deadline_def kill_check_def reap_def kill_reap_def destroy_def destroy_reap_def move_to_def
  collector_wait4_def collector_store_def child_exits_def proc_move_construct_def

lemmas kill_splits = if_splits option.splits child_state.splits caller_pc.splits collector_pc.splits

section \<open>The flag and the child\<close>

text \<open>
  \<^verbatim>\<open>has_exited_\<close> of any object, the caller's place and the collector's place, each as far as
  it says something of the child.
\<close>

definition kill_inv :: "running_process \<Rightarrow> bool" where
  "kill_inv s \<longleftrightarrow>
     ((\<exists>a. proc_has_exited (objs s a)) \<longrightarrow> child s = Reaped) \<and>
     (collector_at s \<noteq> Before_Wait4 \<longrightarrow> child s = Reaped) \<and>
     (case caller_at s of Kill_Wait a \<Rightarrow> child s \<noteq> Child_Running | Destroy_Wait a \<Rightarrow> child s \<noteq> Child_Running | _ \<Rightarrow> True)"

lemma kill_inv_step: "kill_step s l s' \<Longrightarrow> kill_inv s \<Longrightarrow> kill_inv s'"
  unfolding kill_step_def kill_inv_def
  by (cases l; simp add: op_defs split: kill_splits; auto split: if_splits)

interpretation killing: unconditional_invariant kill_step kill_inv
  by unfold_locales (rule kill_inv_step)

lemma kill_inv_reachable:
  "\<not> proc_has_exited p \<Longrightarrow> reaches kill_step (just_started a p pid) s \<Longrightarrow> kill_inv s"
  by (erule killing.inv_reaches) (simp add: kill_inv_def just_started_def make_process_def)

lemma kill_ends_after_deadline:
  assumes "kill_inv s" and "caller_at s = Kill_Loop b"
  shows "\<exists>ls s'. set ls \<subseteq> {Kill_Deadline, Kill_Check, Kill_Reap} \<and> length ls \<le> 3 \<and>
    run kill_step s ls s' \<and> caller_at s' = At_Rest \<and> child s' = Reaped"
proof (cases "proc_has_exited (objs s b)")
  case True
  then have "child s = Reaped" using assms(1) by (auto simp: kill_inv_def)
  then show ?thesis
    using True assms(2)
    by (intro exI [of _ "[Kill_Deadline, Kill_Check]"]) (simp add: run_Cons_iff kill_step_def kill_deadline_def kill_check_def)
next
  case False
  then show ?thesis
    using assms(2)
    by (intro exI [of _ "[Kill_Deadline, Kill_Check, Kill_Reap]"])
      (simp add: run_Cons_iff kill_step_def kill_deadline_def kill_check_def kill_reap_def reap_def send_sigkill_def
        set_exited_def split: child_state.split)
qed

text \<open>
  When the flag was set before the start, nobody waits for the child: every object is taken for a
  process that has exited.
\<close>

definition thought_gone :: "running_process \<Rightarrow> bool" where
  "thought_gone s \<longleftrightarrow> (\<forall>b \<in> alive s. proc_has_exited (objs s b)) \<and> caller_at s = At_Rest"

lemma thought_gone_step: "kill_step s l s' \<Longrightarrow> thought_gone s \<Longrightarrow> thought_gone s'"
  unfolding kill_step_def thought_gone_def
  by (cases l; simp add: op_defs split: kill_splits; auto split: if_splits)

interpretation restarted: unconditional_invariant kill_step thought_gone
  by unfold_locales (rule thought_gone_step)

lemma thought_gone_reachable:
  "proc_has_exited p \<Longrightarrow> reaches kill_step (just_started a p pid) s \<Longrightarrow> thought_gone s"
  by (erule restarted.inv_reaches) (simp add: thought_gone_def just_started_def)

text \<open>
  C25: what \<^verbatim>\<open>kill\<close> does, in every order of child, collector and calls. On a process started
  for the first time, a call that has entered its loop always ends: once the grace period is over at
  most three steps of its own are left, no matter what the others do not do, and then the child is
  gone and reaped; and \<^verbatim>\<open>has_exited\<close> is never true of an object while the child is not
  reaped. A process started again is never killed: its flag is still set, so that
  \<^verbatim>\<open>has_exited\<close> is true of the running child from the start, and neither
  \<^verbatim>\<open>kill\<close> nor the destructor touches it.
\<close>

theorem kill_ends_the_child_unless_restarted:
  assumes "reaches kill_step (just_started a p pid) s"
  shows "(\<not> proc_has_exited p \<longrightarrow>
      (proc_has_exited (objs s b) \<longrightarrow> child s = Reaped) \<and>
      (caller_at s = Kill_Loop b \<longrightarrow>
        (\<exists>ls s'. set ls \<subseteq> {Kill_Deadline, Kill_Check, Kill_Reap} \<and> length ls \<le> 3 \<and>
          run kill_step s ls s' \<and> caller_at s' = At_Rest \<and> child s' = Reaped))) \<and>
    (proc_has_exited p \<longrightarrow> b \<in> alive s \<longrightarrow>
      process_has_exited (objs s b) \<and> kill_exec (Call_Kill b) s = Some s \<and>
      kill_exec (Destroy b) s = Some (s\<lparr>alive := alive s - {b}\<rparr>))"
proof (intro conjI impI)
  assume "\<not> proc_has_exited p"
  note inv = kill_inv_reachable [OF this assms]
  show "child s = Reaped" if "proc_has_exited (objs s b)"
    using inv that by (auto simp: kill_inv_def)
  show "\<exists>ls s'. set ls \<subseteq> {Kill_Deadline, Kill_Check, Kill_Reap} \<and> length ls \<le> 3 \<and>
      run kill_step s ls s' \<and> caller_at s' = At_Rest \<and> child s' = Reaped" if "caller_at s = Kill_Loop b"
    by (rule kill_ends_after_deadline [OF inv that])
next
  assume "proc_has_exited p" and b: "b \<in> alive s"
  note inv = thought_gone_reachable [OF this(1) assms]
  show "process_has_exited (objs s b)" "kill_exec (Call_Kill b) s = Some s"
    "kill_exec (Destroy b) s = Some (s\<lparr>alive := alive s - {b}\<rparr>)"
    using inv b by (simp_all add: thought_gone_def call_kill_def destroy_def)
qed

definition demo_running :: running_process where
  "demo_running = just_started 1 (make_process (make_start_info ''sleep'')) 77"

text \<open>A first start whose child is killed, and a second start whose child is not.\<close>

theorem kill_ends_the_child_unless_restarted_witness:
  "(\<exists>s ls s'. reaches kill_step demo_running s \<and> child s = Child_Running \<and> caller_at s = Kill_Loop 1 \<and>
      run kill_step s ls s' \<and> child s' = Reaped) \<and>
   (\<exists>s. s = just_started 1 (make_process (make_start_info ''sleep'')\<lparr>proc_has_exited := True\<rparr>) 78 \<and>
      child s = Child_Running \<and> process_has_exited (objs s 1) \<and> kill_exec (Call_Kill 1) s = Some s)"
proof
  let ?s = "demo_running\<lparr>caller_at := Kill_Loop 1\<rparr>"
  have r: "reaches kill_step demo_running ?s"
    by (rule reachesI [of _ _ "[Call_Kill 1]"])
      (simp add: run_Cons_iff kill_step_def call_kill_def send_sigterm_def demo_running_def just_started_def
        make_process_def)
  with kill_ends_the_child_unless_restarted [OF r [unfolded demo_running_def], of 1]
  show "\<exists>s ls s'. reaches kill_step demo_running s \<and> child s = Child_Running \<and> caller_at s = Kill_Loop 1 \<and>
      run kill_step s ls s' \<and> child s' = Reaped"
    by (intro exI [of _ ?s]) (auto simp: demo_running_def just_started_def make_process_def)
  let ?p = "make_process (make_start_info ''sleep'')\<lparr>proc_has_exited := True\<rparr>"
  have "reaches kill_step (just_started 1 ?p 78) (just_started 1 ?p 78)"
    by (rule reachesI [of _ _ "[]"]) simp
  from kill_ends_the_child_unless_restarted [OF this, of 1]
  show "\<exists>s. s = just_started 1 ?p 78 \<and> child s = Child_Running \<and> process_has_exited (objs s 1) \<and>
      kill_exec (Call_Kill 1) s = Some s"
    by (simp add: just_started_def)
qed

section \<open>The address the collector keeps\<close>

fun moves :: "kill_action \<Rightarrow> bool" where
  "moves (Move_To left a b) = True"
| "moves l = False"

definition object_gone :: "running_process \<Rightarrow> bool" where
  "object_gone s \<longleftrightarrow> this_ptr s \<notin> alive s \<and> (case collector_at s of Stored st \<Rightarrow> dangling_store s | _ \<Rightarrow> True)"

lemma object_gone_step: "kill_step s l s' \<Longrightarrow> \<not> moves l \<Longrightarrow> object_gone s \<Longrightarrow> object_gone s'"
  unfolding kill_step_def object_gone_def
  by (cases l; simp add: op_defs split: kill_splits; auto split: if_splits)

interpretation gone: step_invariant kill_step "\<lambda>l. \<not> moves l" object_gone
  by unfold_locales (rule object_gone_step)

text \<open>
  C26: the destructor of a process whose child runs does not wait for the collector. It kills and
  reaps the child, the object is gone, and when the collector comes to its store, in whatever
  order things happen from there, it writes into the object that is no more.
\<close>

theorem destroyed_process_is_written_to:
  assumes "caller_at s = At_Rest" and "this_ptr s = a" and "a \<in> alive s"
    and "0 < proc_id (objs s a)" and "\<not> proc_has_exited (objs s a)" and "collector_at s = Before_Wait4"
  shows "\<exists>s1. run kill_step s [Destroy a, Destroy_Reap] s1 \<and>
    (\<forall>ls s'. run kill_step s1 ls s' \<longrightarrow> list_all (\<lambda>l. \<not> moves l) ls \<longrightarrow>
       (\<forall>st. collector_at s' = Stored st \<longrightarrow> dangling_store s'))"
proof -
  obtain s1 where s1: "run kill_step s [Destroy a, Destroy_Reap] s1" "object_gone s1"
    using assms
    by (cases "child s") (simp_all add: run_Cons_iff kill_step_def destroy_def destroy_reap_def send_sigkill_def
        reap_def object_gone_def)
  have "dangling_store s'" if "run kill_step s1 ls s'" "list_all (\<lambda>l. \<not> moves l) ls" "collector_at s' = Stored st" for ls s' st
    using gone.inv_run [OF that(1)] that(2,3) s1(2) by (auto simp: list_all_iff object_gone_def)
  with s1(1) show ?thesis by blast
qed

theorem destroyed_process_is_written_to_witness:
  "\<exists>s'. run kill_step demo_running [Destroy 1, Destroy_Reap, Collector_Wait4, Collector_Store] s' \<and> dangling_store s'"
proof -
  obtain s1 where s1: "run kill_step demo_running [Destroy 1, Destroy_Reap] s1"
    "\<forall>ls s'. run kill_step s1 ls s' \<longrightarrow> list_all (\<lambda>l. \<not> moves l) ls \<longrightarrow>
       (\<forall>st. collector_at s' = Stored st \<longrightarrow> dangling_store s')"
    using destroyed_process_is_written_to [of demo_running 1] by (auto simp: demo_running_def just_started_def make_process_def)
  obtain s' where s': "run kill_step s1 [Collector_Wait4, Collector_Store] s'" "collector_at s' = Stored None"
    using s1(1) by (auto simp: run_Cons_iff kill_step_def op_defs demo_running_def just_started_def make_process_def)
  moreover have "list_all (\<lambda>l. \<not> moves l) [Collector_Wait4, Collector_Store]" by simp
  moreover from this s1(2) s' have "dangling_store s'" by blast
  ultimately show ?thesis using run_append [OF s1(1) s'(1)] unfolding append_Cons append_Nil by blast
qed

text \<open>
  The object at \<open>b\<close> has taken over the running child's id from the object the collector knows.
\<close>

definition taken_over :: "nat \<Rightarrow> running_process \<Rightarrow> bool" where
  "taken_over b s \<longleftrightarrow> this_ptr s \<noteq> b \<and> 0 < proc_id (objs s b) \<and> \<not> proc_has_exited (objs s b) \<and>
     (caller_at s = At_Rest \<or> (\<exists>a. caller_at s = Destroy_Wait a))"

fun destroys_only :: "kill_action \<Rightarrow> bool" where
  "destroys_only (Move_To left a b) = False"
| "destroys_only (Call_Kill a) = False"
| "destroys_only l = True"

lemma taken_over_step: "kill_step s l s' \<Longrightarrow> destroys_only l \<Longrightarrow> taken_over b s \<Longrightarrow> taken_over b s'"
  unfolding kill_step_def taken_over_def
  by (cases l; simp add: op_defs split: kill_splits; auto split: if_splits)

interpretation taken: step_invariant kill_step destroys_only "taken_over b" for b
  by unfold_locales (rule taken_over_step)

text \<open>
  C27: a process moved while its child runs never learns of the exit: the collector stores to the
  object moved from. However the child and the collector go on, \<^verbatim>\<open>has_exited\<close> of the new
  object stays false, and once the child is reaped its destructor sends \<^verbatim>\<open>SIGKILL\<close> to a process
  id the system may have given to somebody else.
\<close>

theorem moved_process_never_learns_of_the_exit:
  assumes "kill_exec (Move_To left a b) s = Some s1" and "this_ptr s = a"
    and "0 < proc_id (objs s a)" and "\<not> proc_has_exited (objs s a)"
    and "run kill_step s1 ls s'" and "list_all destroys_only ls"
  shows "\<not> proc_has_exited (objs s' b) \<and>
    (child s' = Reaped \<and> caller_at s' = At_Rest \<and> b \<in> alive s' \<longrightarrow>
      (\<exists>s''. kill_exec (Destroy b) s' = Some s'' \<and> stray_signals s'' = Suc (stray_signals s')))"
proof -
  have "taken_over b s1"
    using assms(1-4) by (auto simp: move_to_def taken_over_def proc_move_construct_def split: if_splits)
  then have "taken_over b s'"
    using taken.inv_run [OF assms(5)] assms(6) by (simp add: list_all_iff)
  then show ?thesis
    by (auto simp: taken_over_def destroy_def send_sigkill_def)
qed

theorem moved_process_never_learns_of_the_exit_witness:
  "\<exists>s' s''. run kill_step demo_running
       [Move_To (make_start_info []) 1 2, Child_Exits 0, Collector_Wait4, Collector_Store] s' \<and>
     \<not> proc_has_exited (objs s' 2) \<and> kill_exec (Destroy 2) s' = Some s'' \<and> stray_signals s'' = 1"
proof -
  obtain s1 where s1: "kill_exec (Move_To (make_start_info []) 1 2) demo_running = Some s1"
    by (simp add: move_to_def demo_running_def just_started_def make_process_def)
  obtain s' where s': "run kill_step s1 [Child_Exits 0, Collector_Wait4, Collector_Store] s'"
    "child s' = Reaped" "caller_at s' = At_Rest" "2 \<in> alive s'" "stray_signals s' = 0"
    using s1 by (auto simp: run_Cons_iff kill_step_def op_defs demo_running_def just_started_def make_process_def)
  have init: "this_ptr demo_running = 1" "0 < proc_id (objs demo_running 1)" "\<not> proc_has_exited (objs demo_running 1)"
    by (simp_all add: demo_running_def just_started_def make_process_def)
  have run: "run kill_step demo_running
      [Move_To (make_start_info []) 1 2, Child_Exits 0, Collector_Wait4, Collector_Store] s'"
    using s1 s'(1) by (auto simp: run_Cons_iff kill_step_def)
  have "list_all destroys_only [Child_Exits 0, Collector_Wait4, Collector_Store]" by simp
  note never = moved_process_never_learns_of_the_exit [OF s1 init s'(1) this]
  then obtain s'' where "kill_exec (Destroy 2) s' = Some s''" "stray_signals s'' = Suc (stray_signals s')"
    using s'(2-4) by blast
  moreover from this(2) s'(5) have "stray_signals s'' = 1" by simp
  ultimately show ?thesis using never run by blast
qed

section \<open>Who gets the status\<close>

definition status_taken :: "running_process \<Rightarrow> bool" where
  "status_taken s \<longleftrightarrow> child s = Reaped \<and> collector_at s \<in> {Before_Wait4, Got None, Stored None}"

lemma status_taken_step: "kill_step s l s' \<Longrightarrow> status_taken s \<Longrightarrow> status_taken s'"
  unfolding kill_step_def status_taken_def
  by (cases l; simp add: op_defs split: kill_splits; auto split: if_splits)

interpretation taken_status: unconditional_invariant kill_step status_taken
  by unfold_locales (rule status_taken_step)

text \<open>
  The status goes to whoever waits first. When \<^verbatim>\<open>kill\<close> or the destructor reaped the child,
  the collector's \<^verbatim>\<open>wait4\<close> fails whatever happens later, although the child may have ended by
  itself; it then reports the exit code \<open>-1\<close>.
\<close>

theorem status_is_lost_to_kill:
  assumes "child s = Reaped" and "collector_at s = Before_Wait4"
    and "run kill_step s ls s'" and "collector_at s' = Stored st"
    and "\<And>v x v'. os_wait4 api pid v = Some (x, v') \<Longrightarrow> x = map_option (\<lambda>status. (status, u)) st"
    and "collect_result api pid start o_fd e_fd w = Some (r, w')"
  shows "st = None \<and> exit_code r = -1"
proof -
  have "status_taken s'"
    by (rule taken_status.inv_reaches [OF reachesI [OF assms(3)]]) (simp add: status_taken_def assms(1,2))
  then have "st = None" using assms(4) by (auto simp: status_taken_def)
  with collect_exit_code [OF assms(6)] assms(5) show ?thesis by fastforce
qed

theorem status_is_lost_to_kill_witness:
  "\<exists>s s'. run kill_step demo_running [Call_Kill 1, Child_Exits 0, Kill_Poll] s \<and>
     run kill_step s [Collector_Wait4, Collector_Store] s' \<and> collector_at s' = Stored None"
proof -
  obtain s where s: "run kill_step demo_running [Call_Kill 1, Child_Exits 0, Kill_Poll] s"
    "child s = Reaped" "collector_at s = Before_Wait4"
    by (auto simp: run_Cons_iff kill_step_def op_defs demo_running_def just_started_def make_process_def)
  obtain s' st where s': "run kill_step s [Collector_Wait4, Collector_Store] s'" "collector_at s' = Stored st"
    using s(2,3) by (auto simp: run_Cons_iff kill_step_def collector_wait4_def collector_store_def set_exited_def)
  let ?api = "demo_api\<lparr>os_wait4 := (\<lambda>pid v. Some (map_option
    (\<lambda>status. (status, \<lparr>utime_sec = 0, utime_usec = 0, stime_sec = 0, stime_usec = 0\<rparr>)) st, v))\<rparr>"
  obtain r w' where "collect_result ?api 77 0 (-1) (-1) (\<lambda>_. None, 3, 0) = Some (r, w')"
    by (cases st) (simp_all add: collect_result_def read_pipe_def close_if_open_def)
  from status_is_lost_to_kill [OF s(2,3) s' _ this] have "st = None" by simp
  with s(1) s' show ?thesis by blast
qed

end
