(* ===== verification/Reference_Property.thy ===== *)
theory Reference_Property
  imports Errors
begin

text \<open>
  \<^verbatim>\<open>include/Templates/Property.hpp\<close>: objects that look like a variable and read or write
  another one. \<^verbatim>\<open>ReferenceProperty\<close> keeps references, which are addresses of a memory;
  \<^verbatim>\<open>Property<T>\<close> keeps a getter and a setter function. Getters and setters are client
  code; the defaults are the program's.
\<close>

section \<open>Getters and setters\<close>

type_synonym ('x, 'a) setter = "'a \<Rightarrow> 'a \<Rightarrow> ('x, unit) result \<times> 'a"

definition default_get :: "'a \<Rightarrow> 'a" where
  "default_get value = value"

text \<open>A setter is told the object's value and the new one; it returns or throws, and leaves a value.\<close>

definition default_set :: "('x, 'a) setter" where
  "default_set value new_value = (Inr (), new_value)"

text \<open>The contract of a getter and a setter that belong together.\<close>

locale getter_setter =
  fixes getter :: "'a \<Rightarrow> 'a" and setter :: "('x, 'a) setter"
  assumes get_set: "setter old new = (Inr (), x) \<Longrightarrow> getter x = new"

text \<open>A setter that leaves the object alone when it throws.\<close>

locale safe_setter =
  fixes setter :: "('x, 'a) setter"
  assumes set_failed: "setter old new = (Inl e, x) \<Longrightarrow> x = old"

interpretation default_property: getter_setter default_get default_set
  by unfold_locales (simp add: default_get_def default_set_def)

interpretation default_setter: safe_setter default_set
  by unfold_locales (simp add: default_set_def)

section \<open>ReferenceProperty\<close>

record read_only =
  value_ref :: nat

record writable = read_only +
  mutable_ref :: nat

definition ro_create :: "nat \<Rightarrow> read_only" where
  "ro_create value = \<lparr>value_ref = value\<rparr>"

definition wr_create :: "nat \<Rightarrow> writable" where
  "wr_create value = read_only.extend (ro_create value) \<lparr>mutable_ref = value\<rparr>"

text \<open>\<^verbatim>\<open>operator auto\<close>, of both kinds.\<close>

definition ro_read :: "('a \<Rightarrow> 'a) \<Rightarrow> 'z read_only_scheme \<Rightarrow> (nat \<Rightarrow> 'a) \<Rightarrow> 'a" where
  "ro_read getter p mem = getter (mem (value_ref p))"

definition wr_assign ::
  "('x, 'a) setter \<Rightarrow> writable \<Rightarrow> 'a \<Rightarrow> (nat \<Rightarrow> 'a) \<Rightarrow> ('x, unit) result \<times> (nat \<Rightarrow> 'a)"
where
  "wr_assign setter p v mem =
     (case setter (mem (mutable_ref p)) v of (r, x) \<Rightarrow> (r, mem(mutable_ref p := x)))"

text \<open>
  \<^verbatim>\<open>FunctionSetter\<close>, for a variable and for a \<^verbatim>\<open>std::function\<close>: assigning stores the value
  converted to the variable's type.
\<close>

record function_setter =
  function_ref :: nat

definition fs_create :: "nat \<Rightarrow> function_setter" where
  "fs_create value = \<lparr>function_ref = value\<rparr>"

definition fs_assign :: "('f \<Rightarrow> 'a) \<Rightarrow> function_setter \<Rightarrow> 'f \<Rightarrow> (nat \<Rightarrow> 'a) \<Rightarrow> (nat \<Rightarrow> 'a)" where
  "fs_assign convert p value mem = mem(function_ref p := convert value)"

section \<open>Property<T>\<close>

text \<open>An empty \<^verbatim>\<open>std::function\<close> is \<open>None\<close>; the call of one throws \<open>empty_call\<close>.\<close>

record ('x, 'a, 'w) property_read_only =
  getter_function :: "('w \<Rightarrow> ('x, 'a) result \<times> 'w) option"

record ('x, 'a, 'w) property_writable = "('x, 'a, 'w) property_read_only" +
  setter_function :: "('a \<Rightarrow> 'w \<Rightarrow> ('x, unit) result \<times> 'w) option"

definition prop_read ::
  "'x exn \<Rightarrow> ('x, 'a, 'w, 'z) property_read_only_scheme \<Rightarrow> 'w \<Rightarrow> ('x, 'a) result \<times> 'w"
where
  "prop_read empty_call p w =
     (case getter_function p of None \<Rightarrow> (Inl empty_call, w) | Some getter \<Rightarrow> getter w)"

definition prop_assign ::
  "'x exn \<Rightarrow> ('x, 'a, 'w) property_writable \<Rightarrow> 'a \<Rightarrow> 'w \<Rightarrow> ('x, unit) result \<times> 'w"
where
  "prop_assign empty_call p value w =
     (case setter_function p of None \<Rightarrow> (Inl empty_call, w) | Some setter \<Rightarrow> setter value w)"

section \<open>Objects and their memory\<close>

text \<open>
  Property objects, by number, and the variables they refer to. Copying and moving are the
  defaulted operations: both copy the references.
\<close>

record 'a heap =
  objects :: "nat \<Rightarrow> writable option"
  memory :: "nat \<Rightarrow> 'a"

definition heap_init :: "(nat \<Rightarrow> 'a) \<Rightarrow> 'a heap" where
  "heap_init mem = \<lparr>objects = (\<lambda>_. None), memory = mem\<rparr>"

datatype 'a heap_op =
    Make nat nat
  | Copy_Construct nat nat
  | Copy_Assign nat nat
  | Assign nat 'a
  | Store nat 'a

fun heap_exec :: "('x, 'a) setter \<Rightarrow> 'a heap_op \<Rightarrow> 'a heap \<Rightarrow> (('x, unit) result \<times> 'a heap) option" where
  "heap_exec setter (Make i a) s =
     (if objects s i = None then Some (Inr (), s\<lparr>objects := (objects s)(i \<mapsto> wr_create a)\<rparr>) else None)"
| "heap_exec setter (Copy_Construct i j) s =
     (if objects s i = None \<and> objects s j \<noteq> None
      then Some (Inr (), s\<lparr>objects := (objects s)(i := objects s j)\<rparr>) else None)"
| "heap_exec setter (Copy_Assign i j) s =
     (if objects s i \<noteq> None \<and> objects s j \<noteq> None
      then Some (Inr (), s\<lparr>objects := (objects s)(i := objects s j)\<rparr>) else None)"
| "heap_exec setter (Assign i v) s =
     (case objects s i of
        None \<Rightarrow> None
      | Some p \<Rightarrow> (case wr_assign setter p v (memory s) of (r, mem) \<Rightarrow> Some (r, s\<lparr>memory := mem\<rparr>)))"
| "heap_exec setter (Store a v) s = Some (Inr (), s\<lparr>memory := (memory s)(a := v)\<rparr>)"

definition heap_step :: "('x, 'a) setter \<Rightarrow> 'a heap \<Rightarrow> 'a heap_op \<Rightarrow> 'a heap \<Rightarrow> bool" where
  "heap_step setter s l s' \<longleftrightarrow> (\<exists>r. heap_exec setter l s = Some (r, s'))"

text \<open>Both references of a property lead to the same variable.\<close>

definition one_target :: "'a heap \<Rightarrow> bool" where
  "one_target s \<longleftrightarrow> (\<forall>i p. objects s i = Some p \<longrightarrow> mutable_ref p = value_ref p)"

lemma one_target_step: "heap_step setter s l s' \<Longrightarrow> one_target s \<Longrightarrow> one_target s'"
  by (cases l) (auto simp: heap_step_def one_target_def wr_create_def ro_create_def read_only.defs
      split: if_splits option.splits prod.splits)

interpretation heap_refs: unconditional_invariant "heap_step setter" one_target for setter :: "('x, 'a) setter"
  by unfold_locales (rule one_target_step)

lemma one_target_reachable:
  "reaches (heap_step setter) (heap_init mem) s \<Longrightarrow> objects s i = Some p \<Longrightarrow> mutable_ref p = value_ref p"
  using heap_refs.inv_reaches [of setter "heap_init mem" s] by (simp add: one_target_def heap_init_def)

text \<open>
  C39: in whatever way property objects were made, copied and assigned to before, a value assigned
  through one of them is read back through every property of the same variable and through no
  other, provided the getter undoes the setter; when the setter throws without having written,
  nothing changes.
\<close>

theorem property_reads_what_was_assigned:
  assumes "getter_setter getter setter" and "safe_setter setter"
    and "reaches (heap_step setter) (heap_init mem) s"
    and "objects s i = Some p" and "objects s j = Some q"
  shows "\<exists>r s'. heap_exec setter (Assign i v) s = Some (r, s') \<and>
    ro_read getter q (memory s') =
      (if r = Inr () \<and> value_ref q = value_ref p then v else ro_read getter q (memory s))"
proof -
  obtain r x where x: "setter (memory s (mutable_ref p)) v = (r, x)" by fastforce
  have refs: "mutable_ref p = value_ref p"
    using one_target_reachable assms(3,4) by blast
  have "r = Inr () \<and> getter x = v \<or> r \<noteq> Inr () \<and> x = memory s (mutable_ref p)"
  proof (cases r)
    case (Inl e)
    then show ?thesis using safe_setter.set_failed [OF assms(2)] x by auto
  next
    case (Inr u)
    then show ?thesis using getter_setter.get_set [OF assms(1)] x by auto
  qed
  then show ?thesis
    using x refs assms(4) by (auto simp: wr_assign_def ro_read_def)
qed

text \<open>Hours kept as seconds, as an example of a getter and a setter with a check.\<close>

definition hours_get :: "int \<Rightarrow> int" where
  "hours_get value = value div 3600"

definition hours_set :: "(unit, int) setter" where
  "hours_set value new_value =
     (if new_value < 0 \<or> 24 < new_value then (throw ''out of range'' OutOfRange, value)
      else (Inr (), new_value * 3600))"

theorem property_reads_what_was_assigned_witness:
  "\<exists>s r s'. reaches (heap_step hours_set) (heap_init (\<lambda>_. 0)) s \<and>
     heap_exec hours_set (Assign 0 12) s = Some (r, s') \<and> ro_read hours_get (wr_create 5) (memory s') = 12"
proof -
  have gs: "getter_setter hours_get hours_set" and ss: "safe_setter hours_set"
    by (unfold_locales, auto simp: hours_get_def hours_set_def throw_def split: if_splits)
  let ?s = "\<lparr>objects = [0 \<mapsto> wr_create 5, 1 \<mapsto> wr_create 5], memory = (\<lambda>_. 0)\<rparr> :: int heap"
  have "run (heap_step hours_set) (heap_init (\<lambda>_. 0)) [Make 0 5, Copy_Construct 1 0] ?s"
    by (auto simp: run_Cons_iff heap_step_def heap_init_def)
  then have r: "reaches (heap_step hours_set) (heap_init (\<lambda>_. 0)) ?s" by (rule reachesI)
  from property_reads_what_was_assigned [OF gs ss r, of 0 "wr_create 5" 1 "wr_create 5" 12]
  obtain r' s' where "heap_exec hours_set (Assign 0 12) ?s = Some (r', s')"
    "ro_read hours_get (wr_create 5) (memory s') = (if r' = Inr () then 12 else ro_read hours_get (wr_create 5) (\<lambda>_. 0))"
    by auto
  moreover from this(1) have "r' = Inr ()"
    by (auto simp: wr_assign_def hours_set_def)
  ultimately show ?thesis using r by auto
qed

text \<open>
  Assigning one property to another, \<^verbatim>\<open>p = q\<close>, does not assign the value: the
  variables keep their values, \<open>p\<close> becomes a second property of \<open>q\<close>'s variable, and what
  is assigned to \<open>p\<close> from then on changes that variable and no longer the one \<open>p\<close> was made for.
\<close>

theorem property_copy_assign_rebinds:
  assumes "reaches (heap_step default_set) (heap_init mem) s"
    and "objects s i = Some p" and "objects s j = Some q" and "i \<noteq> j" and "value_ref p \<noteq> value_ref q"
  shows "\<exists>s1 s2. heap_exec default_set (Copy_Assign i j) s = Some (Inr (), s1) \<and> memory s1 = memory s \<and>
    heap_exec default_set (Assign i v) s1 = Some (Inr (), s2) \<and>
    ro_read default_get q (memory s2) = v \<and>
    ro_read default_get p (memory s2) = ro_read default_get p (memory s)"
proof -
  have "mutable_ref q = value_ref q" "mutable_ref p = value_ref p"
    using one_target_reachable assms(1-3) by blast+
  then show ?thesis
    using assms(2-5) by (simp add: wr_assign_def ro_read_def default_set_def default_get_def)
qed

theorem property_copy_assign_rebinds_witness:
  "\<exists>s1 s2. heap_exec default_set (Copy_Assign 0 1)
       (\<lparr>objects = [0 \<mapsto> wr_create 5, 1 \<mapsto> wr_create 6], memory = int\<rparr>) = Some (Inr () :: (unit, unit) result, s1) \<and>
     heap_exec default_set (Assign 0 9) s1 = Some (Inr () :: (unit, unit) result, s2) \<and> memory s2 6 = 9 \<and> memory s2 5 = 5"
proof -
  let ?s = "\<lparr>objects = [0 \<mapsto> wr_create 5, 1 \<mapsto> wr_create 6], memory = int\<rparr>"
  have "run (heap_step (default_set :: (unit, int) setter)) (heap_init int) [Make 0 5, Make 1 6] ?s"
    by (auto simp: run_Cons_iff heap_step_def heap_init_def)
  then have "reaches (heap_step (default_set :: (unit, int) setter)) (heap_init int) ?s" by (rule reachesI)
  from property_copy_assign_rebinds [OF this, of 0 "wr_create 5" 1 "wr_create 6" 9] show ?thesis
    by (simp add: ro_read_def default_get_def wr_create_def ro_create_def read_only.defs)
qed

end
