(* ===== verification/Utility_File.thy ===== *)
theory Utility_File
  imports Start_Info
begin

text \<open>
  \<^verbatim>\<open>include/utility.hpp\<close>: creating a file. A file system maps names to contents; which names
  can be opened for writing is an argument.
\<close>

type_synonym file_system = "string \<Rightarrow> 8 word list option"

text \<open>\<^verbatim>\<open>std::ofstream\<close> opens its file, by a C string, for writing and truncates it.\<close>

definition create_file :: "(string \<Rightarrow> bool) \<Rightarrow> string \<Rightarrow> file_system \<Rightarrow> bool \<times> file_system" where
  "create_file may_open name files =
     (if may_open (c_string name) then (True, files(c_string name \<mapsto> [])) else (False, files))"

text \<open>
  When the call says so the file is there and empty, whatever was in it before; no other file is
  touched, and none at all when the call fails.
\<close>

lemma create_file_outcome:
  "create_file may_open name files = (ok, files') \<Longrightarrow>
   files' f = (if ok \<and> f = c_string name then Some [] else files f)"
  by (auto simp: create_file_def split: if_splits)

text \<open>Creating a file twice is creating it once.\<close>

lemma create_file_twice:
  "create_file may_open name (snd (create_file may_open name files)) = create_file may_open name files"
  by (simp add: create_file_def)

end
