(* ===== verification/Spec2Isabelle.thy ===== *)
theory Spec2Isabelle
  imports Bitset_Set Event_Flag Message_Task Task_Stop Statement_Task Managed_Tasks Pool_Progress Pool_Stop
    Worker_Stop Timer_Model Posix_Fifo Process_Output Process_Collect Process_Kill Reference_Property
    Utility_File
begin

text \<open>
  A verification development for CppFramework, a C++20 library of message-driven tasks, thread
  synchronisation, processes and small templates (the headers under \<^verbatim>\<open>src/include\<close> and the
  sources under \<^verbatim>\<open>src/lib\<close>).

  \<^bold>\<open>The program.\<close> A task owns a message queue and a loop thread. \<^verbatim>\<open>EventTaskBase\<close> posts
  requests into the queue, runs the loop, answers blocking callers through promises and stops on an
  internal command; \<^verbatim>\<open>MessageTask\<close> dispatches a request through a table of handlers
  (\<^verbatim>\<open>MessageEventAggregator\<close>), \<^verbatim>\<open>StatementTask\<close> through a \<^verbatim>\<open>StateMachine\<close> with one such
  table per state. \<^verbatim>\<open>EventTaskManager\<close> finds tasks by name. Beside them stand a thread pool, a
  background worker, a timer, event flags, a queue over POSIX message queues, child processes,
  bitsets over enumerations and property objects.

  \<^bold>\<open>Conventions.\<close> A C++ expression that may throw is a value of \<open>exn + 'a\<close> (theory \<open>Errors\<close>).
  Objects are records with the fields of the classes; a method is a function from the record to the
  new one. Client code (handlers, hooks, setters) and everything outside the repository (system
  calls, clocks) is an argument: a record of functions over a world or a system state. Integers of
  a fixed width are words; times and descriptors are \<open>int\<close>. Where threads matter the component is a
  labelled step relation whose steps are the accesses to shared state the code makes; its runs
  (\<open>run\<close>, \<open>reaches\<close> of \<open>Prelude\<close>) are all interleavings, and invariants are carried along them by
  interpretations of \<open>step_invariant\<close>. Fields described as ghosts only record what happened.

  \<^bold>\<open>The theories.\<close>
  \<^item> \<open>Prelude\<close>: runs, reachability, the invariant contract, threads that come to an end
    (\<open>ending_thread\<close>); sequences of calls on an object and the
    contracts \<open>functional_refinement\<close> and, for calls that need not return, \<open>guarded_refinement\<close> by
    which they follow an abstract one. \<open>Errors\<close>: \<^verbatim>\<open>Exception\<close>,
    \<^verbatim>\<open>SystemException\<close>, \<^verbatim>\<open>Error::Code\<close>, \<^verbatim>\<open>std::any\<close>.
  \<^item> \<open>Monitor\<close>: objects with one mutex and one condition variable, at the granularity of the
    library calls (acquire, test, block, spurious wakeup, timeout, body, notify, release). The locale
    \<open>disciplined_monitor\<close> proves linearizability and the absence of lost wakeups for classes
    that signal whatever can make a predicate true; \<open>stable_monitor\<close> keeps the first for classes
    that only promise not to make one false outside the lock.
  \<^item> \<open>Message_Queue\<close> (\<^verbatim>\<open>SynchronizedDeque\<close>) and \<open>Event_Flag\<close> interpret it: first in first
    out, nobody left behind, what a timeout means. \<open>Task_Pool\<close> runs the workers' loop on the monitor
    of the pool: order, counting, drained queues, and the wakeup \<^verbatim>\<open>stop\<close> can lose. \<open>Pool_Progress\<close>: until
    \<^verbatim>\<open>stop\<close> is called the pool behaves as a disciplined class, and leaves no task behind.
    \<open>Pool_Stop\<close>: when \<^verbatim>\<open>stop\<close> has returned, the tasks run are exactly those enqueued.
  \<^item> \<open>Event_Request\<close>, \<open>Event_Aggregator\<close>, \<open>State_Machine\<close>: the data of the event tasks; the
    machine answers as an abstract machine of first registrations (\<open>sm_answers_as_fsm\<close>).
  \<^item> \<open>Task_Base\<close> (\<^verbatim>\<open>TaskBase\<close>), \<open>Event_Task\<close> (\<^verbatim>\<open>EventTaskBase\<close>): order of messages, one answer each,
    the end of the loop, and the calls that can never return. \<open>Task_Stop\<close>: the first \<^verbatim>\<open>stop\<close>
    returns, with a bound on the loop's steps. \<open>Task_Server\<close>: every run of a task gives the results
    and the world of a sequential server; \<open>Message_Task\<close> (\<^verbatim>\<open>MessageTask\<close>) makes that server a
    dispatcher over the table of handlers. \<open>Statement_Task\<close> composes the task with
    the machine: every run of the task gives the answers, the state and the world of the abstract
    machine on the messages posted.
    \<open>Event_Task_Manager\<close> puts many tasks behind the manager's read and write lock, and routes by
    the last completed registration of a name. \<open>Managed_Tasks\<close>: each task's part of a run of a manager
    is a run of the task; below, the promises of one task are carried over to every task of a manager.
  \<^item> \<open>Background_Worker\<close>, \<open>Timer_Model\<close>: one thread each, with the flags that steer it. The timer
    fires whole rounds of the listeners that were registered when its thread copied them.
    \<open>Worker_Stop\<close>: the worker's destructor returns.
  \<^item> \<open>Posix_Queue\<close>: every method over a record of the \<^verbatim>\<open>mq_*\<close> calls; deadline arithmetic.
    \<open>Posix_Fifo\<close>: on the documented laws of those calls, as far as the class makes them, the queue
    answers as the deque, call for call.
  \<^item> \<open>Start_Info\<close>, \<open>Process_Model\<close>: the exec call of a launcher, \<^verbatim>\<open>start_async\<close> with its error
    paths (a pipe, the fork or the collector's thread that fails), the child's redirections, reading
    and waiting, over a record of system calls with the laws of descriptor tables.
    \<open>Process_Collect\<close>: the collector, step by step, against a child on bounded pipes.
    \<open>Process_Output\<close>: \<^verbatim>\<open>start\<close> over the system calls, on the laws of \<^verbatim>\<open>read\<close>,
    \<^verbatim>\<open>close\<close> and \<^verbatim>\<open>wait4\<close> for such a child: its loops are runs of that collector, so that the
    result holds the whole output, or \<^verbatim>\<open>start\<close> never returns. A read may fail, or wait forever
    for a child that is stuck. \<open>Process_Kill\<close>: \<^verbatim>\<open>kill\<close>, the destructor and moving against the detached collector.
  \<^item> \<open>Enum_Types\<close>, \<open>Enum_Bitset\<close>, \<open>Reference_Property\<close>: the templates. \<open>Bitset_Set\<close>: a bitset is
    the set of the positions its enumerators name, under every sequence of calls. \<open>Utility_File\<close>:
    \<^verbatim>\<open>create_file\<close>.

  \<^bold>\<open>Bounds and termination.\<close> No fuel is used. Loops over system calls (\<open>drain\<close>, \<open>read_all\<close>) are
  partial functions whose \<open>None\<close> is a loop that never ends; whether they end is proved from a measure
  of what the system still delivers. A system call that may wait forever is an option as well. Runs of the collector are bounded by twice the bytes the child
  writes and four; the loop thread's steps after \<^verbatim>\<open>stop\<close> by twice the messages ahead and three, the
  timer's by the listeners left in the round and four, the worker's by what its task has left and
  seven. Such bounds count the steps of the thread
  concerned, however many others take theirs in between. A pipe's capacity is a parameter greater than zero.

  \<^bold>\<open>Not modelled.\<close> Memory allocation failures; failures to create the threads of tasks, pools,
  workers and timers (that of a process's collector is modelled), and of locking a mutex; signals
  that interrupt \<^verbatim>\<open>waitpid\<close>; grandchildren that keep a pipe open after the child has ended; the duration of steps (a timeout may strike whenever
  its thread is blocked); \<^verbatim>\<open>timeval\<close> overflow in the processor times.
  Dangling references other than the one of \<open>Process_Kill\<close> are outside the memory model: objects
  otherwise outlive their users. Build files, tests and scripts are not part of the program.
\<close>

section \<open>Tasks behind a manager\<close>

text \<open>
  C22: What a client of one task relies on holds of every task of a manager, whatever threads
  register, remove, send and call through it and whatever they do to the tasks directly: each task
  handles its messages in the order in which they were posted to it, none lost and none twice; a
  blocking call that returned before its time was up returned what its own message gave; and unless
  somebody changes a task's hooks or aggregator during the run, each task's results, aggregator and
  world are those of a sequential server that works off the first messages posted to it alone.
\<close>

theorem managed_tasks_keep_their_promises:
  fixes code :: "'p \<Rightarrow> ('n::len word, 'v, 'a, 'k, 'w) task_code"
  assumes "run (manager_step code) m0 ls m"
    and "store m0 = (\<lambda>p. configured_task (code p) (kind p) (name p) (h1 p) (h2 p) (agg p) (w p))"
  shows "posted (store m p) = map fst (handled (store m p)) @ in_hand (store m p) @ message_queue (store m p) \<and>
    {(c, r). (c, False, r) \<in> set (returned (store m p))} \<subseteq> set (handled (store m p)) \<and>
    (list_all (\<lambda>l. \<not> mgr_reconfigures l) ls \<longrightarrow>
       (map snd (handled (store m p)), aggregator (store m p), world (store m p)) =
         wind_up (code p) (h2 p) (loop_done (store m p) \<or> terminated (store m p))
           (serve (code p) (h1 p) (take (length (handled (store m p))) (posted (store m p))) (agg p, w p)))"
proof -
  let ?s = "configured_task (code p) (kind p) (name p) (h1 p) (h2 p) (agg p) (w p)"
  obtain ks where ks: "run (task_step (code p)) ?s ks (store m p)"
      "list_all (\<lambda>l. \<not> mgr_reconfigures l) ls \<longrightarrow> list_all (\<lambda>k. \<not> reconfigures k) ks"
    using task_part [OF assms(1), of p] assms(2) by auto
  have inv: "task_inv (store m p)"
    using task.inv_reaches [OF reachesI [OF ks(1)]]
      configured_task_serves [of "code p" "kind p" "name p" "h1 p" "h2 p" "agg p" "w p"] by blast
  then have "\<forall>x\<in>set (returned (store m p)). fair_return (handled (store m p)) x"
    by (simp add: task_inv_def client_inv_def)
  with inv task_is_sequential_server [OF ks(1)] ks(2) show ?thesis
    by (auto simp: task_inv_def flow_inv_def in_order_def fair_return_def)
qed

theorem managed_tasks_keep_their_promises_witness:
  "\<exists>ls m. run (manager_step (\<lambda>p. counting_code\<lparr>loop_thread := p\<rparr>)) counting_manager ls m \<and>
     posted (store m 1) \<noteq> [] \<and>
     posted (store m 1) = map fst (handled (store m 1)) @ in_hand (store m 1) @ message_queue (store m 1)"
proof -
  let ?code = "\<lambda>p. counting_code\<lparr>loop_thread := p\<rparr>"
  let ?send = "Mgr_Send 7 ''b'' (request_plain [] 3) :: (nat, 8 word, unit, unit, unit) manager_action"
  obtain m where m: "mgr_send_event ?code 7 ''b'' (request_plain [] 3) counting_manager = Some (Inr (), m)"
      "posted (store m 1) \<noteq> []"
    by (simp add: mgr_send_event_def find_or_throw_def on_task_def counting_manager_def task_eval)
  have "manager_step ?code counting_manager ?send m"
    by (rule manager_step.send [OF _ m(1)]) (simp add: free_def counting_manager_def)
  then have r: "run (manager_step ?code) counting_manager [?send] m" by (rule run_single)
  have "store counting_manager = (\<lambda>p. configured_task (?code p) Message_Task ''t'' None None () 0)"
    by (simp add: counting_manager_def configured_task_def set_on_start_def set_on_finish_def make_task_def task_base.extend_def)
  from managed_tasks_keep_their_promises [OF r this, of 1] m(2) r show ?thesis by blast
qed

end
